(* ===== verification/Prelude.thy ===== *)
theory Prelude
  imports Main "HOL-Library.Word"
begin

unbundle bit_operations_syntax

text \<open>
  The shared vocabulary of the development: the machine types of the kernel, the outcome of a
  kernel routine, bounded array and buffer accesses, the errno convention of
  \<^verbatim>\<open>types.h\<close> and \<^verbatim>\<open>syscalls.h\<close>, and the generic lemmas on words and lists that the
  component theories use.
\<close>

section \<open>Machine types\<close>

type_synonym u8 = "8 word"
type_synonym u16 = "16 word"
type_synonym u32 = "32 word"
type_synonym u64 = "64 word"
type_synonym size_t = "64 word"

section \<open>Outcomes of a kernel routine\<close>

text \<open>
  A routine of the kernel either returns (\<open>Ok\<close>), stops the machine through \<^verbatim>\<open>panic()\<close> or a
  failed \<^verbatim>\<open>assert()\<close> (\<open>Panic\<close>), spins on a lock that is already taken in the state it was
  called in (\<open>Spin\<close>), or touches memory outside the object it addresses (\<open>Fault\<close>).
\<close>

datatype 'a outcome = Ok 'a | Panic | Spin | Fault

primrec obind :: "'a outcome \<Rightarrow> ('a \<Rightarrow> 'b outcome) \<Rightarrow> 'b outcome" where
  "obind (Ok x) f = f x"
| "obind Panic f = Panic"
| "obind Spin f = Spin"
| "obind Fault f = Fault"

definition cassert :: "bool \<Rightarrow> 'a outcome \<Rightarrow> 'a outcome" where
  "cassert b k = (if b then k else Panic)"

text \<open>A division or remainder by \<open>d\<close> traps when \<open>d\<close> is zero.\<close>

definition nonzero :: "'w::len word \<Rightarrow> 'a outcome \<Rightarrow> 'a outcome" where
  "nonzero d k = (if d = 0 then Fault else k)"

named_theorems outcome_simps \<open>evaluation of outcomes\<close>

lemma obind_eq_Ok [outcome_simps]: "obind m f = Ok y \<longleftrightarrow> (\<exists>x. m = Ok x \<and> f x = Ok y)"
  by (cases m) auto

lemma obind_assoc: "obind (obind m f) g = obind m (\<lambda>x. obind (f x) g)"
  by (cases m) auto

lemma cassert_eq_Ok [outcome_simps]: "cassert b k = Ok y \<longleftrightarrow> b \<and> k = Ok y"
  by (simp add: cassert_def)

lemma cassert_simps [simp]: "cassert True k = k" "cassert False k = Panic"
  by (simp_all add: cassert_def)

lemma nonzero_eq_Ok [outcome_simps]: "nonzero d k = Ok y \<longleftrightarrow> d \<noteq> 0 \<and> k = Ok y"
  by (simp add: nonzero_def)

lemma nonzero_simps [simp]: "nonzero 0 k = Fault" "d \<noteq> 0 \<Longrightarrow> nonzero d k = k"
  by (simp_all add: nonzero_def)

section \<open>Bounded array accesses\<close>

definition aget :: "'a list \<Rightarrow> nat \<Rightarrow> 'a outcome" where
  "aget xs i = (if i < length xs then Ok (xs ! i) else Fault)"

definition aset :: "'a list \<Rightarrow> nat \<Rightarrow> 'a \<Rightarrow> 'a list outcome" where
  "aset xs i v = (if i < length xs then Ok (xs[i := v]) else Fault)"

text \<open>\<^verbatim>\<open>memcpy(&dst[d], &src[s], n)\<close> on two distinct objects.\<close>

definition blit :: "'a list \<Rightarrow> nat \<Rightarrow> 'a list \<Rightarrow> nat \<Rightarrow> nat \<Rightarrow> 'a list outcome" where
  "blit dst d src s n =
     (if d + n \<le> length dst \<and> s + n \<le> length src
      then Ok (take d dst @ take n (drop s src) @ drop (d + n) dst)
      else Fault)"

lemma aget_Ok [simp]: "i < length xs \<Longrightarrow> aget xs i = Ok (xs ! i)"
  by (simp add: aget_def)

lemma aset_Ok [simp]: "i < length xs \<Longrightarrow> aset xs i v = Ok (xs[i := v])"
  by (simp add: aset_def)

lemma blit_Ok:
  "d + n \<le> length dst \<Longrightarrow> s + n \<le> length src \<Longrightarrow>
   blit dst d src s n = Ok (take d dst @ take n (drop s src) @ drop (d + n) dst)"
  by (simp add: blit_def)

lemma length_blit: "blit dst d src s n = Ok dst' \<Longrightarrow> length dst' = length dst"
  by (auto simp: blit_def split: if_splits)

section \<open>Errno values\<close>

text \<open>\<^verbatim>\<open>ERR(errno)\<close> of \<^verbatim>\<open>types.h\<close> and \<^verbatim>\<open>RET_IS_ERR\<close> of \<^verbatim>\<open>syscalls.h\<close>.\<close>

definition ERR :: "u64 \<Rightarrow> u64" where
  "ERR e = - e"

definition RET_IS_ERR :: "u64 \<Rightarrow> bool" where
  "RET_IS_ERR r \<longleftrightarrow> r > - 4096"

definition EPERM :: u64 where "EPERM = 1"
definition ENOENT :: u64 where "ENOENT = 2"
definition EINTR :: u64 where "EINTR = 4"
definition EBADF :: u64 where "EBADF = 9"
definition EAGAIN :: u64 where "EAGAIN = 11"
definition EXDEV :: u64 where "EXDEV = 18"
definition ENOTDIR :: u64 where "ENOTDIR = 20"
definition EINVAL :: u64 where "EINVAL = 22"
definition ENOTTY :: u64 where "ENOTTY = 25"
definition ESPIPE :: u64 where "ESPIPE = 29"
definition EROFS :: u64 where "EROFS = 30"
definition EPIPE :: u64 where "EPIPE = 32"
definition ENOSYS :: u64 where "ENOSYS = 38"
definition ELOOP :: u64 where "ELOOP = 40"
definition ENOTSOCK :: u64 where "ENOTSOCK = 88"
definition EAFNOSUPPORT :: u64 where "EAFNOSUPPORT = 97"
definition EADDRINUSE :: u64 where "EADDRINUSE = 98"
definition EISCONN :: u64 where "EISCONN = 106"
definition ENOTCONN :: u64 where "ENOTCONN = 107"
definition ETIMEDOUT :: u64 where "ETIMEDOUT = 110"
definition ECONNREFUSED :: u64 where "ECONNREFUSED = 111"
definition EINPROGRESS :: u64 where "EINPROGRESS = 115"

lemmas errno_defs = EPERM_def ENOENT_def EINTR_def EBADF_def EAGAIN_def EXDEV_def ENOTDIR_def
  EINVAL_def ENOTTY_def ESPIPE_def EROFS_def EPIPE_def ENOSYS_def ELOOP_def ENOTSOCK_def
  EAFNOSUPPORT_def EADDRINUSE_def EISCONN_def ENOTCONN_def ETIMEDOUT_def ECONNREFUSED_def
  EINPROGRESS_def

section \<open>Flags shared by the file-like objects\<close>

definition O_NONBLOCK :: u32 where "O_NONBLOCK = 0x800"
definition O_CLOEXEC :: u32 where "O_CLOEXEC = 0x80000"
definition EPOLLIN :: u32 where "EPOLLIN = 1"
definition EPOLLOUT :: u32 where "EPOLLOUT = 4"
definition EPOLLERR :: u32 where "EPOLLERR = 8"
definition EPOLLHUP :: u32 where "EPOLLHUP = 0x10"
definition EPOLLRDHUP :: u32 where "EPOLLRDHUP = 0x2000"

lemmas flag_defs = O_NONBLOCK_def O_CLOEXEC_def EPOLLIN_def EPOLLOUT_def EPOLLERR_def EPOLLHUP_def
  EPOLLRDHUP_def

text \<open>
  A call that may block either returns a value to its caller or waits for one of a set of poll
  events. What other tasks do while it waits is given by a list of state changes, one for each
  time it waits; a call that waits when the list is used up is still waiting.
\<close>

datatype blocking = Ret u64 | Wait u32

section \<open>Word arithmetic\<close>

text \<open>\<^verbatim>\<open>DivRoundUp(number, divisor)\<close> of \<^verbatim>\<open>util.h\<close>, with the wrap-around of its type.\<close>

definition DivRoundUp :: "'w::len word \<Rightarrow> 'w word \<Rightarrow> 'w word" where
  "DivRoundUp n d = (n + d - 1) div d"

lemma unat_bound: "unat (w :: 'w::len word) < 2 ^ LENGTH('w)"
  by (rule unsigned_less)

lemma unat_less_two_power: "unat (w :: 64 word) < 18446744073709551616"
  using unat_bound [of w] by simp

lemma unat_Suc_word:
  fixes i n :: "'w::len word"
  assumes "i < n" shows "unat (i + 1) = Suc (unat i)"
proof -
  from assms have "unat i < unat n" by (simp add: word_less_nat_alt)
  with unat_bound [of n] have "unat i + 1 < 2 ^ LENGTH('w)" by linarith
  then show ?thesis by (simp add: unat_word_ariths)
qed

lemma unat_add_no_wrap:
  fixes a b :: "'w::len word"
  assumes "unat a + unat b < 2 ^ LENGTH('w)" shows "unat (a + b) = unat a + unat b"
  using assms by (simp add: unat_word_ariths)

lemma unat_sub_le:
  fixes a b :: "'w::len word"
  assumes "b \<le> a" shows "unat (a - b) = unat a - unat b"
  using assms by (rule unat_sub)

lemma unat_div_word: "unat (a div b) = unat a div unat (b :: 'w::len word)"
  by (rule unat_div)

lemma unat_mod_word: "unat (a mod b) = unat a mod unat (b :: 'w::len word)"
  by (rule unat_mod)

lemma unat_DivRoundUp:
  fixes n d :: "'w::len word"
  assumes d: "0 < d" and nw: "unat n + unat d \<le> 2 ^ LENGTH('w)"
  shows "unat (DivRoundUp n d) = (unat n + unat d - 1) div unat d"
proof -
  from d have d1: "1 \<le> d" and "0 < unat d"
    by (simp_all add: word_le_nat_alt word_less_nat_alt)
  then have "unat (d - 1) = unat d - 1" by (simp add: unat_sub)
  then have "unat (n + (d - 1)) = unat n + (unat d - 1)"
    using nw \<open>0 < unat d\<close> by (subst unat_add_no_wrap) simp_all
  then show ?thesis
    using \<open>0 < unat d\<close> by (simp add: DivRoundUp_def unat_div_word add_diff_eq)
qed

text \<open>A non-negative \<^verbatim>\<open>int\<close> survives its conversion to \<^verbatim>\<open>size_t\<close>.\<close>

lemma unat_scast_int:
  fixes p :: "32 word"
  assumes "unat p < 2 ^ 31" shows "unat (scast p :: size_t) = unat p"
proof -
  have "uint p < 2 ^ 31" using assms by (metis of_nat_less_iff of_nat_numeral of_nat_power uint_nat)
  moreover have "- (2 ^ 31) \<le> uint p" by (rule order_trans [OF _ uint_ge_0]) simp
  ultimately have eq: "sint p = uint p"
    unfolding sint_uint by (intro signed_take_bit_int_eq_self) simp_all
  have "(scast p :: size_t) = ucast p" unfolding scast_eq eq ucast_eq ..
  then show ?thesis
    by (simp add: unsigned_ucast_eq take_bit_nat_eq_self unsigned_less [THEN less_trans])
qed

end
