(* ===== verification/Bitmap.thy ===== *)
theory Bitmap
  imports Prelude
begin

unbundle bit_operations_syntax

text \<open>
  The bitmap-based region manager of \<^verbatim>\<open>utilities/data_structures/bitmap.c\<close>: one bit per
  4096-byte block, set when the block is in use. The bytes are a list, and an index past its
  end is a \<open>Fault\<close>; block numbers and pointers are 64-bit words that wrap around as
  \<^verbatim>\<open>size_t\<close> does.

  The lemmas show that marking a region changes exactly its bits, that the first-fit search
  is sound and complete in spite of its starting hint \<^verbatim>\<open>lastDeepFragmented\<close>, and that
  allocation and release are inverse to each other.
\<close>

section \<open>State\<close>

record DS_Bitmap =
  Bitmap :: "u8 list"
  BitmapSizeInBlocks :: size_t
  BitmapSizeInBytes :: size_t
  allocatedSizeInBlocks :: size_t
  lastDeepFragmented :: size_t
  mem_start :: size_t
  ready :: bool

definition BLOCKS_PER_BYTE :: size_t where "BLOCKS_PER_BYTE = 8"
definition BLOCK_SIZE :: size_t where "BLOCK_SIZE = 4096"
definition INVALID_BLOCK :: size_t where "INVALID_BLOCK = - 1"

section \<open>Conversions\<close>

definition ToPtr :: "DS_Bitmap \<Rightarrow> size_t \<Rightarrow> size_t" where
  "ToPtr b block = mem_start b + block * BLOCK_SIZE"

definition ToBlock :: "DS_Bitmap \<Rightarrow> size_t \<Rightarrow> size_t" where
  "ToBlock b ptr = (ptr - mem_start b) div BLOCK_SIZE"

definition ToBlockRoundUp :: "DS_Bitmap \<Rightarrow> size_t \<Rightarrow> size_t" where
  "ToBlockRoundUp b ptr = DivRoundUp (ptr - mem_start b) BLOCK_SIZE"

definition BitmapCalculateSize :: "size_t \<Rightarrow> size_t" where
  "BitmapCalculateSize totalSize = DivRoundUp (DivRoundUp totalSize BLOCK_SIZE) 8"

section \<open>Single bits\<close>

definition BitmapGet :: "DS_Bitmap \<Rightarrow> size_t \<Rightarrow> bool outcome" where
  "BitmapGet b block =
     (let addr = block div BLOCKS_PER_BYTE; offset = block mod BLOCKS_PER_BYTE
      in obind (aget (Bitmap b) (unat addr))
           (\<lambda>byte. Ok (byte AND push_bit (unat offset) 1 \<noteq> 0)))"

definition BitmapSet :: "DS_Bitmap \<Rightarrow> size_t \<Rightarrow> bool \<Rightarrow> DS_Bitmap outcome" where
  "BitmapSet b block value =
     (let addr = block div BLOCKS_PER_BYTE; offset = block mod BLOCKS_PER_BYTE
      in obind (aget (Bitmap b) (unat addr)) (\<lambda>byte.
         obind (aset (Bitmap b) (unat addr)
                  (if value then byte OR push_bit (unat offset) 1
                   else byte AND NOT (push_bit (unat offset) 1)))
           (\<lambda>bytes. Ok (b\<lparr>Bitmap := bytes\<rparr>))))"

section \<open>Marking regions\<close>

text \<open>The loop of \<^verbatim>\<open>MarkBlocks\<close>, from \<open>i\<close> while it is below the (wrapped) end.\<close>

function mark_loop :: "DS_Bitmap \<Rightarrow> size_t \<Rightarrow> size_t \<Rightarrow> bool \<Rightarrow> DS_Bitmap outcome" where
  "mark_loop b i e val =
     (if i < e then obind (BitmapSet b i val) (\<lambda>b'. mark_loop b' (i + 1) e val) else Ok b)"
  by pat_completeness auto
termination
  by (relation "measure (\<lambda>(b, i, e, val). unat e - unat i)")
     (auto simp: unat_Suc_word word_less_nat_alt)

declare mark_loop.simps [simp del]

definition MarkBlocks :: "DS_Bitmap \<Rightarrow> size_t \<Rightarrow> size_t \<Rightarrow> bool \<Rightarrow> DS_Bitmap outcome" where
  "MarkBlocks b start sz val =
     (let b1 = (if \<not> val \<and> start < lastDeepFragmented b
                then b\<lparr>lastDeepFragmented := start\<rparr> else b)
      in obind (mark_loop b1 start (start + sz) val) (\<lambda>b2.
           Ok (b2\<lparr>allocatedSizeInBlocks :=
                    allocatedSizeInBlocks b2 + (if val then sz else - sz)\<rparr>)))"

definition MarkRegion :: "DS_Bitmap \<Rightarrow> size_t \<Rightarrow> size_t \<Rightarrow> bool \<Rightarrow> DS_Bitmap outcome" where
  "MarkRegion b basePtr sizeBytes isUsed =
     (if isUsed
      then MarkBlocks b (ToBlock b basePtr) (DivRoundUp sizeBytes BLOCK_SIZE) True
      else MarkBlocks b (ToBlockRoundUp b basePtr) (sizeBytes div BLOCK_SIZE) False)"

section \<open>Searching, allocating, releasing\<close>

function find_loop :: "DS_Bitmap \<Rightarrow> size_t \<Rightarrow> size_t \<Rightarrow> size_t \<Rightarrow> size_t
    \<Rightarrow> (size_t \<times> DS_Bitmap) outcome" where
  "find_loop b blocks i currentRegionStart currentRegionSize =
     (if i < BitmapSizeInBlocks b then
        obind (BitmapGet b i) (\<lambda>used.
          if used then find_loop b blocks (i + 1) (i + 1) 0
          else
            let b' = (if blocks = 1
                      then b\<lparr>lastDeepFragmented := currentRegionStart + 1\<rparr> else b);
                size' = currentRegionSize + 1
            in if size' \<ge> blocks then Ok (currentRegionStart, b')
               else find_loop b' blocks (i + 1) currentRegionStart size')
      else Ok (INVALID_BLOCK, b))"
  by pat_completeness auto
termination
  by (relation "measure (\<lambda>(b, blocks, i, s, n). unat (BitmapSizeInBlocks b) - unat i)")
     (auto simp: unat_Suc_word word_less_nat_alt)

declare find_loop.simps [simp del]

definition FindFreeRegion :: "DS_Bitmap \<Rightarrow> size_t \<Rightarrow> (size_t \<times> DS_Bitmap) outcome" where
  "FindFreeRegion b blocks =
     find_loop b blocks (lastDeepFragmented b) (lastDeepFragmented b) 0"

definition BitmapAllocate :: "DS_Bitmap \<Rightarrow> size_t \<Rightarrow> (size_t \<times> DS_Bitmap) outcome" where
  "BitmapAllocate b blocks =
     (if blocks = 0 then Ok (0, b)
      else obind (FindFreeRegion b blocks) (\<lambda>(pickedRegion, b1).
        if pickedRegion = INVALID_BLOCK then Ok (0, b1)
        else obind (MarkBlocks b1 pickedRegion blocks True)
               (\<lambda>b2. Ok (ToPtr b2 pickedRegion, b2))))"

definition BitmapFree :: "DS_Bitmap \<Rightarrow> size_t \<Rightarrow> size_t \<Rightarrow> DS_Bitmap outcome" where
  "BitmapFree b base blocks = MarkRegion b base (BLOCK_SIZE * blocks) False"

definition BitmapAllocatePageframe :: "DS_Bitmap \<Rightarrow> (size_t \<times> DS_Bitmap) outcome" where
  "BitmapAllocatePageframe b =
     obind (FindFreeRegion b 1) (\<lambda>(pickedRegion, b1).
     obind (MarkBlocks b1 pickedRegion 1 True)
       (\<lambda>b2. Ok (mem_start b2 + pickedRegion * BLOCK_SIZE, b2)))"

definition BitmapFreePageframe :: "DS_Bitmap \<Rightarrow> size_t \<Rightarrow> DS_Bitmap outcome" where
  "BitmapFreePageframe b addr = MarkRegion b addr (BLOCK_SIZE * 1) False"

section \<open>The set of used blocks\<close>

definition blk_used :: "DS_Bitmap \<Rightarrow> nat \<Rightarrow> bool" where
  "blk_used b k \<longleftrightarrow> bit (Bitmap b ! (k div 8)) (k mod 8)"

definition nblocks :: "DS_Bitmap \<Rightarrow> nat" where
  "nblocks b = unat (BitmapSizeInBlocks b)"

text \<open>
  Every block number below \<^verbatim>\<open>BitmapSizeInBlocks\<close> addresses a byte of the array. The size is a
  quotient by the block size, so it is below \<open>2 ^ 52\<close> and block addresses do not wrap.
\<close>

definition bitmap_wf :: "DS_Bitmap \<Rightarrow> bool" where
  "bitmap_wf b \<longleftrightarrow> nblocks b \<le> 8 * length (Bitmap b) \<and> nblocks b < 2 ^ 52"

text \<open>The hint never skips a free block: what it passes over is in use.\<close>

definition hint_ok :: "DS_Bitmap \<Rightarrow> bool" where
  "hint_ok b \<longleftrightarrow> lastDeepFragmented b \<le> BitmapSizeInBlocks b \<and>
     (\<forall>k < unat (lastDeepFragmented b). blk_used b k)"

definition bitmap_inv :: "DS_Bitmap \<Rightarrow> bool" where
  "bitmap_inv b \<longleftrightarrow> bitmap_wf b \<and> hint_ok b"

lemma div8_less: "k < 8 * n \<Longrightarrow> k div 8 < (n :: nat)"
  by (simp add: less_mult_imp_div_less mult.commute)

lemma unat_block_div: "unat (k div BLOCKS_PER_BYTE) = unat k div 8"
  by (simp add: BLOCKS_PER_BYTE_def unat_div)

lemma unat_block_mod: "unat (k mod BLOCKS_PER_BYTE) = unat k mod 8"
  by (simp add: BLOCKS_PER_BYTE_def unat_mod)

lemma BitmapGet_Ok:
  "unat k < 8 * length (Bitmap b) \<Longrightarrow> BitmapGet b k = Ok (blk_used b (unat k))"
  by (simp add: BitmapGet_def Let_def unat_block_div unat_block_mod div8_less
      and_exp_eq_0_iff_not_bit blk_used_def)

lemma bit_set_clear:
  "n < 8 \<Longrightarrow> bit (if v then (byte :: u8) OR push_bit n 1 else byte AND NOT (push_bit n 1)) m
     = (if m = n then v else bit byte m)"
  by (auto simp: bit_or_iff bit_and_iff bit_not_iff bit_exp_iff dest: bit_imp_le_length)

text \<open>Writing one block changes that block only.\<close>

lemma BitmapSet_spec:
  assumes "unat k < 8 * length (Bitmap b)"
  shows "\<exists>bs. BitmapSet b k v = Ok (b\<lparr>Bitmap := bs\<rparr>) \<and> length bs = length (Bitmap b) \<and>
    (\<forall>j < 8 * length bs. blk_used (b\<lparr>Bitmap := bs\<rparr>) j = (if j = unat k then v else blk_used b j))"
proof -
  let ?a = "unat k div 8" and ?o = "unat k mod 8"
  let ?byte = "Bitmap b ! ?a"
  let ?new = "if v then ?byte OR push_bit ?o 1 else ?byte AND NOT (push_bit ?o 1)"
  let ?bs = "(Bitmap b)[?a := ?new]"
  have a: "?a < length (Bitmap b)" using assms by (rule div8_less)
  then have "BitmapSet b k v = Ok (b\<lparr>Bitmap := ?bs\<rparr>)"
    by (simp add: BitmapSet_def Let_def unat_block_div unat_block_mod)
  moreover have "blk_used (b\<lparr>Bitmap := ?bs\<rparr>) j = (if j = unat k then v else blk_used b j)" for j
  proof (cases "j div 8 = ?a")
    case True
    have "j = unat k \<longleftrightarrow> j mod 8 = ?o"
      using True by (metis div_mult_mod_eq)
    with True a show ?thesis by (simp add: blk_used_def bit_set_clear)
  next
    case False
    then show ?thesis by (auto simp: blk_used_def)
  qed
  ultimately show ?thesis by (metis length_list_update)
qed

section \<open>Marking\<close>

lemma mark_loop_spec:
  assumes "unat e \<le> 8 * length (Bitmap b)"
  shows "\<exists>bs. mark_loop b i e v = Ok (b\<lparr>Bitmap := bs\<rparr>) \<and> length bs = length (Bitmap b) \<and>
    (\<forall>j < 8 * length bs. blk_used (b\<lparr>Bitmap := bs\<rparr>) j =
       (if unat i \<le> j \<and> j < unat e then v else blk_used b j))"
  using assms
proof (induction "unat e - unat i" arbitrary: b i)
  case 0
  then have "\<not> i < e" by (simp add: word_less_nat_alt)
  then show ?case using 0 by (intro exI [of _ "Bitmap b"]) (auto simp: mark_loop.simps)
next
  case (Suc n)
  then have ie: "i < e" by (simp add: word_less_nat_alt)
  then have i1: "unat (i + 1) = Suc (unat i)" by (rule unat_Suc_word)
  from ie Suc.prems have "unat i < 8 * length (Bitmap b)" by (simp add: word_less_nat_alt)
  from BitmapSet_spec [OF this, of v] obtain bs where bs:
    "BitmapSet b i v = Ok (b\<lparr>Bitmap := bs\<rparr>)" "length bs = length (Bitmap b)"
    "\<forall>j < 8 * length bs. blk_used (b\<lparr>Bitmap := bs\<rparr>) j = (if j = unat i then v else blk_used b j)"
    by blast
  have "n = unat e - unat (i + 1)" using Suc.hyps(2) i1 by simp
  from Suc.hyps(1) [OF this, of "b\<lparr>Bitmap := bs\<rparr>"] Suc.prems bs(2) obtain cs where cs:
    "mark_loop (b\<lparr>Bitmap := bs\<rparr>) (i + 1) e v = Ok (b\<lparr>Bitmap := cs\<rparr>)"
    "length cs = length bs"
    "\<forall>j < 8 * length cs. blk_used (b\<lparr>Bitmap := cs\<rparr>) j =
       (if unat (i + 1) \<le> j \<and> j < unat e then v else blk_used (b\<lparr>Bitmap := bs\<rparr>) j)"
    by auto
  have "mark_loop b i e v = Ok (b\<lparr>Bitmap := cs\<rparr>)"
    using ie bs(1) cs(1) by (subst mark_loop.simps) simp
  moreover have "length cs = length (Bitmap b)" using bs(2) cs(2) by simp
  moreover have "\<forall>j < 8 * length cs. blk_used (b\<lparr>Bitmap := cs\<rparr>) j =
       (if unat i \<le> j \<and> j < unat e then v else blk_used b j)"
    using bs(2,3) cs(2,3) i1 ie by (auto simp: word_less_nat_alt)
  ultimately show ?case by blast
qed

text \<open>Two bitmaps over the same region that differ in the use of blocks only.\<close>

definition same_region :: "DS_Bitmap \<Rightarrow> DS_Bitmap \<Rightarrow> bool" where
  "same_region b b' \<longleftrightarrow> length (Bitmap b') = length (Bitmap b) \<and>
     BitmapSizeInBlocks b' = BitmapSizeInBlocks b \<and> BitmapSizeInBytes b' = BitmapSizeInBytes b \<and>
     mem_start b' = mem_start b \<and> ready b' = ready b"

lemma same_region_refl [simp]: "same_region b b"
  by (simp add: same_region_def)

lemma same_region_hint [simp]: "same_region b (b\<lparr>lastDeepFragmented := h\<rparr>)"
  by (simp add: same_region_def)

lemma same_region_trans: "same_region a b \<Longrightarrow> same_region b c \<Longrightarrow> same_region a c"
  by (simp add: same_region_def)

lemma same_region_nblocks: "same_region b b' \<Longrightarrow> nblocks b' = nblocks b"
  by (simp add: same_region_def nblocks_def)

lemma same_region_wf: "same_region b b' \<Longrightarrow> bitmap_wf b' = bitmap_wf b"
  by (simp add: same_region_def bitmap_wf_def nblocks_def)

lemma nblocks_bound: "nblocks b < 2 ^ 64"
  using unat_bound [of "BitmapSizeInBlocks b"] by (simp add: nblocks_def)

lemma blk_used_hint [simp]: "blk_used (b\<lparr>lastDeepFragmented := h\<rparr>) j = blk_used b j"
  by (simp add: blk_used_def)

lemma blk_used_allocated [simp]: "blk_used (b\<lparr>allocatedSizeInBlocks := h\<rparr>) j = blk_used b j"
  by (simp add: blk_used_def)

lemma nblocks_upd [simp]:
  "nblocks (b\<lparr>lastDeepFragmented := h\<rparr>) = nblocks b"
  "nblocks (b\<lparr>allocatedSizeInBlocks := h\<rparr>) = nblocks b"
  "nblocks (b\<lparr>Bitmap := bs\<rparr>) = nblocks b"
  by (simp_all add: nblocks_def)

lemma MarkBlocks_spec:
  assumes wf: "bitmap_wf b" and range: "unat start + unat sz \<le> nblocks b"
  obtains b' where "MarkBlocks b start sz v = Ok b'" and "same_region b b'"
    and "\<And>j. j < nblocks b \<Longrightarrow> blk_used b' j =
           (if unat start \<le> j \<and> j < unat start + unat sz then v else blk_used b j)"
    and "lastDeepFragmented b' =
           (if \<not> v \<and> start < lastDeepFragmented b then start else lastDeepFragmented b)"
    and "allocatedSizeInBlocks b' = allocatedSizeInBlocks b + (if v then sz else - sz)"
proof -
  let ?b1 = "if \<not> v \<and> start < lastDeepFragmented b then b\<lparr>lastDeepFragmented := start\<rparr> else b"
  from range nblocks_bound [of b] have e: "unat (start + sz) = unat start + unat sz"
    by (intro unat_add_no_wrap) simp
  with wf range have "unat (start + sz) \<le> 8 * length (Bitmap ?b1)"
    by (simp add: bitmap_wf_def)
  from mark_loop_spec [OF this, of start v] obtain bs where bs:
    "mark_loop ?b1 start (start + sz) v = Ok (?b1\<lparr>Bitmap := bs\<rparr>)"
    "length bs = length (Bitmap b)"
    "\<forall>j < 8 * length bs. blk_used (?b1\<lparr>Bitmap := bs\<rparr>) j =
       (if unat start \<le> j \<and> j < unat (start + sz) then v else blk_used ?b1 j)"
    by auto
  let ?b2 = "?b1\<lparr>Bitmap := bs\<rparr>"
  let ?b' = "?b2\<lparr>allocatedSizeInBlocks := allocatedSizeInBlocks ?b2 + (if v then sz else - sz)\<rparr>"
  have "MarkBlocks b start sz v = Ok ?b'"
    using bs(1) by (simp add: MarkBlocks_def Let_def)
  then show thesis
  proof (rule that)
    show "same_region b ?b'" using bs(2) by (simp add: same_region_def)
    show "blk_used ?b' j = (if unat start \<le> j \<and> j < unat start + unat sz then v else blk_used b j)"
      if "j < nblocks b" for j
      using that wf bs(2,3) e by (simp add: bitmap_wf_def split del: if_split) (simp split: if_splits)
  qed simp_all
qed

section \<open>First fit\<close>

definition free_run :: "DS_Bitmap \<Rightarrow> nat \<Rightarrow> nat \<Rightarrow> bool" where
  "free_run b k m \<longleftrightarrow> k + m \<le> nblocks b \<and> (\<forall>j \<in> {k..<k + m}. \<not> blk_used b j)"

definition first_fit :: "DS_Bitmap \<Rightarrow> nat \<Rightarrow> nat \<Rightarrow> bool" where
  "first_fit b m k \<longleftrightarrow> free_run b k m \<and> (\<forall>j < k. \<not> free_run b j m)"

definition found_hint :: "DS_Bitmap \<Rightarrow> size_t \<Rightarrow> size_t \<Rightarrow> DS_Bitmap" where
  "found_hint b blocks r = (if blocks = 1 then b\<lparr>lastDeepFragmented := r + 1\<rparr> else b)"

text \<open>
  What the search has established when it reaches block \<open>i\<close>: the current region
  \<open>s .. s + n\<close> ends at \<open>i\<close>, is free and still too short, and no earlier start fits.
\<close>

definition scan_inv :: "DS_Bitmap \<Rightarrow> nat \<Rightarrow> nat \<Rightarrow> nat \<Rightarrow> nat \<Rightarrow> bool" where
  "scan_inv b m i s n \<longleftrightarrow> s + n = i \<and> n < m \<and> i \<le> nblocks b \<and>
     (\<forall>j \<in> {s..<i}. \<not> blk_used b j) \<and> (\<forall>k < s. \<not> free_run b k m)"

lemma scan_inv_used:
  assumes "scan_inv b m i s n" "blk_used b i" "i < nblocks b"
  shows "scan_inv b m (Suc i) (Suc i) 0"
proof -
  have "\<not> free_run b k m" if "k < Suc i" for k
  proof (cases "k < s")
    case False
    with that assms(1) have "i \<in> {k..<k + m}" by (auto simp: scan_inv_def)
    with assms(2) show ?thesis by (auto simp: free_run_def)
  qed (use assms(1) in \<open>simp add: scan_inv_def\<close>)
  with assms show ?thesis by (auto simp: scan_inv_def)
qed

lemma scan_inv_free:
  assumes "scan_inv b m i s n" "\<not> blk_used b i" "i < nblocks b"
  shows "if m \<le> Suc n then first_fit b m s else scan_inv b m (Suc i) s (Suc n)"
proof (cases "m \<le> Suc n")
  case True
  with assms(1) have "m = Suc n" by (simp add: scan_inv_def)
  with assms show ?thesis by (auto simp: scan_inv_def first_fit_def free_run_def less_Suc_eq)
next
  case False
  with assms show ?thesis by (auto simp: scan_inv_def less_Suc_eq)
qed

lemma scan_inv_end:
  assumes "scan_inv b m (nblocks b) s n"
  shows "\<not> free_run b k m"
  using assms by (cases "k < s") (auto simp: scan_inv_def free_run_def)

lemma find_loop_spec:
  assumes wf: "bitmap_wf b" and inv: "scan_inv b (unat blocks) (unat i) (unat s) (unat n)"
  shows "(\<exists>r. find_loop b blocks i s n = Ok (r, found_hint b blocks r) \<and> unat r < nblocks b \<and>
            first_fit b (unat blocks) (unat r))
       \<or> (find_loop b blocks i s n = Ok (INVALID_BLOCK, b) \<and> (\<forall>k. \<not> free_run b k (unat blocks)))"
  using inv
proof (induction "nblocks b - unat i" arbitrary: i s n)
  case 0
  then have "unat i = nblocks b" by (simp add: scan_inv_def)
  then have "\<not> i < BitmapSizeInBlocks b" by (simp add: nblocks_def word_less_nat_alt)
  then have "find_loop b blocks i s n = Ok (INVALID_BLOCK, b)" by (simp add: find_loop.simps)
  with scan_inv_end 0(2) \<open>unat i = nblocks b\<close> show ?case by metis
next
  case (Suc d)
  then have lt: "i < BitmapSizeInBlocks b" and ltn: "unat i < nblocks b"
    by (simp_all add: nblocks_def word_less_nat_alt)
  then have i1: "unat (i + 1) = Suc (unat i)" by (metis unat_Suc_word)
  have sn: "unat s + unat n = unat i" "unat n < unat blocks" using Suc.prems by (simp_all add: scan_inv_def)
  have n1: "unat (n + 1) = Suc (unat n)" using sn(2) unat_Suc_word [of n blocks]
    by (simp add: word_less_nat_alt)
  have d: "d = nblocks b - unat (i + 1)" using Suc.hyps(2) i1 by simp
  have get: "BitmapGet b i = Ok (blk_used b (unat i))"
    using wf ltn by (intro BitmapGet_Ok) (simp add: bitmap_wf_def)
  show ?case
  proof (cases "blk_used b (unat i)")
    case True
    have "find_loop b blocks i s n = find_loop b blocks (i + 1) (i + 1) 0"
      using lt get True by (subst find_loop.simps) simp
    moreover have "scan_inv b (unat blocks) (unat (i + 1)) (unat (i + 1)) (unat (0 :: size_t))"
      using scan_inv_used [OF Suc.prems True ltn] i1 by simp
    ultimately show ?thesis using Suc.hyps(1) [OF d] by simp
  next
    case False
    note step = scan_inv_free [OF Suc.prems False ltn]
    have le: "blocks \<le> n + 1 \<longleftrightarrow> unat blocks \<le> Suc (unat n)"
      using n1 by (simp add: word_le_nat_alt)
    show ?thesis
    proof (cases "unat blocks \<le> Suc (unat n)")
      case True
      have "find_loop b blocks i s n = Ok (s, found_hint b blocks s)"
        using lt get False True le by (subst find_loop.simps) (simp add: found_hint_def Let_def)
      moreover have "unat s < nblocks b" using sn ltn by simp
      ultimately show ?thesis using step True by auto
    next
      case big: False
      then have "blocks \<noteq> 1" by auto
      then have "find_loop b blocks i s n = find_loop b blocks (i + 1) s (n + 1)"
        using lt get False big le by (subst find_loop.simps) (simp add: Let_def)
      moreover have "scan_inv b (unat blocks) (unat (i + 1)) (unat s) (unat (n + 1))"
        using step big i1 n1 by simp
      ultimately show ?thesis using Suc.hyps(1) [OF d] by simp
    qed
  qed
qed

lemma FindFreeRegion_cases:
  assumes inv: "bitmap_inv b" and pos: "0 < blocks"
  obtains (found) r where "FindFreeRegion b blocks = Ok (r, found_hint b blocks r)"
      and "r \<noteq> INVALID_BLOCK" and "first_fit b (unat blocks) (unat r)"
    | (none) "FindFreeRegion b blocks = Ok (INVALID_BLOCK, b)"
      and "\<And>k. \<not> free_run b k (unat blocks)"
proof -
  let ?h = "unat (lastDeepFragmented b)"
  from pos have m: "0 < unat blocks" by (simp add: word_less_nat_alt)
  have "\<not> free_run b k (unat blocks)" if "k < ?h" for k
    using that inv m by (auto simp: free_run_def bitmap_inv_def hint_ok_def)
  then have "scan_inv b (unat blocks) ?h ?h (unat (0 :: size_t))"
    using inv m by (auto simp: scan_inv_def bitmap_inv_def hint_ok_def nblocks_def word_le_nat_alt)
  from find_loop_spec [OF _ this] inv
  consider r where "FindFreeRegion b blocks = Ok (r, found_hint b blocks r)"
      "unat r < nblocks b" "first_fit b (unat blocks) (unat r)"
    | "FindFreeRegion b blocks = Ok (INVALID_BLOCK, b)" "\<forall>k. \<not> free_run b k (unat blocks)"
    unfolding FindFreeRegion_def bitmap_inv_def by blast
  then show thesis
  proof cases
    case 1
    have "r < BitmapSizeInBlocks b" using 1(2) by (simp add: nblocks_def word_less_nat_alt)
    then have "r \<noteq> INVALID_BLOCK" by (auto simp: INVALID_BLOCK_def)
    with 1 show ?thesis by (intro found)
  next
    case 2
    then show ?thesis by (intro none) auto
  qed
qed

section \<open>The interface of a region allocator\<close>

text \<open>
  What a client of the bitmap may rely on: blocks are numbered below \<open>span\<close>, \<open>used\<close> is
  the set of blocks in use, an allocation either takes a run of unused blocks or reports (with
  a null pointer) that there is none, and a release returns exactly the blocks it names.
\<close>

locale region_allocator =
  fixes invar :: "'s \<Rightarrow> bool"
    and used :: "'s \<Rightarrow> nat set"
    and span :: "'s \<Rightarrow> nat"
    and addr :: "'s \<Rightarrow> nat \<Rightarrow> size_t"
    and alloc :: "'s \<Rightarrow> size_t \<Rightarrow> (size_t \<times> 's) outcome"
    and release :: "'s \<Rightarrow> size_t \<Rightarrow> size_t \<Rightarrow> 's outcome"
  assumes alloc_result: "invar s \<Longrightarrow> 0 < n \<Longrightarrow>
      (\<exists>k s'. alloc s n = Ok (addr s k, s') \<and> k + unat n \<le> span s \<and>
         {k..<k + unat n} \<inter> used s = {} \<and> used s' = used s \<union> {k..<k + unat n} \<and>
         invar s' \<and> span s' = span s \<and> addr s' = addr s)
      \<or> (alloc s n = Ok (0, s) \<and>
         (\<forall>k. k + unat n \<le> span s \<longrightarrow> {k..<k + unat n} \<inter> used s \<noteq> {}))"
    and release_result: "invar s \<Longrightarrow> k + unat n \<le> span s \<Longrightarrow>
      \<exists>s'. release s (addr s k) n = Ok s' \<and> used s' = used s - {k..<k + unat n} \<and>
         invar s' \<and> span s' = span s \<and> addr s' = addr s"
begin

text \<open>Releasing what was just allocated restores the set of used blocks.\<close>

lemma alloc_release:
  assumes "invar s" "0 < n" "alloc s n = Ok (p, s1)" "p \<noteq> 0"
  shows "\<exists>s2. release s1 p n = Ok s2 \<and> used s2 = used s \<and> invar s2 \<and> span s2 = span s"
proof -
  from alloc_result [OF assms(1,2)] assms(3,4) obtain k where
    k: "p = addr s k" "k + unat n \<le> span s" "{k..<k + unat n} \<inter> used s = {}"
      "used s1 = used s \<union> {k..<k + unat n}" "invar s1" "span s1 = span s" "addr s1 = addr s"
    by auto
  from release_result [OF k(5), of k n] k obtain s2 where
    "release s1 p n = Ok s2" "used s2 = used s1 - {k..<k + unat n}" "invar s2" "span s2 = span s"
    by auto
  moreover have "used s1 - {k..<k + unat n} = used s" using k(3,4) by blast
  ultimately show ?thesis by auto
qed

text \<open>Two live allocations never share a block.\<close>

lemma alloc_twice_disjoint:
  assumes "invar s" "0 < n" "0 < m"
    and "alloc s n = Ok (p, s1)" "p \<noteq> 0" and "alloc s1 m = Ok (q, s2)" "q \<noteq> 0"
  shows "\<exists>k l. p = addr s k \<and> q = addr s l \<and> {k..<k + unat n} \<inter> {l..<l + unat m} = {} \<and>
    k + unat n \<le> span s \<and> l + unat m \<le> span s"
proof -
  from alloc_result [OF assms(1,2)] assms(4,5) obtain k where
    k: "p = addr s k" "k + unat n \<le> span s" "used s1 = used s \<union> {k..<k + unat n}"
      "invar s1" "span s1 = span s" "addr s1 = addr s"
    by auto
  from alloc_result [OF k(4) assms(3)] assms(6,7) obtain l where
    "q = addr s l" "l + unat m \<le> span s" "{l..<l + unat m} \<inter> used s1 = {}"
    using k(5,6) by auto
  with k show ?thesis by blast
qed

text \<open>An allocation fails only when no run of the requested length is free.\<close>

lemma alloc_null_iff:
  assumes "invar s" "0 < n" "\<And>k. k < span s \<Longrightarrow> k \<notin> used s \<Longrightarrow> addr s k \<noteq> 0"
  shows "(\<exists>s'. alloc s n = Ok (0, s')) \<longleftrightarrow>
    (\<forall>k. k + unat n \<le> span s \<longrightarrow> {k..<k + unat n} \<inter> used s \<noteq> {})"
proof -
  from assms(2) have n: "0 < unat n" by (simp add: word_less_nat_alt)
  from alloc_result [OF assms(1,2)] show ?thesis
  proof (elim disjE exE conjE, goal_cases)
    case (1 k s')
    have "k \<in> {k..<k + unat n}" using n by simp
    then have "k \<notin> used s" using 1(3) by blast
    moreover have "k < span s" using 1(2) n by simp
    ultimately have "addr s k \<noteq> 0" by (intro assms(3))
    with 1 show ?case by auto
  qed auto
qed

end

section \<open>The bitmap is a region allocator\<close>

definition used_blocks :: "DS_Bitmap \<Rightarrow> nat set" where
  "used_blocks b = {k. k < nblocks b \<and> blk_used b k}"

definition block_addr :: "DS_Bitmap \<Rightarrow> nat \<Rightarrow> size_t" where
  "block_addr b k = ToPtr b (of_nat k)"

lemma finite_used_blocks [simp]: "finite (used_blocks b)"
  by (simp add: used_blocks_def)

lemma free_run_iff:
  "free_run b k m \<longleftrightarrow> k + m \<le> nblocks b \<and> {k..<k + m} \<inter> used_blocks b = {}"
  by (auto simp: free_run_def used_blocks_def)

lemma used_blocks_same:
  assumes "same_region b b'" and "\<And>j. j < nblocks b \<Longrightarrow> blk_used b' j = (if P j then v else blk_used b j)"
  shows "used_blocks b' = (if v then used_blocks b \<union> {j. j < nblocks b \<and> P j}
                           else used_blocks b - {j. P j})"
  using assms by (auto simp: used_blocks_def same_region_nblocks split: if_splits)

lemma block_addr_same: "same_region b b' \<Longrightarrow> block_addr b' = block_addr b"
  by (simp add: fun_eq_iff block_addr_def ToPtr_def same_region_def)

lemma found_hint_region: "same_region b (found_hint b blocks r)"
  by (simp add: found_hint_def)

text \<open>
  The hint stays sound: a one-block allocation moves it just past the block it takes, and all
  blocks before that one were in use.
\<close>

lemma hint_after_alloc:
  assumes "hint_ok b" "first_fit b (unat blocks) (unat r)" "0 < unat blocks"
    and "same_region b b'"
    and upd: "\<And>j. j < nblocks b \<Longrightarrow> blk_used b' j =
           (if unat r \<le> j \<and> j < unat r + unat blocks then True else blk_used b j)"
    and h: "lastDeepFragmented b' = lastDeepFragmented (found_hint b blocks r)"
  shows "hint_ok b'"
proof (cases "blocks = 1")
  case True
  with assms(2) have fit: "free_run b (unat r) 1" "\<forall>j < unat r. \<not> free_run b j 1"
    by (auto simp: first_fit_def)
  then have lt: "unat r < nblocks b" by (simp add: free_run_def)
  then have r1: "unat (r + 1) = Suc (unat r)"
    using unat_Suc_word [of r "BitmapSizeInBlocks b"] by (simp add: nblocks_def word_less_nat_alt)
  have "blk_used b j" if "j < unat r" for j
    using that fit(2) lt by (auto simp: free_run_def)
  then show ?thesis
    using True h upd lt r1 assms(4)
    by (auto simp: hint_ok_def found_hint_def nblocks_def same_region_def word_le_nat_alt less_Suc_eq)
next
  case False
  then show ?thesis using assms
    by (auto simp: hint_ok_def found_hint_def same_region_def nblocks_def word_le_nat_alt)
qed

lemma BitmapAllocate_cases:
  assumes inv: "bitmap_inv b" and pos: "0 < blocks"
  obtains (taken) r b' where "BitmapAllocate b blocks = Ok (ToPtr b r, b')"
      and "first_fit b (unat blocks) (unat r)" and "bitmap_inv b'" and "same_region b b'"
      and "used_blocks b' = used_blocks b \<union> {unat r..<unat r + unat blocks}"
      and "allocatedSizeInBlocks b' = allocatedSizeInBlocks b + blocks"
    | (exhausted) "BitmapAllocate b blocks = Ok (0, b)" and "\<And>k. \<not> free_run b k (unat blocks)"
  using inv pos
proof (cases rule: FindFreeRegion_cases)
  case (found r)
  let ?b1 = "found_hint b blocks r"
  have m: "0 < unat blocks" using pos by (simp add: word_less_nat_alt)
  then have ne: "blocks \<noteq> 0" by auto
  have fits: "unat r + unat blocks \<le> nblocks b"
    using found(3) by (simp add: first_fit_def free_run_def)
  have wf1: "bitmap_wf ?b1" and n1: "nblocks ?b1 = nblocks b"
    using inv same_region_wf [OF found_hint_region] same_region_nblocks [OF found_hint_region]
    by (simp_all add: bitmap_inv_def)
  obtain b' where b': "MarkBlocks ?b1 r blocks True = Ok b'" "same_region ?b1 b'"
    "\<And>j. j < nblocks ?b1 \<Longrightarrow> blk_used b' j =
        (if unat r \<le> j \<and> j < unat r + unat blocks then True else blk_used ?b1 j)"
    "lastDeepFragmented b' = lastDeepFragmented ?b1"
    "allocatedSizeInBlocks b' = allocatedSizeInBlocks ?b1 + blocks"
    using MarkBlocks_spec [OF wf1, of r blocks True] fits n1 by auto
  have used1: "blk_used ?b1 j = blk_used b j" for j by (simp add: found_hint_def)
  have reg: "same_region b b'" using found_hint_region b'(2) by (rule same_region_trans)
  have upd: "blk_used b' j = (if unat r \<le> j \<and> j < unat r + unat blocks then True else blk_used b j)"
    if "j < nblocks b" for j
    using b'(3) [of j] that n1 used1 by simp
  have 1: "BitmapAllocate b blocks = Ok (ToPtr b r, b')"
    using ne found(1,2) b'(1) reg by (simp add: BitmapAllocate_def ToPtr_def same_region_def)
  have "hint_ok b'"
    using _ found(3) m reg upd b'(4)
    by (rule hint_after_alloc) (use inv in \<open>simp add: bitmap_inv_def\<close>)
  then have 2: "bitmap_inv b'" using inv same_region_wf [OF reg] by (simp add: bitmap_inv_def)
  have "{j. j < nblocks b \<and> unat r \<le> j \<and> j < unat r + unat blocks} = {unat r..<unat r + unat blocks}"
    using fits by auto
  then have 3: "used_blocks b' = used_blocks b \<union> {unat r..<unat r + unat blocks}"
    using used_blocks_same [OF reg, of "\<lambda>j. unat r \<le> j \<and> j < unat r + unat blocks" True] upd
    by simp
  have 4: "allocatedSizeInBlocks b' = allocatedSizeInBlocks b + blocks"
    using b'(5) by (simp add: found_hint_def)
  show thesis by (rule taken [OF 1 found(3) 2 reg 3 4])
next
  case none
  then have "BitmapAllocate b blocks = Ok (0, b)"
    using pos by (simp add: BitmapAllocate_def)
  with none(2) show thesis by (intro exhausted)
qed

lemma unat_block_bytes:
  assumes "k < 2 ^ 52" shows "unat (of_nat k * BLOCK_SIZE) = k * 4096"
proof -
  have "k * 4096 < 2 ^ 64" using assms by simp
  moreover have "of_nat k * BLOCK_SIZE = of_nat (k * 4096)" by (simp add: BLOCK_SIZE_def)
  ultimately show ?thesis by (simp only: unat_of_nat) simp
qed

lemma ToBlockRoundUp_addr:
  assumes "k < 2 ^ 52" shows "ToBlockRoundUp b (block_addr b k) = of_nat k"
proof -
  have k: "unat (of_nat k * BLOCK_SIZE) = k * 4096" using assms by (rule unat_block_bytes)
  have bs: "unat BLOCK_SIZE = 4096" "0 < BLOCK_SIZE" by (simp_all add: BLOCK_SIZE_def)
  have "unat (DivRoundUp (of_nat k * BLOCK_SIZE) BLOCK_SIZE) = (k * 4096 + 4096 - 1) div 4096"
    using assms by (subst unat_DivRoundUp) (simp_all add: k bs)
  also have "\<dots> = k" by simp
  also have "\<dots> = unat (of_nat k :: size_t)" using assms by (simp add: unat_of_nat)
  finally have "DivRoundUp (of_nat k * BLOCK_SIZE) BLOCK_SIZE = of_nat k"
    by (simp only: word_unat_eq_iff)
  then show ?thesis by (simp add: ToBlockRoundUp_def block_addr_def ToPtr_def)
qed

lemma block_count_bytes:
  assumes "unat n < 2 ^ 52" shows "(BLOCK_SIZE * n) div BLOCK_SIZE = n"
proof -
  have "unat (BLOCK_SIZE * n) = unat n * 4096"
    using unat_block_bytes [OF assms] by (simp add: mult.commute)
  then have "unat ((BLOCK_SIZE * n) div BLOCK_SIZE) = unat n"
    by (simp add: unat_div BLOCK_SIZE_def)
  then show ?thesis by (simp only: word_unat_eq_iff)
qed

lemma BitmapFree_spec:
  assumes inv: "bitmap_inv b" and fits: "k + unat n \<le> nblocks b"
  obtains b' where "BitmapFree b (block_addr b k) n = Ok b'" and "bitmap_inv b'"
    and "same_region b b'" and "used_blocks b' = used_blocks b - {k..<k + unat n}"
    and "allocatedSizeInBlocks b' = allocatedSizeInBlocks b - n"
proof -
  from inv fits have lim: "k < 2 ^ 52" "unat n < 2 ^ 52"
    by (simp_all add: bitmap_inv_def bitmap_wf_def)
  then have uk: "unat (of_nat k :: size_t) = k" by (simp add: unat_of_nat)
  have free: "BitmapFree b (block_addr b k) n = MarkBlocks b (of_nat k) n False"
    using lim by (simp add: BitmapFree_def MarkRegion_def ToBlockRoundUp_addr block_count_bytes)
  obtain b' where b': "MarkBlocks b (of_nat k) n False = Ok b'" "same_region b b'"
    "\<And>j. j < nblocks b \<Longrightarrow> blk_used b' j = (if k \<le> j \<and> j < k + unat n then False else blk_used b j)"
    "lastDeepFragmented b' =
       (if of_nat k < lastDeepFragmented b then of_nat k else lastDeepFragmented b)"
    "allocatedSizeInBlocks b' = allocatedSizeInBlocks b - n"
    using MarkBlocks_spec [of b "of_nat k" n False] inv fits uk by (auto simp: bitmap_inv_def)
  have "used_blocks b' = used_blocks b - {k..<k + unat n}"
    using used_blocks_same [OF b'(2), of "\<lambda>j. k \<le> j \<and> j < k + unat n" False] b'(3)
    by (simp add: atLeastLessThan_def lessThan_def atLeast_def Int_def)
  moreover have "hint_ok b'"
    using inv b'(2,3,4) uk
    by (auto simp: bitmap_inv_def hint_ok_def same_region_def nblocks_def
        word_less_nat_alt word_le_nat_alt split: if_splits)
  then have "bitmap_inv b'" using inv same_region_wf [OF b'(2)] by (simp add: bitmap_inv_def)
  ultimately show thesis using free b' that by auto
qed

interpretation bm: region_allocator bitmap_inv used_blocks nblocks block_addr BitmapAllocate BitmapFree
proof (unfold_locales, goal_cases)
  case (1 s n)
  then show ?case
  proof (cases rule: BitmapAllocate_cases)
    case (taken r b')
    have "ToPtr s r = block_addr s (unat r)" by (simp add: block_addr_def)
    with taken show ?thesis
      by (intro disjI1 exI [of _ "unat r"] exI [of _ b'])
         (auto simp: first_fit_def free_run_iff same_region_nblocks block_addr_same)
  next
    case exhausted
    then show ?thesis by (auto simp: free_run_iff)
  qed
next
  case (2 s k n)
  then show ?case
    using BitmapFree_spec [of s k n] by (metis block_addr_same same_region_nblocks)
qed

section \<open>Properties\<close>

text \<open>C1: the search of \<^verbatim>\<open>FindFreeRegion\<close> is an exact first fit. On a consistent bitmap it stays
  inside the array and returns the lowest-numbered run of the requested number of free blocks,
  and it answers \<^verbatim>\<open>INVALID_BLOCK\<close> only when the bitmap has no such run, although it starts at
  the hint \<^verbatim>\<open>lastDeepFragmented\<close> and not at block 0.\<close>

theorem FindFreeRegion_first_fit:
  assumes "bitmap_inv b" and "0 < blocks"
  shows "\<exists>r b'. FindFreeRegion b blocks = Ok (r, b') \<and>
    (if r = INVALID_BLOCK then (\<forall>k. \<not> free_run b k (unat blocks))
     else first_fit b (unat blocks) (unat r))"
  using assms by (cases rule: FindFreeRegion_cases) auto

definition example_bitmap :: DS_Bitmap where
  "example_bitmap = \<lparr>Bitmap = [0x0B, 0xFF], BitmapSizeInBlocks = 16, BitmapSizeInBytes = 2,
     allocatedSizeInBlocks = 11, lastDeepFragmented = 2, mem_start = 0x100000, ready = True\<rparr>"

lemma example_bitmap_inv: "bitmap_inv example_bitmap"
  by (simp add: bitmap_inv_def bitmap_wf_def hint_ok_def nblocks_def example_bitmap_def
      blk_used_def less_2_cases_iff all_conj_distrib imp_conjL)

theorem FindFreeRegion_first_fit_witness:
  "\<exists>r b'. FindFreeRegion example_bitmap 3 = Ok (r, b') \<and>
    (if r = INVALID_BLOCK then (\<forall>k. \<not> free_run example_bitmap k (unat (3 :: size_t)))
     else first_fit example_bitmap (unat (3 :: size_t)) (unat r))"
  using FindFreeRegion_first_fit [OF example_bitmap_inv, of 3] by simp

text \<open>C2: \<^verbatim>\<open>BitmapAllocate\<close> on a consistent bitmap never leaves the array, keeps the bitmap
  consistent, and either takes exactly the first free run of the requested length, raising
  \<^verbatim>\<open>allocatedSizeInBlocks\<close> by its length, or returns the null pointer and leaves the bitmap as
  it was when there is no such run.\<close>

theorem BitmapAllocate_correct:
  assumes "bitmap_inv b" and "0 < blocks"
  shows "\<exists>p b'. BitmapAllocate b blocks = Ok (p, b') \<and> bitmap_inv b' \<and>
    ((\<exists>k. p = block_addr b k \<and> first_fit b (unat blocks) k \<and>
        used_blocks b' = used_blocks b \<union> {k..<k + unat blocks} \<and>
        card (used_blocks b') = card (used_blocks b) + unat blocks \<and>
        allocatedSizeInBlocks b' = allocatedSizeInBlocks b + blocks)
     \<or> (p = 0 \<and> b' = b \<and> (\<forall>k. \<not> free_run b k (unat blocks))))"
  using assms
proof (cases rule: BitmapAllocate_cases)
  case (taken r b')
  have "card (used_blocks b') = card (used_blocks b) + unat blocks"
    using taken(2,5) by (simp add: first_fit_def free_run_iff card_Un_disjoint inf_commute)
  moreover have "ToPtr b r = block_addr b (unat r)" by (simp add: block_addr_def)
  ultimately show ?thesis using taken by blast
qed (use assms in auto)

theorem BitmapAllocate_correct_witness:
  "\<exists>p b'. BitmapAllocate example_bitmap 4 = Ok (p, b') \<and> bitmap_inv b' \<and>
    ((\<exists>k. p = block_addr example_bitmap k \<and> first_fit example_bitmap (unat (4 :: size_t)) k \<and>
        used_blocks b' = used_blocks example_bitmap \<union> {k..<k + unat (4 :: size_t)} \<and>
        card (used_blocks b') = card (used_blocks example_bitmap) + unat (4 :: size_t) \<and>
        allocatedSizeInBlocks b' = allocatedSizeInBlocks example_bitmap + 4)
     \<or> (p = 0 \<and> b' = example_bitmap \<and> (\<forall>k. \<not> free_run example_bitmap k (unat (4 :: size_t)))))"
  using BitmapAllocate_correct [OF example_bitmap_inv, of 4] by simp

text \<open>C3: releasing a region right after it was allocated restores the set of used blocks:
  \<^verbatim>\<open>BitmapFree\<close> is the inverse of a successful \<^verbatim>\<open>BitmapAllocate\<close>, pointer arithmetic
  included.\<close>

theorem Bitmap_allocate_free:
  assumes "bitmap_inv b" "0 < n" "BitmapAllocate b n = Ok (p, b1)" "p \<noteq> 0"
  shows "\<exists>b2. BitmapFree b1 p n = Ok b2 \<and> used_blocks b2 = used_blocks b \<and>
    bitmap_inv b2 \<and> nblocks b2 = nblocks b"
  using assms by (rule bm.alloc_release)

lemma example_allocate:
  "BitmapAllocate example_bitmap 2 =
     Ok (0x104000, example_bitmap\<lparr>Bitmap := [0x3B, 0xFF], allocatedSizeInBlocks := 13\<rparr>)"
  by code_simp

theorem Bitmap_allocate_free_witness:
  "\<exists>b2. BitmapFree (example_bitmap\<lparr>Bitmap := [0x3B, 0xFF], allocatedSizeInBlocks := 13\<rparr>)
      0x104000 2 = Ok b2 \<and> used_blocks b2 = used_blocks example_bitmap \<and>
    bitmap_inv b2 \<and> nblocks b2 = nblocks example_bitmap"
  by (rule Bitmap_allocate_free [OF example_bitmap_inv _ example_allocate]) simp_all

text \<open>C11: on an exhausted bitmap \<^verbatim>\<open>BitmapAllocatePageframe\<close>, which does not test for
  \<^verbatim>\<open>INVALID_BLOCK\<close>, still returns an address: the block below the start of the region, marked
  nowhere, while \<^verbatim>\<open>allocatedSizeInBlocks\<close> grows.\<close>

theorem BitmapAllocatePageframe_exhausted:
  assumes "bitmap_inv b" and "\<And>k. \<not> free_run b k 1"
  shows "BitmapAllocatePageframe b = Ok (mem_start b - 4096,
    b\<lparr>allocatedSizeInBlocks := allocatedSizeInBlocks b + 1\<rparr>)"
proof -
  have "FindFreeRegion b 1 = Ok (INVALID_BLOCK, b)"
    using assms(1) by (cases rule: FindFreeRegion_cases [of b 1])
      (use assms(2) in \<open>auto simp: first_fit_def\<close>)
  then show ?thesis
    by (simp add: BitmapAllocatePageframe_def MarkBlocks_def mark_loop.simps INVALID_BLOCK_def
        BLOCK_SIZE_def Let_def)
qed

definition full_bitmap :: DS_Bitmap where
  "full_bitmap = example_bitmap\<lparr>Bitmap := [0xFF, 0xFF]\<rparr>"

lemma full_bitmap_used: "k < 16 \<Longrightarrow> blk_used full_bitmap k"
proof -
  have "list_all (blk_used full_bitmap) [0..<16]" by code_simp
  then show "k < 16 \<Longrightarrow> ?thesis" by (simp add: list_all_iff)
qed

theorem BitmapAllocatePageframe_exhausted_witness:
  "BitmapAllocatePageframe full_bitmap = Ok (mem_start full_bitmap - 4096,
    full_bitmap\<lparr>allocatedSizeInBlocks := allocatedSizeInBlocks full_bitmap + 1\<rparr>)"
proof (rule BitmapAllocatePageframe_exhausted)
  show "bitmap_inv full_bitmap"
    using full_bitmap_used
    by (simp add: bitmap_inv_def bitmap_wf_def hint_ok_def nblocks_def)
       (simp add: full_bitmap_def example_bitmap_def)
  show "\<not> free_run full_bitmap k 1" for k
    using full_bitmap_used [of k] by (auto simp: free_run_def nblocks_def full_bitmap_def
        example_bitmap_def)
qed

end
