(* ===== verification/Spinlock.thy ===== *)
theory Spinlock
  imports Prelude
begin

text \<open>
  The locks of \<^verbatim>\<open>utilities/spinlock.c\<close>: the test-and-set \<^verbatim>\<open>Spinlock\<close>, the counting
  readers-writer lock \<^verbatim>\<open>SpinlockCnt\<close> and the \<^verbatim>\<open>Semaphore\<close>.

  The functions are one uninterrupted call, where a call that would have to wait for another
  task is \<open>Spin\<close>; the other theories use them in this form. The step relation
  \<open>rw_step\<close> splits the readers-writer lock into its atomic actions, for any number of tasks
  that interleave freely, and the last section proves mutual exclusion for it.
\<close>

section \<open>Test-and-set lock\<close>

type_synonym Spinlock = bool

definition spinlockAcquire :: "Spinlock \<Rightarrow> Spinlock outcome" where
  "spinlockAcquire lock = (if lock then Spin else Ok True)"

definition spinlockRelease :: "Spinlock \<Rightarrow> Spinlock" where
  "spinlockRelease lock = False"

lemma spinlockAcquire_eq_Ok [outcome_simps]: "spinlockAcquire l = Ok l' \<longleftrightarrow> \<not> l \<and> l'"
  by (auto simp: spinlockAcquire_def)

lemma spinlock_simps [simp]:
  "spinlockAcquire False = Ok True" "spinlockAcquire True = Spin" "\<not> spinlockRelease l"
  by (simp_all add: spinlockAcquire_def spinlockRelease_def)

section \<open>Readers-writer lock\<close>

record SpinlockCnt =
  LOCK :: Spinlock
  cnt :: int

definition spinlockCntReadAcquire :: "SpinlockCnt \<Rightarrow> SpinlockCnt outcome" where
  "spinlockCntReadAcquire lock =
     obind (spinlockAcquire (LOCK lock)) (\<lambda>l.
       if cnt lock > -1
       then Ok (lock\<lparr>cnt := cnt lock + 1, LOCK := spinlockRelease l\<rparr>)
       else Spin)"

definition spinlockCntReadRelease :: "SpinlockCnt \<Rightarrow> SpinlockCnt outcome" where
  "spinlockCntReadRelease lock =
     obind (spinlockAcquire (LOCK lock)) (\<lambda>l.
       if cnt lock < 0 then Panic
       else Ok (lock\<lparr>cnt := cnt lock - 1, LOCK := spinlockRelease l\<rparr>))"

definition spinlockCntWriteAcquire :: "SpinlockCnt \<Rightarrow> SpinlockCnt outcome" where
  "spinlockCntWriteAcquire lock =
     obind (spinlockAcquire (LOCK lock)) (\<lambda>l.
       if cnt lock = 0
       then Ok (lock\<lparr>cnt := -1, LOCK := spinlockRelease l\<rparr>)
       else Spin)"

definition spinlockCntWriteRelease :: "SpinlockCnt \<Rightarrow> SpinlockCnt outcome" where
  "spinlockCntWriteRelease lock =
     obind (spinlockAcquire (LOCK lock)) (\<lambda>l.
       if cnt lock \<noteq> -1 then Panic
       else Ok (lock\<lparr>cnt := 0, LOCK := spinlockRelease l\<rparr>))"

abbreviation rw_free :: "SpinlockCnt \<Rightarrow> bool" where
  "rw_free l \<equiv> \<not> LOCK l \<and> cnt l = 0"

section \<open>Semaphore\<close>

record Semaphore =
  SLOCK :: Spinlock
  scnt :: u32
  invalid :: u8

text \<open>
  One pass of the waiting loop of \<^verbatim>\<open>semaphoreWait\<close>: \<open>start\<close> is the tick the call began at,
  \<open>now\<close> the tick of this pass. A pass that neither times out nor decrements is repeated.
\<close>

definition semaphoreWait :: "Semaphore \<Rightarrow> u32 \<Rightarrow> u64 \<Rightarrow> u64 \<Rightarrow> (bool \<times> Semaphore) outcome" where
  "semaphoreWait sem timeout start now =
     (if timeout > 0 \<and> now > start + ucast timeout then Ok (False, sem)
      else obind (spinlockAcquire (SLOCK sem)) (\<lambda>l.
        if scnt sem > 0
        then Ok (True, sem\<lparr>scnt := scnt sem - 1, SLOCK := spinlockRelease l\<rparr>)
        else Spin))"

definition semaphorePost :: "Semaphore \<Rightarrow> Semaphore outcome" where
  "semaphorePost sem =
     obind (spinlockAcquire (SLOCK sem)) (\<lambda>l.
       Ok (sem\<lparr>scnt := scnt sem + 1, SLOCK := spinlockRelease l\<rparr>))"

section \<open>Interleaved readers and writers\<close>

text \<open>
  Where a task stands in a call of the four operations: before the test-and-set (\<open>RAcq\<close>,
  \<open>RRel\<close>, \<open>WAcq\<close>, \<open>WRel\<close>), between it and the guarded update (\<open>In\<close>), between the
  update and the release of the inner lock (\<open>Ok\<close>, \<open>Fail\<close>, \<open>Out\<close>), and outside the calls
  (\<open>Idle\<close>, \<open>Reading\<close>, \<open>Writing\<close>). \<open>Panicked\<close> is the call of \<^verbatim>\<open>panic()\<close>.
\<close>

datatype rw_pc = Idle | RAcq | RAcqIn | RAcqOk | RAcqFail | Reading | RRel | RRelIn | RRelOut
  | WAcq | WAcqIn | WAcqOk | WAcqFail | Writing | WRel | WRelIn | WRelOut | Panicked

record rw_state =
  rwl :: SpinlockCnt
  pc :: "nat \<Rightarrow> rw_pc"

definition rw_init :: rw_state where
  "rw_init = \<lparr>rwl = \<lparr>LOCK = False, cnt = 0\<rparr>, pc = (\<lambda>_. Idle)\<rparr>"

abbreviation goto :: "rw_state \<Rightarrow> nat \<Rightarrow> rw_pc \<Rightarrow> SpinlockCnt \<Rightarrow> rw_state" where
  "goto s t p l \<equiv> s\<lparr>rwl := l, pc := (pc s)(t := p)\<rparr>"

text \<open>Which position follows the test-and-set, and which the release of the inner lock.\<close>

fun after_tas :: "rw_pc \<Rightarrow> rw_pc option" where
  "after_tas RAcq = Some RAcqIn"
| "after_tas RRel = Some RRelIn"
| "after_tas WAcq = Some WAcqIn"
| "after_tas WRel = Some WRelIn"
| "after_tas _ = None"

fun after_release :: "rw_pc \<Rightarrow> rw_pc option" where
  "after_release RAcqOk = Some Reading"
| "after_release RAcqFail = Some RAcq"
| "after_release RRelOut = Some Idle"
| "after_release WAcqOk = Some Writing"
| "after_release WAcqFail = Some WAcq"
| "after_release WRelOut = Some Idle"
| "after_release _ = None"

text \<open>The update each operation makes while it holds the inner lock.\<close>

fun guarded :: "rw_pc \<Rightarrow> int \<Rightarrow> (rw_pc \<times> int) option" where
  "guarded RAcqIn c = Some (if c > -1 then (RAcqOk, c + 1) else (RAcqFail, c))"
| "guarded RRelIn c = Some (if c < 0 then (Panicked, c) else (RRelOut, c - 1))"
| "guarded WAcqIn c = Some (if c = 0 then (WAcqOk, -1) else (WAcqFail, c))"
| "guarded WRelIn c = Some (if c \<noteq> -1 then (Panicked, c) else (WRelOut, 0))"
| "guarded _ c = None"

inductive rw_step :: "rw_state \<Rightarrow> rw_state \<Rightarrow> bool" where
  call_read: "pc s t = Idle \<Longrightarrow> rw_step s (goto s t RAcq (rwl s))"
| call_write: "pc s t = Idle \<Longrightarrow> rw_step s (goto s t WAcq (rwl s))"
| end_read: "pc s t = Reading \<Longrightarrow> rw_step s (goto s t RRel (rwl s))"
| end_write: "pc s t = Writing \<Longrightarrow> rw_step s (goto s t WRel (rwl s))"
| tas: "after_tas (pc s t) = Some p \<Longrightarrow> \<not> LOCK (rwl s) \<Longrightarrow>
     rw_step s (goto s t p ((rwl s)\<lparr>LOCK := True\<rparr>))"
| update: "guarded (pc s t) (cnt (rwl s)) = Some (p, c) \<Longrightarrow>
     rw_step s (goto s t p ((rwl s)\<lparr>cnt := c\<rparr>))"
| unlock: "after_release (pc s t) = Some p \<Longrightarrow>
     rw_step s (goto s t p ((rwl s)\<lparr>LOCK := False\<rparr>))"

inductive rw_reachable :: "rw_state \<Rightarrow> bool" where
  rw_start: "rw_reachable rw_init"
| rw_next: "rw_reachable s \<Longrightarrow> rw_step s s' \<Longrightarrow> rw_reachable s'"

fun_cases after_tasE: "after_tas p = Some q"
fun_cases after_releaseE: "after_release p = Some q"
fun_cases guardedE: "guarded p c = Some q"

section \<open>Mutual exclusion\<close>

definition holds_lock :: "rw_pc \<Rightarrow> bool" where
  "holds_lock p \<longleftrightarrow> p \<in> {RAcqIn, RAcqOk, RAcqFail, RRelIn, RRelOut,
     WAcqIn, WAcqOk, WAcqFail, WRelIn, WRelOut}"

definition holds_read :: "rw_pc \<Rightarrow> bool" where
  "holds_read p \<longleftrightarrow> p \<in> {RAcqOk, Reading, RRel, RRelIn}"

definition holds_write :: "rw_pc \<Rightarrow> bool" where
  "holds_write p \<longleftrightarrow> p \<in> {WAcqOk, Writing, WRel, WRelIn}"

definition readers :: "rw_state \<Rightarrow> nat set" where
  "readers s = {t. holds_read (pc s t)}"

definition writers :: "rw_state \<Rightarrow> nat set" where
  "writers s = {t. holds_write (pc s t)}"

definition lockers :: "rw_state \<Rightarrow> nat set" where
  "lockers s = {t. holds_lock (pc s t)}"

text \<open>
  The inner lock is set exactly while one task is between its test-and-set and its release; the
  counter is the number of readers, or \<open>-1\<close> while there is a writer and nobody else.
\<close>

definition rw_inv :: "rw_state \<Rightarrow> bool" where
  "rw_inv s \<longleftrightarrow>
     (if LOCK (rwl s) then \<exists>t. lockers s = {t} else lockers s = {}) \<and>
     finite (readers s) \<and>
     (if writers s = {} then cnt (rwl s) = int (card (readers s))
      else (\<exists>w. writers s = {w}) \<and> readers s = {} \<and> cnt (rwl s) = -1) \<and>
     (\<forall>t. pc s t \<noteq> Panicked)"

lemma goto_sets:
  "readers (goto s t p l) = (if holds_read p then insert t (readers s) else readers s - {t})"
  "writers (goto s t p l) = (if holds_write p then insert t (writers s) else writers s - {t})"
  "lockers (goto s t p l) = (if holds_lock p then insert t (lockers s) else lockers s - {t})"
  by (auto simp: readers_def writers_def lockers_def)

lemma mem_sets:
  "t \<in> readers s \<longleftrightarrow> holds_read (pc s t)"
  "t \<in> writers s \<longleftrightarrow> holds_write (pc s t)"
  "t \<in> lockers s \<longleftrightarrow> holds_lock (pc s t)"
  by (auto simp: readers_def writers_def lockers_def)

lemmas holds_defs = holds_lock_def holds_read_def holds_write_def

lemma goto_same:
  "holds_read p = holds_read (pc s t) \<Longrightarrow> readers (goto s t p l) = readers s"
  "holds_write p = holds_write (pc s t) \<Longrightarrow> writers (goto s t p l) = writers s"
  "holds_lock p = holds_lock (pc s t) \<Longrightarrow> lockers (goto s t p l) = lockers s"
  using mem_sets [of t s] by (auto simp: goto_sets)

lemma goto_enter: "holds_lock p \<Longrightarrow> lockers s = {} \<Longrightarrow> lockers (goto s t p l) = {t}"
  by (simp add: goto_sets)

lemma goto_leave: "\<not> holds_lock p \<Longrightarrow> lockers s = {t} \<Longrightarrow> lockers (goto s t p l) = {}"
  by (simp add: goto_sets)

lemma rw_inv_move:
  assumes "rw_inv s" "p \<noteq> Panicked" "holds_lock p = holds_lock (pc s t)"
    "holds_read p = holds_read (pc s t)" "holds_write p = holds_write (pc s t)"
  shows "rw_inv (goto s t p (rwl s))"
  using assms unfolding rw_inv_def goto_same(1) [OF assms(4)]
    goto_same(2) [OF assms(5)] goto_same(3) [OF assms(3)]
  by simp

lemma rw_inv_tas:
  assumes "rw_inv s" "after_tas (pc s t) = Some p" "\<not> LOCK (rwl s)"
  shows "rw_inv (goto s t p ((rwl s)\<lparr>LOCK := True\<rparr>))"
proof -
  have p: "p \<noteq> Panicked" "holds_lock p" "holds_read p = holds_read (pc s t)"
    "holds_write p = holds_write (pc s t)"
    using assms(2) by (auto elim!: after_tasE simp: holds_defs)
  have "lockers s = {}" using assms(1,3) by (simp add: rw_inv_def)
  then show ?thesis using assms(1) p(1)
    unfolding rw_inv_def goto_same(1) [OF p(3)] goto_same(2) [OF p(4)] by (simp add: goto_enter p(2))
qed

lemma rw_inv_unlock:
  assumes "rw_inv s" "after_release (pc s t) = Some p"
  shows "rw_inv (goto s t p ((rwl s)\<lparr>LOCK := False\<rparr>))"
proof -
  have p: "p \<noteq> Panicked" "\<not> holds_lock p" "holds_lock (pc s t)"
    "holds_read p = holds_read (pc s t)" "holds_write p = holds_write (pc s t)"
    using assms(2) by (auto elim!: after_releaseE simp: holds_defs)
  then have "lockers s = {t}"
    using assms(1) mem_sets(3) [of t s] by (auto simp: rw_inv_def split: if_splits)
  then show ?thesis using assms(1) p(1)
    unfolding rw_inv_def goto_same(1) [OF p(4)] goto_same(2) [OF p(5)] by (simp add: goto_leave p(2))
qed

lemma rw_inv_update:
  assumes inv: "rw_inv s" and g: "guarded (pc s t) (cnt (rwl s)) = Some (p, c)"
  shows "rw_inv (goto s t p ((rwl s)\<lparr>cnt := c\<rparr>))"
proof -
  note mem = mem_sets [of t s]
  have "holds_lock (pc s t)" using g by (auto elim!: guardedE simp: holds_defs)
  then have lk: "lockers s = {t}" "LOCK (rwl s)"
    using inv mem by (auto simp: rw_inv_def split: if_splits)
  have fin: "finite (readers s)" using inv by (simp add: rw_inv_def)
  show ?thesis using g
  proof (cases "pc s t")
    case RAcqIn
    then show ?thesis using g inv lk mem
      by (auto simp: rw_inv_def goto_sets holds_defs card_insert_if fin split: if_splits)
  next
    case RRelIn
    then have "t \<in> readers s" "card (readers s) > 0"
      using mem fin by (auto simp: holds_defs card_gt_0_iff)
    then show ?thesis using RRelIn g inv lk mem
      by (auto simp: rw_inv_def goto_sets holds_defs fin of_nat_diff split: if_splits)
  next
    case WAcqIn
    then show ?thesis using g inv lk mem fin
      by (auto simp: rw_inv_def goto_sets holds_defs split: if_splits)
  next
    case WRelIn
    then have "t \<in> writers s" using mem by (auto simp: holds_defs)
    then have "writers s = {t}" "readers s = {}" "cnt (rwl s) = -1"
      using inv by (auto simp: rw_inv_def split: if_splits)
    then show ?thesis using WRelIn g inv lk
      by (auto simp: rw_inv_def goto_sets holds_defs split: if_splits)
  qed (use g in auto)
qed

lemma rw_step_inv: "rw_step s s' \<Longrightarrow> rw_inv s \<Longrightarrow> rw_inv s'"
  by (induction rule: rw_step.induct)
     (rule rw_inv_tas rw_inv_update rw_inv_unlock rw_inv_move; simp add: holds_defs)+

lemma rw_init_inv: "rw_inv rw_init"
  by (simp add: rw_inv_def rw_init_def readers_def writers_def lockers_def holds_defs)

lemma rw_reachable_inv: "rw_reachable s \<Longrightarrow> rw_inv s"
  by (induction rule: rw_reachable.induct) (auto intro: rw_init_inv rw_step_inv)


definition one_writer :: rw_state where
  "one_writer = \<lparr>rwl = \<lparr>LOCK = False, cnt = -1\<rparr>, pc = (\<lambda>_. Idle)(0 := Writing)\<rparr>"

lemma one_writer_reachable: "rw_reachable one_writer"
proof -
  note step = rw_reachable.rw_next
  let ?l = "\<lparr>LOCK = False, cnt = 0\<rparr>" and ?m = "\<lparr>LOCK = True, cnt = 0\<rparr>"
  let ?s1 = "goto rw_init 0 WAcq ?l"
  let ?s2 = "goto ?s1 0 WAcqIn ?m"
  let ?s3 = "goto ?s2 0 WAcqOk \<lparr>LOCK = True, cnt = -1\<rparr>"
  let ?s4 = "goto ?s3 0 Writing \<lparr>LOCK = False, cnt = -1\<rparr>"
  have 1: "rw_reachable ?s1"
    using step [OF rw_start call_write [of rw_init 0]] by (simp add: rw_init_def)
  have 2: "rw_reachable ?s2" using step [OF 1 tas [of ?s1 0 WAcqIn]] by simp
  have 3: "rw_reachable ?s3" using step [OF 2 update [of ?s2 0 WAcqOk "-1"]] by simp
  have 4: "rw_reachable ?s4" using step [OF 3 unlock [of ?s3 0 Writing]] by simp
  have "?s4 = one_writer" by (simp add: one_writer_def rw_init_def)
  with 4 show ?thesis by simp
qed


end
