(* ===== verification/Pmm.thy ===== *)
theory Pmm
  imports Bitmap Spinlock
begin

text \<open>
  The physical memory manager of \<^verbatim>\<open>memory/pmm.c\<close>, with the total it takes from
  \<^verbatim>\<open>entry/bootloader.c\<close>, and the allocation half of \<^verbatim>\<open>memory/vmm.c\<close>. The memory map is the
  list of entries the boot loader hands over; the lock \<^verbatim>\<open>LOCK_PMM\<close> and the bitmap
  \<^verbatim>\<open>physical\<close> are the state.

  The lemmas show which frames are free after start-up, that the allocator hands out only such
  frames and none twice, and that start-up writes outside its bitmap on a memory map with a hole.
\<close>

section \<open>Boot information\<close>

record limine_memmap_entry =
  mm_base :: u64
  mm_length :: u64
  mm_type :: u64

definition LIMINE_MEMMAP_USABLE :: u64 where "LIMINE_MEMMAP_USABLE = 0"
definition LIMINE_MEMMAP_RESERVED :: u64 where "LIMINE_MEMMAP_RESERVED = 1"

abbreviation usable :: "limine_memmap_entry \<Rightarrow> bool" where
  "usable e \<equiv> mm_type e = LIMINE_MEMMAP_USABLE"

text \<open>The summation loop for \<^verbatim>\<open>bootloader.mmTotal\<close>.\<close>

fun mm_total :: "limine_memmap_entry list \<Rightarrow> u64 \<Rightarrow> u64" where
  "mm_total [] acc = acc"
| "mm_total (e # es) acc =
     mm_total es (if mm_type e \<noteq> LIMINE_MEMMAP_RESERVED then acc + mm_length e else acc)"

section \<open>Start-up\<close>

text \<open>The entry that will hold the bitmap: the first usable one that is large enough.\<close>

fun pick_entry :: "limine_memmap_entry list \<Rightarrow> size_t \<Rightarrow> limine_memmap_entry option" where
  "pick_entry [] need = None"
| "pick_entry (e # es) need =
     (if \<not> usable e \<or> mm_length e < need then pick_entry es need else Some e)"

fun mark_entries :: "(limine_memmap_entry \<Rightarrow> bool) \<Rightarrow> bool \<Rightarrow> limine_memmap_entry list
    \<Rightarrow> DS_Bitmap \<Rightarrow> DS_Bitmap outcome" where
  "mark_entries P v [] b = Ok b"
| "mark_entries P v (e # es) b =
     (if P e then obind (MarkRegion b (mm_base e) (mm_length e) v) (mark_entries P v es)
      else mark_entries P v es b)"

definition initiatePMM :: "limine_memmap_entry list \<Rightarrow> size_t \<Rightarrow> DS_Bitmap outcome" where
  "initiatePMM mmEntries mmTotal =
     (let blocks = DivRoundUp mmTotal BLOCK_SIZE; bytes = DivRoundUp blocks 8
      in case pick_entry mmEntries bytes of
        None \<Rightarrow> Panic
      | Some mm \<Rightarrow>
          let bitmapStartPhys = mm_base mm;
              b0 = \<lparr>Bitmap = replicate (unat bytes) 0xFF, BitmapSizeInBlocks = blocks,
                    BitmapSizeInBytes = bytes, allocatedSizeInBlocks = 0,
                    lastDeepFragmented = 0, mem_start = 0, ready = False\<rparr>
          in obind (mark_entries usable False mmEntries b0) (\<lambda>b1.
             obind (mark_entries (\<lambda>e. \<not> usable e) True mmEntries b1) (\<lambda>b2.
             obind (MarkRegion b2 bitmapStartPhys bytes True) (\<lambda>b3.
             Ok (b3\<lparr>allocatedSizeInBlocks := 0, ready := True\<rparr>)))))"

section \<open>Frames\<close>

record pmm_state =
  physical :: DS_Bitmap
  LOCK_PMM :: Spinlock

definition PhysicalAllocate :: "pmm_state \<Rightarrow> 32 word \<Rightarrow> (size_t \<times> pmm_state) outcome" where
  "PhysicalAllocate s pages =
     obind (spinlockAcquire (LOCK_PMM s)) (\<lambda>l.
     obind (BitmapAllocate (physical s) (scast pages)) (\<lambda>(phys, b).
     let s' = s\<lparr>physical := b, LOCK_PMM := spinlockRelease l\<rparr>
     in if phys = 0 then Panic else Ok (phys, s')))"

text \<open>The byte count \<^verbatim>\<open>pages * BLOCK_SIZE\<close> is an \<^verbatim>\<open>int\<close> product, extended to \<^verbatim>\<open>size_t\<close>.\<close>

definition PhysicalFree :: "pmm_state \<Rightarrow> size_t \<Rightarrow> 32 word \<Rightarrow> pmm_state outcome" where
  "PhysicalFree s ptr pages =
     obind (spinlockAcquire (LOCK_PMM s)) (\<lambda>l.
     obind (MarkRegion (physical s) ptr (scast (pages * 4096)) False) (\<lambda>b.
     Ok (s\<lparr>physical := b, LOCK_PMM := spinlockRelease l\<rparr>)))"

definition VirtualAllocate :: "size_t \<Rightarrow> pmm_state \<Rightarrow> 32 word \<Rightarrow> (size_t \<times> pmm_state) outcome" where
  "VirtualAllocate hhdmOffset s pages =
     obind (PhysicalAllocate s pages) (\<lambda>(phys, s'). Ok (phys + hhdmOffset, s'))"

definition VirtualAllocatePhysicallyContiguous ::
    "size_t \<Rightarrow> pmm_state \<Rightarrow> 32 word \<Rightarrow> (size_t \<times> pmm_state) outcome" where
  "VirtualAllocatePhysicallyContiguous hhdmOffset s pages = VirtualAllocate hhdmOffset s pages"

definition VMM_POS_ENSURE :: size_t where "VMM_POS_ENSURE = 0x40000000"

definition initiateVMM :: "size_t \<Rightarrow> size_t \<Rightarrow> pmm_state \<Rightarrow> (DS_Bitmap \<times> pmm_state) outcome" where
  "initiateVMM hhdmOffset mmTotal s =
     (let targetPosition = DivRoundUp (hhdmOffset - mmTotal - VMM_POS_ENSURE) 4096 * 4096;
          blocks = DivRoundUp mmTotal BLOCK_SIZE; bytes = DivRoundUp blocks 8;
          pagesRequired = DivRoundUp bytes BLOCK_SIZE
      in obind (VirtualAllocate hhdmOffset s (ucast pagesRequired)) (\<lambda>(ptr, s').
         Ok (\<lparr>Bitmap = replicate (unat bytes) 0, BitmapSizeInBlocks = blocks,
               BitmapSizeInBytes = bytes, allocatedSizeInBlocks = 0, lastDeepFragmented = 0,
               mem_start = targetPosition, ready = True\<rparr>, s')))"

section \<open>Blocks of a byte range\<close>

definition ceil_block :: "nat \<Rightarrow> nat" where
  "ceil_block n = (n + 4095) div 4096"

text \<open>The blocks \<^verbatim>\<open>MarkRegion\<close> writes for the byte range of length \<open>n\<close> at \<open>p\<close>.\<close>

definition region_span :: "bool \<Rightarrow> nat \<Rightarrow> nat \<Rightarrow> nat set" where
  "region_span v p n =
     (if v then {p div 4096..<p div 4096 + ceil_block n}
      else {ceil_block p..<ceil_block p + n div 4096})"

definition range_ok :: "nat \<Rightarrow> u64 \<Rightarrow> u64 \<Rightarrow> bool" where
  "range_ok N p n \<longleftrightarrow> ceil_block (unat p) + ceil_block (unat n) \<le> N"

abbreviation entry_span :: "bool \<Rightarrow> limine_memmap_entry \<Rightarrow> nat set" where
  "entry_span v e \<equiv> region_span v (unat (mm_base e)) (unat (mm_length e))"

abbreviation entry_ok :: "nat \<Rightarrow> limine_memmap_entry \<Rightarrow> bool" where
  "entry_ok N e \<equiv> range_ok N (mm_base e) (mm_length e)"

lemma div_le_ceil_block: "n div 4096 \<le> ceil_block n"
  unfolding ceil_block_def by (rule div_le_mono) simp

lemma ceil_block_bound: "ceil_block n < 2 ^ 52 \<Longrightarrow> n + 4096 \<le> 2 ^ 64"
  by (simp add: ceil_block_def)

lemma unat_ceil:
  "ceil_block (unat p) < 2 ^ 52 \<Longrightarrow> unat (DivRoundUp p BLOCK_SIZE) = ceil_block (unat p)"
  using ceil_block_bound [of "unat p"]
  by (subst unat_DivRoundUp) (simp_all add: BLOCK_SIZE_def ceil_block_def)

lemma MarkRegion_spec:
  assumes wf: "bitmap_wf b" and m0: "mem_start b = 0" and h0: "lastDeepFragmented b = 0"
    and range: "range_ok (nblocks b) p n"
  obtains b' where "MarkRegion b p n v = Ok b'" and "same_region b b'"
    and "lastDeepFragmented b' = 0"
    and "\<And>j. j < nblocks b \<Longrightarrow> blk_used b' j =
           (if j \<in> region_span v (unat p) (unat n) then v else blk_used b j)"
proof -
  define st where "st = (if v then ToBlock b p else ToBlockRoundUp b p)"
  define z where "z = (if v then DivRoundUp n BLOCK_SIZE else n div BLOCK_SIZE)"
  from wf range have small: "ceil_block (unat p) < 2 ^ 52" "ceil_block (unat n) < 2 ^ 52"
    by (simp_all add: bitmap_wf_def range_ok_def)
  have ust: "unat st = (if v then unat p div 4096 else ceil_block (unat p))"
    using m0 unat_ceil [OF small(1)]
    by (simp add: st_def ToBlock_def ToBlockRoundUp_def unat_div BLOCK_SIZE_def)
  have uz: "unat z = (if v then ceil_block (unat n) else unat n div 4096)"
    using unat_ceil [OF small(2)] by (simp add: z_def unat_div BLOCK_SIZE_def)
  have fits: "unat st + unat z \<le> nblocks b"
    using range div_le_ceil_block [of "unat p"] div_le_ceil_block [of "unat n"]
    unfolding ust uz range_ok_def by (cases v) simp_all
  have eq: "MarkRegion b p n v = MarkBlocks b st z v" by (simp add: MarkRegion_def st_def z_def)
  have sp: "j \<in> region_span v (unat p) (unat n) \<longleftrightarrow> unat st \<le> j \<and> j < unat st + unat z" for j
    unfolding ust uz by (cases v) (auto simp: region_span_def)
  obtain b' where b': "MarkBlocks b st z v = Ok b'" "same_region b b'"
    "\<And>j. j < nblocks b \<Longrightarrow> blk_used b' j =
        (if unat st \<le> j \<and> j < unat st + unat z then v else blk_used b j)"
    "lastDeepFragmented b' =
       (if \<not> v \<and> st < lastDeepFragmented b then st else lastDeepFragmented b)"
    using MarkBlocks_spec [OF wf fits, of v] by blast
  have h: "lastDeepFragmented b' = 0" using b'(4) h0 by simp
  show thesis by (rule that [OF _ b'(2) h]) (use eq b'(1,3) sp in simp_all)
qed

lemma mark_entries_spec:
  assumes "bitmap_wf b" "mem_start b = 0" "lastDeepFragmented b = 0"
    and "\<forall>e \<in> set es. entry_ok (nblocks b) e"
  shows "\<exists>b'. mark_entries P v es b = Ok b' \<and> same_region b b' \<and> lastDeepFragmented b' = 0 \<and>
    (\<forall>j < nblocks b. blk_used b' j =
       (if \<exists>e \<in> set es. P e \<and> j \<in> entry_span v e then v else blk_used b j))"
  using assms
proof (induction es arbitrary: b)
  case (Cons e es)
  show ?case
  proof (cases "P e")
    case True
    obtain c where c: "MarkRegion b (mm_base e) (mm_length e) v = Ok c" "same_region b c"
      "lastDeepFragmented c = 0"
      "\<And>j. j < nblocks b \<Longrightarrow> blk_used c j = (if j \<in> entry_span v e then v else blk_used b j)"
      using MarkRegion_spec [of b "mm_base e" "mm_length e" v] Cons.prems by auto
    have n: "nblocks c = nblocks b" using c(2) by (rule same_region_nblocks)
    have "bitmap_wf c" "mem_start c = 0"
      using Cons.prems c(2) same_region_wf [OF c(2)] by (simp_all add: same_region_def)
    from Cons.IH [OF this c(3)] Cons.prems n obtain b' where b':
      "mark_entries P v es c = Ok b'" "same_region c b'" "lastDeepFragmented b' = 0"
      "\<forall>j < nblocks b. blk_used b' j =
         (if \<exists>e \<in> set es. P e \<and> j \<in> entry_span v e then v else blk_used c j)"
      by auto
    have "same_region b b'" using c(2) b'(2) by (rule same_region_trans)
    with True c b' show ?thesis by (intro exI [of _ b']) auto
  next
    case False
    with Cons.IH [OF Cons.prems(1-3)] Cons.prems(4) show ?thesis by auto
  qed
qed simp

section \<open>Start-up\<close>

lemma pick_entry_Some:
  "pick_entry es need = Some mm \<Longrightarrow> mm \<in> set es \<and> usable mm \<and> need \<le> mm_length mm"
  by (induction es) (auto split: if_splits)

lemma range_ok_mono: "range_ok N p n \<Longrightarrow> m \<le> n \<Longrightarrow> range_ok N p m"
  using div_le_mono [of "unat m + 4095" "unat n + 4095" 4096]
  by (simp add: range_ok_def ceil_block_def word_le_nat_alt)

lemma bit_0xFF: "bit (0xFF :: u8) n \<longleftrightarrow> n < 8"
proof -
  have "(0xFF :: u8) = - 1" by simp
  then show ?thesis by (simp only: bit_minus_1_iff) (simp add: possible_bit_def)
qed

abbreviation pmm_blocks :: "size_t \<Rightarrow> nat" where
  "pmm_blocks mmTotal \<equiv> ceil_block (unat mmTotal)"

definition pmm_blank :: "size_t \<Rightarrow> DS_Bitmap" where
  "pmm_blank mmTotal =
     \<lparr>Bitmap = replicate (unat (BitmapCalculateSize mmTotal)) 0xFF,
      BitmapSizeInBlocks = DivRoundUp mmTotal BLOCK_SIZE,
      BitmapSizeInBytes = BitmapCalculateSize mmTotal, allocatedSizeInBlocks = 0,
      lastDeepFragmented = 0, mem_start = 0, ready = False\<rparr>"

lemma pmm_blank_spec:
  assumes "unat mmTotal + 4096 \<le> 2 ^ 64"
  shows "nblocks (pmm_blank mmTotal) = pmm_blocks mmTotal" and "bitmap_wf (pmm_blank mmTotal)"
    and "j < pmm_blocks mmTotal \<Longrightarrow> blk_used (pmm_blank mmTotal) j"
proof -
  have small: "pmm_blocks mmTotal < 2 ^ 52" using assms by (simp add: ceil_block_def)
  then have n: "unat (DivRoundUp mmTotal BLOCK_SIZE) = pmm_blocks mmTotal" by (rule unat_ceil)
  then show 1: "nblocks (pmm_blank mmTotal) = pmm_blocks mmTotal"
    by (simp add: nblocks_def pmm_blank_def)
  have "unat (BitmapCalculateSize mmTotal) = (pmm_blocks mmTotal + 7) div 8"
    unfolding BitmapCalculateSize_def using n small by (subst unat_DivRoundUp) simp_all
  then have 2: "pmm_blocks mmTotal \<le> 8 * unat (BitmapCalculateSize mmTotal)" by simp
  with 1 small show "bitmap_wf (pmm_blank mmTotal)" by (simp add: bitmap_wf_def) (simp add: pmm_blank_def)
  show "blk_used (pmm_blank mmTotal) j" if "j < pmm_blocks mmTotal"
  proof -
    have "Bitmap (pmm_blank mmTotal) ! (j div 8) = 0xFF"
      using that 2 div8_less [of j "unat (BitmapCalculateSize mmTotal)"] by (simp add: pmm_blank_def)
    moreover have "bit (0xFF :: u8) (j mod 8)" by (rule bit_0xFF [THEN iffD2]) simp
    ultimately show ?thesis by (simp only: blk_used_def)
  qed
qed

lemma initiatePMM_spec:
  assumes tot: "unat mmTotal + 4096 \<le> 2 ^ 64"
    and ok: "\<forall>e \<in> set es. entry_ok (pmm_blocks mmTotal) e"
    and pick: "pick_entry es (BitmapCalculateSize mmTotal) = Some mm"
  obtains b where "initiatePMM es mmTotal = Ok b" and "bitmap_inv b" and "mem_start b = 0"
    and "nblocks b = pmm_blocks mmTotal"
    and "\<And>j. j < nblocks b \<Longrightarrow> blk_used b j \<longleftrightarrow>
      j \<in> region_span True (unat (mm_base mm)) (unat (BitmapCalculateSize mmTotal)) \<or>
      (\<exists>e \<in> set es. \<not> usable e \<and> j \<in> entry_span True e) \<or>
      \<not> (\<exists>e \<in> set es. usable e \<and> j \<in> entry_span False e)"
proof -
  let ?b0 = "pmm_blank mmTotal"
  note blank = pmm_blank_spec [OF tot]
  have "mem_start ?b0 = 0" "lastDeepFragmented ?b0 = 0" by (simp_all add: pmm_blank_def)
  from mark_entries_spec [OF blank(2) this, of es usable False] ok blank(1) obtain b1 where b1:
    "mark_entries usable False es ?b0 = Ok b1" "same_region ?b0 b1" "lastDeepFragmented b1 = 0"
    "\<forall>j < pmm_blocks mmTotal. blk_used b1 j =
       (if \<exists>e \<in> set es. usable e \<and> j \<in> entry_span False e then False else blk_used ?b0 j)"
    by auto
  have 1: "bitmap_wf b1" "mem_start b1 = 0" "nblocks b1 = pmm_blocks mmTotal"
    using blank(1,2) same_region_wf [OF b1(2)] same_region_nblocks [OF b1(2)] b1(2)
    by (simp_all add: same_region_def pmm_blank_def)
  from mark_entries_spec [OF 1(1,2) b1(3), of es "\<lambda>e. \<not> usable e" True] ok 1(3) obtain b2 where b2:
    "mark_entries (\<lambda>e. \<not> usable e) True es b1 = Ok b2" "same_region b1 b2"
    "lastDeepFragmented b2 = 0"
    "\<forall>j < pmm_blocks mmTotal. blk_used b2 j =
       (if \<exists>e \<in> set es. \<not> usable e \<and> j \<in> entry_span True e then True else blk_used b1 j)"
    by auto
  have 2: "bitmap_wf b2" "mem_start b2 = 0" "nblocks b2 = pmm_blocks mmTotal"
    using 1 same_region_wf [OF b2(2)] same_region_nblocks [OF b2(2)] b2(2)
    by (simp_all add: same_region_def)
  have "range_ok (nblocks b2) (mm_base mm) (BitmapCalculateSize mmTotal)"
    using pick_entry_Some [OF pick] ok 2(3) by (auto intro: range_ok_mono)
  from MarkRegion_spec [OF 2(1,2) b2(3) this, of True] obtain b3 where b3:
    "MarkRegion b2 (mm_base mm) (BitmapCalculateSize mmTotal) True = Ok b3" "same_region b2 b3"
    "lastDeepFragmented b3 = 0"
    "\<And>j. j < nblocks b2 \<Longrightarrow> blk_used b3 j =
       (if j \<in> region_span True (unat (mm_base mm)) (unat (BitmapCalculateSize mmTotal)) then True
        else blk_used b2 j)"
    by blast
  let ?b = "b3\<lparr>allocatedSizeInBlocks := 0, ready := True\<rparr>"
  have u: "blk_used ?b j = blk_used b3 j" for j by (simp add: blk_used_def)
  have 3: "nblocks ?b = pmm_blocks mmTotal" "mem_start ?b = 0" "bitmap_inv ?b"
    using 2 b3(2,3) same_region_wf [OF b3(2)]
    by (simp_all add: same_region_def nblocks_def bitmap_inv_def bitmap_wf_def hint_ok_def)
  have "initiatePMM es mmTotal = Ok ?b"
    using pick b1(1) b2(1) b3(1)
    by (simp add: initiatePMM_def Let_def pmm_blank_def flip: BitmapCalculateSize_def)
  then show thesis
    by (rule that) (use 3 u b1(4) b2(4) b3(4) 2(3) blank(3) in auto)
qed

section \<open>Bytes of a block\<close>

definition block_bytes :: "nat \<Rightarrow> nat set" where
  "block_bytes k = {k * 4096..<(k + 1) * 4096}"

definition entry_bytes :: "limine_memmap_entry \<Rightarrow> nat set" where
  "entry_bytes e = {unat (mm_base e)..<unat (mm_base e) + unat (mm_length e)}"

lemma aligned_ceil: "p mod 4096 = 0 \<Longrightarrow> ceil_block p = p div 4096"
  by (auto simp: ceil_block_def)

lemma div_block_bounds: "4096 * (n div 4096) \<le> n" "n < 4096 * (n div 4096) + (4096 :: nat)"
  using div_mult_mod_eq [of n 4096] mod_less_divisor [of 4096 n] by linarith+

lemma ceil_block_bounds: "n \<le> 4096 * ceil_block n" "4096 * ceil_block n < n + 4096"
  using div_block_bounds [of "n + 4095"] unfolding ceil_block_def by linarith+

lemma block_count_iff:
  "4096 * m \<le> n \<Longrightarrow> n < 4096 * m + 4096 \<Longrightarrow> k < q + m \<longleftrightarrow> (k + 1) * 4096 \<le> 4096 * q + (n :: nat)"
  by auto

lemma region_span_free_bytes:
  assumes "p mod 4096 = 0"
  shows "k \<in> region_span False p n \<longleftrightarrow> block_bytes k \<subseteq> {p..<p + n}"
proof -
  from assms obtain q where p: "p = 4096 * q" by (auto simp: mod_eq_0_iff_dvd)
  have "k < q + n div 4096 \<longleftrightarrow> (k + 1) * 4096 \<le> 4096 * q + n"
    using div_block_bounds [of n] by (rule block_count_iff)
  moreover have "q \<le> k \<longleftrightarrow> 4096 * q \<le> k * 4096" by (intro iffI) linarith+
  ultimately show ?thesis
    using p by (simp add: region_span_def aligned_ceil block_bytes_def)
qed

lemma region_span_used_bytes:
  assumes "p mod 4096 = 0"
  shows "k \<in> region_span True p n \<longleftrightarrow> block_bytes k \<inter> {p..<p + n} \<noteq> {}"
proof -
  from assms obtain q where p: "p = 4096 * q" by (auto simp: mod_eq_0_iff_dvd)
  have "q \<le> k \<and> k < q + ceil_block n \<longleftrightarrow>
      k * 4096 < 4096 * q + n \<and> 4096 * q < (k + 1) * 4096 \<and> 0 < n"
    using ceil_block_bounds [of n] by (cases "n = 0") (auto simp: ceil_block_def)
  then show ?thesis using p by (auto simp: region_span_def block_bytes_def)
qed

section \<open>Frames\<close>

lemma scast_pages_pos:
  "0 < pages \<Longrightarrow> unat pages < 2 ^ 31 \<Longrightarrow> 0 < (scast (pages :: 32 word) :: size_t)"
  by (simp add: word_less_nat_alt unat_scast_int)

lemma PhysicalAllocate_Ok:
  "PhysicalAllocate s pages = Ok (phys, s') \<longleftrightarrow> \<not> LOCK_PMM s \<and> phys \<noteq> 0 \<and>
     (\<exists>b. BitmapAllocate (physical s) (scast pages) = Ok (phys, b) \<and>
          s' = s\<lparr>physical := b, LOCK_PMM := False\<rparr>)"
  by (auto simp: PhysicalAllocate_def Let_def outcome_simps spinlockRelease_def split: if_splits)

lemma block_addr_bytes:
  assumes "bitmap_inv b" "mem_start b = 0" "k \<le> nblocks b"
  shows "unat (block_addr b k) = k * 4096"
  using assms unat_block_bytes [of k]
  by (simp add: block_addr_def ToPtr_def bitmap_inv_def bitmap_wf_def)

lemma PhysicalAllocate_taken:
  assumes inv: "bitmap_inv (physical s)" "mem_start (physical s) = 0"
    and n: "0 < pages" "unat pages < 2 ^ 31"
    and alloc: "PhysicalAllocate s pages = Ok (phys, s')"
  obtains k where "unat phys = k * 4096" and "first_fit (physical s) (unat pages) k"
    and "used_blocks (physical s') = used_blocks (physical s) \<union> {k..<k + unat pages}"
    and "bitmap_inv (physical s')" and "mem_start (physical s') = 0" and "\<not> LOCK_PMM s'"
    and "nblocks (physical s') = nblocks (physical s)"
proof -
  from alloc obtain b where b: "BitmapAllocate (physical s) (scast pages) = Ok (phys, b)"
      "s' = s\<lparr>physical := b, LOCK_PMM := False\<rparr>" "phys \<noteq> 0"
    by (auto simp: PhysicalAllocate_Ok)
  from inv(1) scast_pages_pos [OF n] show thesis
  proof (cases rule: BitmapAllocate_cases)
    case (taken r b')
    have u: "unat (scast pages :: size_t) = unat pages" using n(2) by (rule unat_scast_int)
    have eq: "phys = ToPtr (physical s) r" "b = b'" using taken(1) b(1) by simp_all
    have "unat r \<le> nblocks (physical s)" using taken(2) by (simp add: first_fit_def free_run_def)
    then have "unat phys = unat r * 4096"
      using block_addr_bytes [OF inv, of "unat r"] eq(1) by (simp add: block_addr_def)
    moreover have "mem_start b' = 0" "nblocks b' = nblocks (physical s)"
      using taken(4) inv(2) by (simp_all add: same_region_def nblocks_def)
    ultimately show ?thesis using that [of "unat r"] taken b(2) eq(2) u by simp
  next
    case exhausted
    then show ?thesis using b by simp
  qed
qed

lemma frames_bytes:
  "{k * 4096..<k * 4096 + n * 4096} = (\<Union>j \<in> {k..<k + n}. block_bytes j)"
proof (induction n)
  case (Suc n)
  have "{k * 4096..<k * 4096 + Suc n * 4096} = {k * 4096..<k * 4096 + n * 4096} \<union> block_bytes (k + n)"
    by (auto simp: block_bytes_def)
  then show ?case using Suc by (simp add: atLeastLessThanSuc Un_commute)
qed simp

lemma block_bytes_disjoint: "i \<noteq> j \<Longrightarrow> block_bytes i \<inter> block_bytes j = {}"
  by (auto simp: block_bytes_def)

definition frames :: "size_t \<Rightarrow> 32 word \<Rightarrow> nat set" where
  "frames phys pages = {unat phys..<unat phys + unat pages * 4096}"

lemma frames_disjoint:
  assumes "unat a = k * 4096" "unat c = l * 4096" "{k..<k + unat p} \<inter> {l..<l + unat q} = {}"
  shows "frames a p \<inter> frames c q = {}"
proof -
  have "block_bytes i \<inter> block_bytes j = {}" if "i \<in> {k..<k + unat p}" "j \<in> {l..<l + unat q}" for i j
    using assms(3) that by (intro block_bytes_disjoint) blast
  then show ?thesis unfolding frames_def assms(1,2) frames_bytes by blast
qed

section \<open>Writes past the bitmap\<close>

definition keeps_array :: "DS_Bitmap \<Rightarrow> DS_Bitmap outcome \<Rightarrow> bool" where
  "keeps_array b r \<longleftrightarrow> r = Fault \<or>
     (\<exists>b'. r = Ok b' \<and> length (Bitmap b') = length (Bitmap b) \<and> mem_start b' = mem_start b)"

lemma keeps_arrayE [elim]:
  assumes "keeps_array b r"
  obtains "r = Fault"
    | b' where "r = Ok b'" "length (Bitmap b') = length (Bitmap b)" "mem_start b' = mem_start b"
  using assms by (auto simp: keeps_array_def)

lemma BitmapSet_keeps: "keeps_array b (BitmapSet b k v)"
  by (simp add: keeps_array_def BitmapSet_def Let_def aget_def)

lemma mark_loop_keeps: "keeps_array b (mark_loop b i e v)"
proof (induction b i e v rule: mark_loop.induct)
  case (1 b i e v)
  show ?case
  proof (cases "i < e")
    case True
    from BitmapSet_keeps [of b i v] show ?thesis
      using 1 [OF True] True by (subst mark_loop.simps) (fastforce simp: keeps_array_def)
  qed (simp add: mark_loop.simps keeps_array_def)
qed

lemma MarkRegion_keeps: "keeps_array b (MarkRegion b p n v)"
proof -
  have "keeps_array b (MarkBlocks b s z v)" for s z
    using mark_loop_keeps [of "if \<not> v \<and> s < lastDeepFragmented b
        then b\<lparr>lastDeepFragmented := s\<rparr> else b" s "s + z" v]
    by (auto simp: MarkBlocks_def Let_def keeps_array_def split: if_splits)
  then show ?thesis by (cases v) (simp_all add: MarkRegion_def)
qed

lemma MarkRegion_past_end:
  assumes "mem_start b = 0" "32768 * length (Bitmap b) \<le> unat p" "4096 \<le> unat n"
    and "unat p + unat n + 4096 \<le> 2 ^ 64"
  shows "MarkRegion b p n False = Fault"
proof -
  let ?s = "DivRoundUp p BLOCK_SIZE" and ?z = "n div BLOCK_SIZE"
  have s: "unat ?s = ceil_block (unat p)"
    using assms(4) by (intro unat_ceil) (simp add: ceil_block_def)
  have z: "unat ?z = unat n div 4096" by (simp add: unat_div BLOCK_SIZE_def)
  have far: "8 * length (Bitmap b) \<le> unat ?s"
    using assms(2) ceil_block_bounds [of "unat p"] unfolding s by linarith
  have "1 \<le> unat ?z" using div_le_mono [OF assms(3), of 4096] unfolding z by simp
  moreover have "unat (?s + ?z) = unat ?s + unat ?z"
    using assms(4) ceil_block_bounds [of "unat p"] div_block_bounds [of "unat n"]
    by (intro unat_add_no_wrap) (simp add: s z)
  ultimately have "?s < ?s + ?z" by (simp add: word_less_nat_alt)
  moreover have "\<not> unat ?s div 8 < length (Bitmap b)" using far by simp
  ultimately show ?thesis
    using assms(1) by (simp add: MarkRegion_def ToBlockRoundUp_def MarkBlocks_def Let_def
        mark_loop.simps [of _ ?s] BitmapSet_def aget_def unat_block_div)
qed

lemma mark_entries_past_end:
  assumes "e \<in> set es" "P e" "mem_start b = 0"
    and "32768 * length (Bitmap b) \<le> unat (mm_base e)" "4096 \<le> unat (mm_length e)"
    and "unat (mm_base e) + unat (mm_length e) + 4096 \<le> 2 ^ 64"
  shows "mark_entries P False es b = Fault"
  using assms
proof (induction es arbitrary: b)
  case (Cons a es)
  show ?case
  proof (cases "a = e")
    case True
    with Cons.prems show ?thesis by (simp add: MarkRegion_past_end)
  next
    case False
    with Cons.prems have e: "e \<in> set es" by auto
    from MarkRegion_keeps [of b "mm_base a" "mm_length a" False] show ?thesis
      using Cons.IH [OF e Cons.prems(2)] Cons.prems by (cases "P a") (auto elim!: keeps_arrayE)
  qed
qed simp

section \<open>Properties\<close>


definition example_memmap :: "limine_memmap_entry list" where
  "example_memmap =
     [\<lparr>mm_base = 0, mm_length = 0x1000, mm_type = 6\<rparr>,
      \<lparr>mm_base = 0x1000, mm_length = 0x7000, mm_type = LIMINE_MEMMAP_USABLE\<rparr>]"



definition example_pmm :: pmm_state where
  "example_pmm = \<lparr>physical = example_bitmap\<lparr>mem_start := 0\<rparr>, LOCK_PMM = False\<rparr>"

lemma example_pmm_inv: "bitmap_inv (physical example_pmm)"
  using example_bitmap_inv
  by (simp add: example_pmm_def bitmap_inv_def bitmap_wf_def hint_ok_def nblocks_def blk_used_def)



definition hole_memmap :: "limine_memmap_entry list" where
  "hole_memmap =
     [\<lparr>mm_base = 0x1000, mm_length = 0x8000, mm_type = LIMINE_MEMMAP_USABLE\<rparr>,
      \<lparr>mm_base = 0x100000, mm_length = 0x8000, mm_type = LIMINE_MEMMAP_USABLE\<rparr>]"


end
