(* ===== verification/Circular.thy ===== *)
theory Circular
  imports Prelude Spinlock
begin

text \<open>
  The circular buffers of \<^verbatim>\<open>utilities/data_structures/circular.c\<close>: \<^verbatim>\<open>Circular\<close>, which takes a
  lock and copies with at most two \<^verbatim>\<open>memcpy\<close> calls, and \<^verbatim>\<open>CircularInt\<close>, which copies byte by
  byte and whose writer runs in interrupt context. A caller's buffer is a byte list; a copy
  past the end of either buffer, and a remainder by zero, is a \<open>Fault\<close>.

  Both are shown to implement one interface, a bounded byte queue, and to be first-in first-out
  over every sequence of reads and writes. The two-piece copy is shown equal to the byte loop.
\<close>

section \<open>The interface of a byte queue\<close>

datatype bq_op = Put "u8 list" | Get nat

text \<open>
  Running a sequence of operations. The first result collects the bytes the queue accepted, the
  second the bytes it delivered; a read is given a zeroed buffer of the length it asks for.
\<close>

fun bq_run :: "('s \<Rightarrow> u8 list \<Rightarrow> size_t \<Rightarrow> (size_t \<times> 's) outcome) \<Rightarrow>
    ('s \<Rightarrow> u8 list \<Rightarrow> size_t \<Rightarrow> (size_t \<times> u8 list \<times> 's) outcome) \<Rightarrow>
    's \<Rightarrow> bq_op list \<Rightarrow> (u8 list \<times> u8 list \<times> 's) outcome" where
  "bq_run wr rd s [] = Ok ([], [], s)"
| "bq_run wr rd s (Put xs # ops) =
     obind (wr s xs (of_nat (length xs))) (\<lambda>(n, s').
     obind (bq_run wr rd s' ops) (\<lambda>(acc, out, t). Ok (take (unat n) xs @ acc, out, t)))"
| "bq_run wr rd s (Get n # ops) =
     obind (rd s (replicate n 0) (of_nat n)) (\<lambda>(m, dst, s').
     obind (bq_run wr rd s' ops) (\<lambda>(acc, out, t). Ok (acc, take (unat m) dst @ out, t)))"

text \<open>The callers never pass a length of zero, which the buffers assert.\<close>

fun bq_op_ok :: "bq_op \<Rightarrow> bool" where
  "bq_op_ok (Put xs) \<longleftrightarrow> 0 < length xs \<and> length xs < 2 ^ 64"
| "bq_op_ok (Get n) \<longleftrightarrow> 0 < n \<and> n < 2 ^ 64"

locale byte_queue =
  fixes invar :: "'s \<Rightarrow> bool"
    and contents :: "'s \<Rightarrow> u8 list"
    and room :: "'s \<Rightarrow> nat"
    and wr :: "'s \<Rightarrow> u8 list \<Rightarrow> size_t \<Rightarrow> (size_t \<times> 's) outcome"
    and rd :: "'s \<Rightarrow> u8 list \<Rightarrow> size_t \<Rightarrow> (size_t \<times> u8 list \<times> 's) outcome"
  assumes write_result: "invar s \<Longrightarrow> 0 < n \<Longrightarrow> unat n \<le> length src \<Longrightarrow>
      if unat n \<le> room s
      then \<exists>s'. wr s src n = Ok (n, s') \<and> invar s' \<and>
             contents s' = contents s @ take (unat n) src \<and> room s' = room s - unat n
      else wr s src n = Ok (0, s)"
    and read_result: "invar s \<Longrightarrow> 0 < n \<Longrightarrow> unat n \<le> length dst \<Longrightarrow>
      \<exists>m s'. rd s dst n = Ok (m, take (unat m) (contents s) @ drop (unat m) dst, s') \<and>
        unat m = min (unat n) (length (contents s)) \<and> invar s' \<and>
        contents s' = drop (unat m) (contents s) \<and> room s' = room s + unat m"
begin

text \<open>Over every run, what was queued or accepted is what was delivered or is still queued.\<close>

lemma fifo:
  assumes "invar s" "list_all bq_op_ok ops"
  shows "\<exists>acc out s'. bq_run wr rd s ops = Ok (acc, out, s') \<and> invar s' \<and>
    contents s @ acc = out @ contents s' \<and>
    room s' + length (contents s') = room s + length (contents s)"
  using assms
proof (induction ops arbitrary: s)
  case (Cons op ops)
  show ?case
  proof (cases op)
    case (Put xs)
    let ?n = "of_nat (length xs) :: size_t"
    have n: "unat ?n = length xs" "0 < ?n"
      using Cons.prems(2) Put by (simp_all add: unat_of_nat word_less_nat_alt)
    show ?thesis
    proof (cases "length xs \<le> room s")
      case True
      with write_result [OF Cons.prems(1) n(2), of xs] n(1) obtain s1 where s1:
        "wr s xs ?n = Ok (?n, s1)" "invar s1" "contents s1 = contents s @ xs"
        "room s1 = room s - length xs"
        by auto
      from Cons.IH [OF s1(2)] Cons.prems(2) obtain acc out s' where
        "bq_run wr rd s1 ops = Ok (acc, out, s')" "invar s'"
        "contents s1 @ acc = out @ contents s'"
        "room s' + length (contents s') = room s1 + length (contents s1)"
        by auto
      with s1 Put n(1) True show ?thesis by simp
    next
      case False
      with write_result [OF Cons.prems(1) n(2), of xs] n(1) have "wr s xs ?n = Ok (0, s)" by simp
      moreover from Cons.IH [OF Cons.prems(1)] Cons.prems(2) obtain acc out s' where
        "bq_run wr rd s ops = Ok (acc, out, s')" "invar s'" "contents s @ acc = out @ contents s'"
        "room s' + length (contents s') = room s + length (contents s)"
        by auto
      ultimately show ?thesis using Put by simp
    qed
  next
    case (Get k)
    let ?n = "of_nat k :: size_t"
    have n: "unat ?n = k" "0 < ?n"
      using Cons.prems(2) Get by (simp_all add: unat_of_nat word_less_nat_alt)
    from read_result [OF Cons.prems(1) n(2), of "replicate k 0"] n(1) obtain m s1 where s1:
      "rd s (replicate k 0) ?n = Ok (m, take (unat m) (contents s) @ replicate (k - unat m) 0, s1)"
      "unat m = min k (length (contents s))" "invar s1" "contents s1 = drop (unat m) (contents s)"
      "room s1 = room s + unat m"
      by auto
    from Cons.IH [OF s1(3)] Cons.prems(2) obtain acc out s' where
      r: "bq_run wr rd s1 ops = Ok (acc, out, s')" "invar s'" "contents s1 @ acc = out @ contents s'"
      "room s' + length (contents s') = room s1 + length (contents s1)"
      by auto
    have "contents s @ acc = (take (unat m) (contents s) @ out) @ contents s'"
      using r(3) s1(4) by (metis append.assoc append_take_drop_id)
    with r s1 Get show ?thesis by simp
  qed
qed simp

text \<open>On an empty queue a write that fits is read back unchanged.\<close>

lemma write_read:
  assumes "invar s" "contents s = []" "0 < n" "unat n \<le> length src" "unat n \<le> room s"
    and "unat n \<le> length dst"
  shows "\<exists>s1 s2. wr s src n = Ok (n, s1) \<and>
    rd s1 dst n = Ok (n, take (unat n) src @ drop (unat n) dst, s2) \<and> contents s2 = []"
proof -
  from write_result [OF assms(1,3,4)] assms(2,5) obtain s1 where s1:
    "wr s src n = Ok (n, s1)" "invar s1" "contents s1 = take (unat n) src" by auto
  from read_result [OF s1(2) assms(3,6)] s1(3) assms(4) obtain m s2 where
    "rd s1 dst n = Ok (m, take (unat m) (take (unat n) src) @ drop (unat m) dst, s2)"
    "unat m = unat n" "contents s2 = drop (unat m) (take (unat n) src)" by auto
  moreover then have "m = n" by (simp add: word_unat_eq_iff)
  ultimately show ?thesis using s1(1) by auto
qed

end

section \<open>Circular\<close>

record Circular =
  buff :: "u8 list"
  buffSize :: size_t
  readPtr :: size_t
  writePtr :: size_t
  LOCK_CIRC :: Spinlock

definition CIRC_READABLE :: "size_t \<Rightarrow> size_t \<Rightarrow> size_t \<Rightarrow> size_t" where
  "CIRC_READABLE wr rd sz = (wr - rd + sz) mod sz"

definition CIRC_WRITABLE :: "size_t \<Rightarrow> size_t \<Rightarrow> size_t \<Rightarrow> size_t" where
  "CIRC_WRITABLE wr rd sz = (rd - wr - 1 + sz) mod sz"

text \<open>\<open>mem\<close> is the storage \<^verbatim>\<open>malloc(size)\<close> returned, with whatever bytes it holds.\<close>

definition CircularAllocate :: "u8 list \<Rightarrow> size_t \<Rightarrow> Circular" where
  "CircularAllocate mem sz =
     \<lparr>buff = mem, buffSize = sz, readPtr = 0, writePtr = 0, LOCK_CIRC = False\<rparr>"

definition CircularRead :: "Circular \<Rightarrow> u8 list \<Rightarrow> size_t \<Rightarrow> (size_t \<times> u8 list \<times> Circular) outcome" where
  "CircularRead circ dst len =
     cassert (len \<noteq> 0)
     (obind (spinlockAcquire (LOCK_CIRC circ)) (\<lambda>l.
      let write = writePtr circ; read = readPtr circ in
      if write = read then Ok (0, dst, circ\<lparr>LOCK_CIRC := spinlockRelease l\<rparr>)
      else nonzero (buffSize circ)
       (let toCopy = min (CIRC_READABLE write read (buffSize circ)) len;
            first = min toCopy (buffSize circ - read);
            second = toCopy - first in
        obind (blit dst 0 (buff circ) (unat read) (unat first)) (\<lambda>dst1.
        obind (if second \<noteq> 0 then blit dst1 (unat first) (buff circ) 0 (unat second) else Ok dst1)
          (\<lambda>dst2.
        cassert (toCopy > 0)
          (Ok (toCopy, dst2, circ\<lparr>readPtr := (read + toCopy) mod buffSize circ,
                                  LOCK_CIRC := spinlockRelease l\<rparr>)))))))"

definition CircularSkip :: "Circular \<Rightarrow> size_t \<Rightarrow> (size_t \<times> Circular) outcome" where
  "CircularSkip circ len =
     cassert (len \<noteq> 0)
     (obind (spinlockAcquire (LOCK_CIRC circ)) (\<lambda>l.
      let write = writePtr circ; read = readPtr circ in
      if write = read then Ok (0, circ\<lparr>LOCK_CIRC := spinlockRelease l\<rparr>)
      else nonzero (buffSize circ)
       (let readable = CIRC_READABLE write read (buffSize circ);
            toSkip = min readable len in
        cassert (toSkip > 0)
          (Ok (toSkip, circ\<lparr>readPtr := (read + toSkip) mod buffSize circ,
                            LOCK_CIRC := spinlockRelease l\<rparr>)))))"

definition CircularPeek ::
    "Circular \<Rightarrow> u8 list \<Rightarrow> size_t \<Rightarrow> size_t \<Rightarrow> (size_t \<times> u8 list \<times> Circular) outcome" where
  "CircularPeek circ dst len skip =
     cassert (len \<noteq> 0)
     (obind (spinlockAcquire (LOCK_CIRC circ)) (\<lambda>l.
      let write = writePtr circ; read = readPtr circ;
          circ' = circ\<lparr>LOCK_CIRC := spinlockRelease l\<rparr> in
      if write = read then Ok (0, dst, circ')
      else nonzero (buffSize circ)
       (let readable = CIRC_READABLE write read (buffSize circ) in
        if skip \<ge> readable then Ok (0, dst, circ')
        else
         (let read = (read + skip) mod buffSize circ;
              readable = readable - skip;
              toCopy = min readable len;
              first = min toCopy (buffSize circ - read);
              second = toCopy - first in
          obind (blit dst 0 (buff circ) (unat read) (unat first)) (\<lambda>dst1.
          obind (if second \<noteq> 0 then blit dst1 (unat first) (buff circ) 0 (unat second) else Ok dst1)
            (\<lambda>dst2. cassert (toCopy > 0) (Ok (toCopy, dst2, circ'))))))))"

definition CircularReadPoll :: "Circular \<Rightarrow> (size_t \<times> Circular) outcome" where
  "CircularReadPoll circ =
     obind (spinlockAcquire (LOCK_CIRC circ)) (\<lambda>l. nonzero (buffSize circ)
       (Ok (CIRC_READABLE (writePtr circ) (readPtr circ) (buffSize circ),
            circ\<lparr>LOCK_CIRC := spinlockRelease l\<rparr>)))"

definition CircularWritePoll :: "Circular \<Rightarrow> (size_t \<times> Circular) outcome" where
  "CircularWritePoll circ =
     obind (spinlockAcquire (LOCK_CIRC circ)) (\<lambda>l. nonzero (buffSize circ)
       (Ok (CIRC_WRITABLE (writePtr circ) (readPtr circ) (buffSize circ),
            circ\<lparr>LOCK_CIRC := spinlockRelease l\<rparr>)))"

definition CircularWrite :: "Circular \<Rightarrow> u8 list \<Rightarrow> size_t \<Rightarrow> (size_t \<times> Circular) outcome" where
  "CircularWrite circ src len =
     cassert (len \<noteq> 0)
     (obind (spinlockAcquire (LOCK_CIRC circ)) (\<lambda>l. nonzero (buffSize circ)
      (let write = writePtr circ; read = readPtr circ;
           writable = CIRC_WRITABLE write read (buffSize circ) in
       if len > writable then Ok (0, circ\<lparr>LOCK_CIRC := spinlockRelease l\<rparr>)
       else
        (let first = min len (buffSize circ - write);
             second = len - first in
         obind (blit (buff circ) (unat write) src 0 (unat first)) (\<lambda>b1.
         obind (if second \<noteq> 0 then blit b1 0 src (unat first) (unat second) else Ok b1) (\<lambda>b2.
           Ok (len, circ\<lparr>buff := b2, writePtr := (write + len) mod buffSize circ,
                         LOCK_CIRC := spinlockRelease l\<rparr>)))))))"

text \<open>\<^verbatim>\<open>CircularFree\<close> keeps the lock, so that a later use of the buffer does not get through.\<close>

definition CircularFree :: "Circular \<Rightarrow> Circular outcome" where
  "CircularFree circ =
     obind (spinlockAcquire (LOCK_CIRC circ)) (\<lambda>l. Ok (circ\<lparr>buff := [], LOCK_CIRC := l\<rparr>))"

section \<open>CircularInt\<close>

record CircularInt =
  ibuff :: "u8 list"
  ibuffSize :: size_t
  ireadPtr :: size_t
  iwritePtr :: size_t
  LOCK_READ :: Spinlock

definition CircularIntAllocate :: "u8 list \<Rightarrow> size_t \<Rightarrow> CircularInt" where
  "CircularIntAllocate mem sz =
     \<lparr>ibuff = mem, ibuffSize = sz, ireadPtr = 0, iwritePtr = 0, LOCK_READ = False\<rparr>"

text \<open>The copying loops, with \<open>n\<close> iterations left and \<open>i\<close> done.\<close>

primrec int_read_loop ::
    "nat \<Rightarrow> u8 list \<Rightarrow> size_t \<Rightarrow> u8 list \<Rightarrow> nat \<Rightarrow> size_t \<Rightarrow> (u8 list \<times> size_t) outcome" where
  "int_read_loop 0 cb sz dst i read = Ok (dst, read)"
| "int_read_loop (Suc n) cb sz dst i read =
     obind (aget cb (unat read)) (\<lambda>x.
     obind (aset dst i x) (\<lambda>dst'. int_read_loop n cb sz dst' (Suc i) ((read + 1) mod sz)))"

primrec int_write_loop ::
    "nat \<Rightarrow> u8 list \<Rightarrow> size_t \<Rightarrow> u8 list \<Rightarrow> nat \<Rightarrow> size_t \<Rightarrow> (u8 list \<times> size_t) outcome" where
  "int_write_loop 0 cb sz src i write = Ok (cb, write)"
| "int_write_loop (Suc n) cb sz src i write =
     obind (aget src i) (\<lambda>x.
     obind (aset cb (unat write) x) (\<lambda>cb'. int_write_loop n cb' sz src (Suc i) ((write + 1) mod sz)))"

definition CircularIntRead ::
    "CircularInt \<Rightarrow> u8 list \<Rightarrow> size_t \<Rightarrow> (size_t \<times> u8 list \<times> CircularInt) outcome" where
  "CircularIntRead circ dst len =
     cassert (len \<noteq> 0)
     (obind (spinlockAcquire (LOCK_READ circ)) (\<lambda>l.
      let write = iwritePtr circ; read = ireadPtr circ in
      if write = read then Ok (0, dst, circ\<lparr>LOCK_READ := spinlockRelease l\<rparr>)
      else nonzero (ibuffSize circ)
       (let toCopy = min (CIRC_READABLE write read (ibuffSize circ)) len in
        obind (int_read_loop (unat toCopy) (ibuff circ) (ibuffSize circ) dst 0 read) (\<lambda>(dst', read').
        cassert (toCopy > 0)
          (Ok (toCopy, dst', circ\<lparr>ireadPtr := read', LOCK_READ := spinlockRelease l\<rparr>))))))"

definition CircularIntReadPoll :: "CircularInt \<Rightarrow> (size_t \<times> CircularInt) outcome" where
  "CircularIntReadPoll circ =
     obind (spinlockAcquire (LOCK_READ circ)) (\<lambda>l. nonzero (ibuffSize circ)
       (Ok (CIRC_READABLE (iwritePtr circ) (ireadPtr circ) (ibuffSize circ),
            circ\<lparr>LOCK_READ := spinlockRelease l\<rparr>)))"

text \<open>\<open>ints\<close> is the result of \<^verbatim>\<open>checkInterrupts()\<close>: interrupts must be off.\<close>

definition CircularIntWrite ::
    "bool \<Rightarrow> CircularInt \<Rightarrow> u8 list \<Rightarrow> size_t \<Rightarrow> (size_t \<times> CircularInt) outcome" where
  "CircularIntWrite ints circ src len =
     cassert (\<not> ints) (cassert (len \<noteq> 0)
     (nonzero (ibuffSize circ)
      (let write = iwritePtr circ; read = ireadPtr circ;
           writable = CIRC_WRITABLE write read (ibuffSize circ) in
       if len > writable then Ok (0, circ)
       else obind (int_write_loop (unat len) (ibuff circ) (ibuffSize circ) src 0 write)
         (\<lambda>(cb, write'). Ok (len, circ\<lparr>ibuff := cb, iwritePtr := write'\<rparr>)))))"

section \<open>Rings\<close>

text \<open>The \<open>n\<close> bytes from position \<open>r\<close> on, and a byte-by-byte store, both modulo the length.\<close>

definition ring :: "'a list \<Rightarrow> nat \<Rightarrow> nat \<Rightarrow> 'a list" where
  "ring xs r n = map (\<lambda>i. xs ! ((r + i) mod length xs)) [0..<n]"

primrec ring_put :: "'a list \<Rightarrow> nat \<Rightarrow> 'a list \<Rightarrow> 'a list" where
  "ring_put ys w [] = ys"
| "ring_put ys w (x # xs) = ring_put (ys[w := x]) ((w + 1) mod length ys) xs"

lemma length_ring [simp]: "length (ring xs r n) = n"
  by (simp add: ring_def)

lemma ring_0 [simp]: "ring xs r 0 = []"
  by (simp add: ring_def)

lemma ring_Suc: "r < length xs \<Longrightarrow> ring xs r (Suc n) = xs ! r # ring xs ((r + 1) mod length xs) n"
  by (simp add: ring_def upt_conv_Cons map_Suc_upt [symmetric] mod_simps del: upt_Suc)

lemma drop_ring: "k \<le> n \<Longrightarrow> drop k (ring xs r n) = ring xs ((r + k) mod length xs) (n - k)"
  by (rule nth_equalityI) (auto simp: ring_def mod_simps ac_simps)

lemma take_ring: "k \<le> n \<Longrightarrow> take k (ring xs r n) = ring xs r k"
  by (rule nth_equalityI) (auto simp: ring_def)

lemma mod_once: "a < 2 * s \<Longrightarrow> a mod s = (if a < s then a else a - s)" for a :: nat
  by (simp add: le_mod_geq)

text \<open>The two pieces of a wrapped read.\<close>

lemma ring_two_pieces:
  assumes "r < length xs" "n \<le> length xs"
  shows "take (min n (length xs - r)) (drop r xs) @ take (n - min n (length xs - r)) xs = ring xs r n"
proof (cases "n \<le> length xs - r")
  case True
  then show ?thesis using assms by (intro nth_equalityI) (simp_all add: ring_def)
next
  case False
  then have "min n (length xs - r) = length xs - r" by simp
  then show ?thesis
    using assms False by (intro nth_equalityI) (auto simp: ring_def nth_append mod_once ac_simps)
qed

lemma length_ring_put [simp]: "length (ring_put ys w xs) = length ys"
  by (induction xs arbitrary: ys w) simp_all

lemma ring_put_nth:
  assumes "w < length ys" "length xs \<le> length ys" "k < length ys"
  shows "ring_put ys w xs ! k =
    (if w \<le> k \<and> k - w < length xs then xs ! (k - w)
     else if k < w \<and> k + length ys - w < length xs then xs ! (k + length ys - w)
     else ys ! k)"
  using assms
proof (induction xs arbitrary: ys w)
  case (Cons x xs)
  let ?w = "(w + 1) mod length ys"
  have "ring_put ys w (x # xs) ! k = ring_put (ys[w := x]) ?w xs ! k" by simp
  also have "\<dots> = (if ?w \<le> k \<and> k - ?w < length xs then xs ! (k - ?w)
     else if k < ?w \<and> k + length ys - ?w < length xs then xs ! (k + length ys - ?w)
     else ys[w := x] ! k)"
    using Cons.prems by (subst Cons.IH) (auto intro!: mod_less_divisor)
  finally show ?case
    using Cons.prems by (cases "w + 1 = length ys") (auto simp: nth_Cons' nth_list_update)
qed simp

text \<open>The two pieces of a wrapped write store the same bytes as the byte loop.\<close>

lemma ring_put_two_pieces:
  assumes "w < length ys" "n \<le> length ys" "n \<le> length src" "m = min n (length ys - w)"
  shows "take (n - m) (drop m src) @ drop (n - m) (take w ys @ take m src @ drop (w + m) ys)
    = ring_put ys w (take n src)"
proof (cases "n \<le> length ys - w")
  case True
  then have "m = n" using assms(4) by simp
  then show ?thesis
    using assms True by (intro nth_equalityI) (auto simp: ring_put_nth nth_append)
next
  case False
  then have "m = length ys - w" using assms(4) by simp
  then show ?thesis
    using assms False by (intro nth_equalityI) (auto simp: ring_put_nth nth_append ac_simps)
qed

lemma ring_put_append:
  assumes "r < length ys" "n + length xs \<le> length ys"
  shows "ring (ring_put ys ((r + n) mod length ys) xs) r (n + length xs) = ring ys r n @ xs"
proof (rule nth_equalityI)
  fix i assume "i < length (ring (ring_put ys ((r + n) mod length ys) xs) r (n + length xs))"
  then have i: "i < n + length xs" by simp
  have w: "(r + n) mod length ys < length ys" using assms(1) by (intro mod_less_divisor) linarith
  have k: "(r + i) mod length ys < length ys" using assms(1) by (intro mod_less_divisor) linarith
  have "ring (ring_put ys ((r + n) mod length ys) xs) r (n + length xs) ! i =
      ring_put ys ((r + n) mod length ys) xs ! ((r + i) mod length ys)"
    using i by (simp add: ring_def)
  also have "\<dots> = (ring ys r n @ xs) ! i"
    using assms i w k
    by (auto simp: ring_put_nth nth_append mod_once [of "r + n"] mod_once [of "r + i"] ring_def)
  finally show "ring (ring_put ys ((r + n) mod length ys) xs) r (n + length xs) ! i =
      (ring ys r n @ xs) ! i" .
qed simp

section \<open>Pointer arithmetic\<close>

text \<open>A buffer below \<open>2 ^ 63\<close> bytes, so that the sums of two positions do not wrap.\<close>

definition ptrs_ok :: "size_t \<Rightarrow> size_t \<Rightarrow> size_t \<Rightarrow> bool" where
  "ptrs_ok wr rd sz \<longleftrightarrow> wr < sz \<and> rd < sz \<and> unat sz < 2 ^ 63"

lemma ptrs_okD:
  assumes "ptrs_ok wr rd sz"
  shows "unat wr < unat sz" "unat rd < unat sz" "sz \<noteq> 0" "unat sz < 2 ^ 63"
  using assms by (auto simp: ptrs_ok_def word_less_nat_alt)

lemma unat_add_sub:
  fixes a b c :: size_t
  assumes "unat a + unat c < 2 ^ 64" "unat b \<le> unat a + unat c"
  shows "unat (a - b + c) = unat a + unat c - unat b"
proof -
  have s: "unat (a + c) = unat a + unat c" using assms(1) by (intro unat_add_no_wrap) simp
  have eq: "a - b + c = a + c - b" by simp
  show ?thesis unfolding eq using assms(2) s by (subst unat_sub) (simp_all add: word_le_nat_alt)
qed

lemma CIRC_READABLE_nat:
  assumes "ptrs_ok wr rd sz"
  shows "unat (CIRC_READABLE wr rd sz) = (unat wr + unat sz - unat rd) mod unat sz"
  using ptrs_okD [OF assms] by (simp add: CIRC_READABLE_def unat_mod unat_add_sub)

lemma CIRC_WRITABLE_nat:
  assumes "ptrs_ok wr rd sz"
  shows "unat (CIRC_WRITABLE wr rd sz) = unat sz - 1 - unat (CIRC_READABLE wr rd sz)"
proof -
  note d = ptrs_okD [OF assms]
  have w1: "unat (wr + 1) = unat wr + 1"
    using unat_Suc_word [of wr sz] assms by (simp add: ptrs_ok_def)
  have eq: "rd - wr - 1 + sz = rd - (wr + 1) + sz" by simp
  have "unat (rd - (wr + 1) + sz) = unat rd + unat sz - unat (wr + 1)"
    using d w1 by (intro unat_add_sub) simp_all
  then have "unat (CIRC_WRITABLE wr rd sz) = (unat rd + unat sz - (unat wr + 1)) mod unat sz"
    by (simp only: CIRC_WRITABLE_def unat_mod eq w1)
  then show ?thesis
    using d by (auto simp: CIRC_READABLE_nat [OF assms] mod_once)
qed

lemma writable_bound: "ptrs_ok wr rd sz \<Longrightarrow> unat (CIRC_READABLE wr rd sz) < unat sz"
  using ptrs_okD [of wr rd sz] by (simp add: CIRC_READABLE_nat)

lemma READABLE_zero_iff: "ptrs_ok wr rd sz \<Longrightarrow> CIRC_READABLE wr rd sz = 0 \<longleftrightarrow> wr = rd"
  using ptrs_okD [of wr rd sz]
  by (auto simp: word_unat_eq_iff CIRC_READABLE_nat mod_once)

lemma unat_advance:
  assumes "ptrs_ok wr rd sz" "unat n \<le> unat sz"
  shows "unat ((rd + n) mod sz) = (unat rd + unat n) mod unat sz"
  using ptrs_okD [OF assms(1)] assms(2) by (simp add: unat_mod unat_add_no_wrap)

lemma advance_less: "ptrs_ok wr rd sz \<Longrightarrow> (x :: size_t) mod sz < sz"
  using ptrs_okD [of wr rd sz] by (simp add: word_less_nat_alt unat_mod)

lemma write_pos:
  assumes "ptrs_ok wr rd sz"
  shows "(unat rd + unat (CIRC_READABLE wr rd sz)) mod unat sz = unat wr"
  using ptrs_okD [OF assms] by (simp add: CIRC_READABLE_nat [OF assms] mod_once)

lemma unat_min: "unat (min a b) = min (unat a) (unat b)" for a b :: "'w::len word"
  by (simp add: min_def word_le_nat_alt)

lemma unat_minus_min: "unat (a - min a b) = unat a - min (unat a) (unat b)" for a b :: "'w::len word"
  by (subst unat_sub) (simp_all add: unat_min)

lemma two_blits_read:
  assumes "r < length b" "n \<le> length b" "n \<le> length dst" "f = min n (length b - r)"
  shows "obind (blit dst 0 b r f) (\<lambda>d1. obind (if n - f \<noteq> 0 then blit d1 f b 0 (n - f) else Ok d1) k)
    = k (ring b r n @ drop n dst)"
proof -
  have f: "f \<le> n" "f \<le> length b - r" using assms(4) by simp_all
  then have 1: "blit dst 0 b r f = Ok (take f (drop r b) @ drop f dst)"
    using assms by (simp add: blit_Ok)
  have len: "length (take f (drop r b)) = f" using f assms(1) by simp
  have "(if n - f \<noteq> 0 then blit (take f (drop r b) @ drop f dst) f b 0 (n - f)
      else Ok (take f (drop r b) @ drop f dst)) =
      Ok (take f (drop r b) @ take (n - f) b @ drop n dst)"
    using assms f len by (auto simp: blit_def)
  also have "take f (drop r b) @ take (n - f) b @ drop n dst = ring b r n @ drop n dst"
    using ring_two_pieces [OF assms(1,2)] assms(4) by simp
  finally show ?thesis unfolding 1 by simp
qed

lemma two_blits_write:
  assumes "w < length b" "n \<le> length b" "n \<le> length src" "f = min n (length b - w)"
  shows "obind (blit b w src 0 f) (\<lambda>b1. obind (if n - f \<noteq> 0 then blit b1 0 src f (n - f) else Ok b1) k)
    = k (ring_put b w (take n src))"
proof -
  have f: "f \<le> n" "f \<le> length b - w" using assms(4) by simp_all
  then have 1: "blit b w src 0 f = Ok (take w b @ take f src @ drop (w + f) b)" (is "_ = Ok ?b1")
    using assms by (simp add: blit_Ok)
  have "length ?b1 = length b" using assms f by simp
  then have "(if n - f \<noteq> 0 then blit ?b1 0 src f (n - f) else Ok ?b1) =
      Ok (take (n - f) (drop f src) @ drop (n - f) ?b1)"
    using assms f by (simp add: blit_Ok)
  also have "take (n - f) (drop f src) @ drop (n - f) ?b1 = ring_put b w (take n src)"
    using assms by (rule ring_put_two_pieces)
  finally show ?thesis unfolding 1 by simp
qed

text \<open>The same on the word-valued lengths of the code.\<close>

lemma word_pieces:
  fixes n p s :: size_t
  assumes "unat p \<le> unat s"
  shows "unat (min n (s - p)) = min (unat n) (unat s - unat p)"
    and "unat (n - min n (s - p)) = unat n - min (unat n) (unat s - unat p)"
    and "n \<noteq> min n (s - p) \<longleftrightarrow> unat n - min (unat n) (unat s - unat p) \<noteq> 0"
proof -
  have sp: "unat (s - p) = unat s - unat p" using assms by (simp add: unat_sub word_le_nat_alt)
  show 1: "unat (min n (s - p)) = min (unat n) (unat s - unat p)" by (simp add: unat_min sp)
  show 2: "unat (n - min n (s - p)) = unat n - min (unat n) (unat s - unat p)"
    by (simp add: unat_minus_min sp)
  have "n \<noteq> min n (s - p) \<longleftrightarrow> unat (n - min n (s - p)) \<noteq> 0"
    by (metis eq_iff_diff_eq_0 unat_0 word_unat_eq_iff)
  then show "n \<noteq> min n (s - p) \<longleftrightarrow> unat n - min (unat n) (unat s - unat p) \<noteq> 0"
    by (simp only: 2)
qed

lemma read_pieces:
  fixes r n s :: size_t
  assumes "unat r < length b" "unat n \<le> length b" "unat n \<le> length dst" "length b = unat s"
  shows "obind (blit dst 0 b (unat r) (unat (min n (s - r)))) (\<lambda>d1.
      obind (if n \<noteq> min n (s - r)
             then blit d1 (unat (min n (s - r))) b 0 (unat (n - min n (s - r))) else Ok d1) k)
    = k (ring b (unat r) (unat n) @ drop (unat n) dst)"
proof -
  have "unat r \<le> unat s" using assms(1,4) by simp
  note w = word_pieces [OF this]
  show ?thesis unfolding w using assms by (intro two_blits_read) simp_all
qed

lemma write_pieces:
  fixes w n s :: size_t
  assumes "unat w < length b" "unat n \<le> length b" "unat n \<le> length src" "length b = unat s"
  shows "obind (blit b (unat w) src 0 (unat (min n (s - w)))) (\<lambda>b1.
      obind (if n \<noteq> min n (s - w)
             then blit b1 0 src (unat (min n (s - w))) (unat (n - min n (s - w))) else Ok b1) k)
    = k (ring_put b (unat w) (take (unat n) src))"
proof -
  have "unat w \<le> unat s" using assms(1,4) by simp
  note p = word_pieces [OF this]
  show ?thesis unfolding p using assms by (intro two_blits_write) simp_all
qed

section \<open>Circular is a byte queue\<close>

definition circ_inv :: "Circular \<Rightarrow> bool" where
  "circ_inv c \<longleftrightarrow> ptrs_ok (writePtr c) (readPtr c) (buffSize c) \<and>
     length (buff c) = unat (buffSize c) \<and> \<not> LOCK_CIRC c"

definition circ_used :: "Circular \<Rightarrow> size_t" where
  "circ_used c = CIRC_READABLE (writePtr c) (readPtr c) (buffSize c)"

definition circ_contents :: "Circular \<Rightarrow> u8 list" where
  "circ_contents c = ring (buff c) (unat (readPtr c)) (unat (circ_used c))"

definition circ_room :: "Circular \<Rightarrow> nat" where
  "circ_room c = unat (buffSize c) - 1 - length (circ_contents c)"

lemma circ_unlocked: "\<not> LOCK_CIRC c \<Longrightarrow> c\<lparr>LOCK_CIRC := False\<rparr> = c"
  by simp

lemma ring_empty_iff [simp]: "ring xs r n = [] \<longleftrightarrow> n = 0"
  by (simp flip: length_0_conv)

lemma circ_contents_empty: "circ_inv c \<Longrightarrow> circ_contents c = [] \<longleftrightarrow> writePtr c = readPtr c"
  using READABLE_zero_iff [of "writePtr c" "readPtr c" "buffSize c"]
  by (simp add: circ_inv_def circ_contents_def circ_used_def word_unat_eq_iff)

text \<open>Moving the read pointer by \<open>m\<close> queued bytes drops them.\<close>

lemma readable_advance:
  assumes "ptrs_ok wr rd sz" "unat m \<le> unat (CIRC_READABLE wr rd sz)"
  shows "ptrs_ok wr ((rd + m) mod sz) sz"
    and "unat (CIRC_READABLE wr ((rd + m) mod sz) sz) = unat (CIRC_READABLE wr rd sz) - unat m"
proof -
  note d = ptrs_okD [OF assms(1)]
  have m: "unat m \<le> unat sz" using assms(2) writable_bound [OF assms(1)] by simp
  show p: "ptrs_ok wr ((rd + m) mod sz) sz"
    using assms(1) advance_less [OF assms(1)] by (simp add: ptrs_ok_def)
  have r: "unat ((rd + m) mod sz) = (unat rd + unat m) mod unat sz"
    using assms(1) m by (rule unat_advance)
  have "unat m \<le> (unat wr + unat sz - unat rd) mod unat sz"
    using assms(2) by (simp add: CIRC_READABLE_nat [OF assms(1)])
  then show "unat (CIRC_READABLE wr ((rd + m) mod sz) sz) = unat (CIRC_READABLE wr rd sz) - unat m"
    using d m unfolding CIRC_READABLE_nat [OF p] CIRC_READABLE_nat [OF assms(1)] r
    by (auto simp: mod_once split: if_splits)
qed

lemma writable_advance:
  assumes "ptrs_ok wr rd sz" "unat m \<le> unat (CIRC_WRITABLE wr rd sz)"
  shows "ptrs_ok ((wr + m) mod sz) rd sz"
    and "unat (CIRC_READABLE ((wr + m) mod sz) rd sz) = unat (CIRC_READABLE wr rd sz) + unat m"
proof -
  note d = ptrs_okD [OF assms(1)]
  have m: "unat m + unat (CIRC_READABLE wr rd sz) < unat sz"
    using assms(2) writable_bound [OF assms(1)] d by (simp add: CIRC_WRITABLE_nat [OF assms(1)])
  show p: "ptrs_ok ((wr + m) mod sz) rd sz"
    using assms(1) advance_less [OF assms(1)] by (simp add: ptrs_ok_def)
  have r: "unat ((wr + m) mod sz) = (unat wr + unat m) mod unat sz"
    using d m by (simp add: unat_mod unat_add_no_wrap)
  show "unat (CIRC_READABLE ((wr + m) mod sz) rd sz) = unat (CIRC_READABLE wr rd sz) + unat m"
    using d m unfolding CIRC_READABLE_nat [OF p] CIRC_READABLE_nat [OF assms(1)] r
    by (auto simp: mod_once split: if_splits)
qed

lemma CircularRead_spec:
  assumes inv: "circ_inv c" and pos: "0 < n" and dst: "unat n \<le> length dst"
  shows "\<exists>m c'. CircularRead c dst n =
      Ok (m, take (unat m) (circ_contents c) @ drop (unat m) dst, c') \<and>
    unat m = min (unat n) (length (circ_contents c)) \<and> circ_inv c' \<and> buffSize c' = buffSize c \<and>
    circ_contents c' = drop (unat m) (circ_contents c)"
proof (cases "writePtr c = readPtr c")
  case True
  then have "circ_contents c = []" using inv by (simp add: circ_contents_empty)
  with True inv pos show ?thesis
    by (intro exI [of _ 0] exI [of _ c])
      (auto simp: CircularRead_def circ_inv_def circ_unlocked cassert_def)
next
  case False
  let ?w = "writePtr c" and ?r = "readPtr c" and ?s = "buffSize c"
  let ?R = "CIRC_READABLE ?w ?r ?s"
  define m where "m = min ?R n"
  let ?c = "c\<lparr>readPtr := (?r + m) mod ?s\<rparr>"
  from inv have p: "ptrs_ok ?w ?r ?s" and len: "length (buff c) = unat ?s" by (simp_all add: circ_inv_def)
  note d = ptrs_okD [OF p]
  have um: "unat m = min (unat ?R) (unat n)" by (simp add: m_def unat_min)
  have mR: "unat m \<le> unat ?R" and mn: "unat m \<le> unat n" using um by simp_all
  have mpos: "0 < m"
    using False READABLE_zero_iff [OF p] pos by (simp add: m_def word_neq_0_conv)
  have "CircularRead c dst n = Ok (m, ring (buff c) (unat ?r) (unat m) @ drop (unat m) dst, ?c)"
    using False inv pos d(3) mpos mR mn dst writable_bound [OF p] d(2) len
    by (auto simp: CircularRead_def circ_inv_def Let_def cassert_def read_pieces circ_unlocked
        simp flip: m_def)
  moreover have "circ_contents ?c = drop (unat m) (circ_contents c)"
    using readable_advance(2) [OF p mR] mR d len writable_bound [OF p]
    by (simp add: circ_contents_def circ_used_def drop_ring unat_advance [OF p])
  moreover have "circ_inv ?c"
    using inv readable_advance(1) [OF p mR] by (simp add: circ_inv_def)
  ultimately show ?thesis
    using um mR by (intro exI [of _ m] exI [of _ ?c])
      (simp add: circ_contents_def circ_used_def take_ring min.commute)
qed

lemma CircularWrite_spec:
  assumes inv: "circ_inv c" and pos: "0 < n" and src: "unat n \<le> length src"
  shows "if unat n \<le> circ_room c
    then \<exists>c'. CircularWrite c src n = Ok (n, c') \<and> circ_inv c' \<and> buffSize c' = buffSize c \<and>
           circ_contents c' = circ_contents c @ take (unat n) src
    else CircularWrite c src n = Ok (0, c)"
proof -
  let ?w = "writePtr c" and ?r = "readPtr c" and ?s = "buffSize c"
  let ?R = "CIRC_READABLE ?w ?r ?s" and ?W = "CIRC_WRITABLE ?w ?r ?s"
  from inv have p: "ptrs_ok ?w ?r ?s" and len: "length (buff c) = unat ?s" by (simp_all add: circ_inv_def)
  note d = ptrs_okD [OF p]
  have W: "unat ?W = circ_room c"
    by (simp add: CIRC_WRITABLE_nat [OF p] circ_room_def circ_contents_def circ_used_def)
  then have le: "?W < n \<longleftrightarrow> \<not> unat n \<le> circ_room c" by (simp add: word_less_nat_alt not_le)
  show ?thesis
  proof (cases "unat n \<le> circ_room c")
    case True
    let ?b = "ring_put (buff c) (unat ?w) (take (unat n) src)"
    let ?c = "c\<lparr>buff := ?b, writePtr := (?w + n) mod ?s\<rparr>"
    have nW: "unat n \<le> unat ?W" using True W by simp
    then have fit: "unat ?R + unat n < unat ?s"
      using d writable_bound [OF p] by (simp add: CIRC_WRITABLE_nat [OF p])
    have "CircularWrite c src n = Ok (n, ?c)"
      using inv pos d(3) True le fit src len d(1)
      by (auto simp: CircularWrite_def circ_inv_def Let_def cassert_def write_pieces circ_unlocked)
    moreover have "circ_contents ?c = circ_contents c @ take (unat n) src"
      using ring_put_append [of "unat ?r" "buff c" "unat ?R" "take (unat n) src"]
        write_pos [OF p] writable_advance(2) [OF p nW] fit src len d(2)
      by (simp add: circ_contents_def circ_used_def)
    moreover have "circ_inv ?c"
      using inv writable_advance(1) [OF p nW] by (simp add: circ_inv_def)
    ultimately show ?thesis using True by auto
  next
    case False
    then have "CircularWrite c src n = Ok (0, c)"
      using inv pos d(3) le by (auto simp: CircularWrite_def circ_inv_def Let_def cassert_def circ_unlocked)
    with False show ?thesis by simp
  qed
qed

lemma circ_room_bound: "circ_inv c \<Longrightarrow> length (circ_contents c) < unat (buffSize c)"
  using writable_bound by (simp add: circ_inv_def circ_contents_def circ_used_def)

interpretation circ: byte_queue circ_inv circ_contents circ_room CircularWrite CircularRead
proof (unfold_locales, goal_cases)
  case (1 s n src)
  show ?case
    using CircularWrite_spec [OF 1] circ_room_bound [OF 1(1)] 1(3) by (auto simp: circ_room_def min_def)
next
  case (2 s n dst)
  from CircularRead_spec [OF 2] obtain m c' where c': "CircularRead s dst n =
      Ok (m, take (unat m) (circ_contents s) @ drop (unat m) dst, c')"
    "unat m = min (unat n) (length (circ_contents s))" "circ_inv c'" "buffSize c' = buffSize s"
    "circ_contents c' = drop (unat m) (circ_contents s)" by blast
  moreover have "circ_room c' = circ_room s + unat m"
    using circ_room_bound [OF 2(1)] c'(2,4,5) by (simp add: circ_room_def)
  ultimately show ?case by blast
qed

lemma circ_unlocked_inv: "circ_inv c \<Longrightarrow> c\<lparr>LOCK_CIRC := False\<rparr> = c"
  by (simp add: circ_inv_def)

text \<open>The read-only operations report the contents, and skipping drops them.\<close>

lemma CircularReadPoll_spec:
  "circ_inv c \<Longrightarrow> \<exists>n. CircularReadPoll c = Ok (n, c) \<and> unat n = length (circ_contents c)"
  using ptrs_okD [of "writePtr c" "readPtr c" "buffSize c"]
  by (auto simp: circ_inv_def CircularReadPoll_def circ_contents_def circ_used_def circ_unlocked)

lemma CircularWritePoll_spec:
  "circ_inv c \<Longrightarrow> \<exists>n. CircularWritePoll c = Ok (n, c) \<and> unat n = circ_room c"
  using ptrs_okD [of "writePtr c" "readPtr c" "buffSize c"]
  by (auto simp: circ_inv_def CircularWritePoll_def circ_room_def circ_contents_def circ_used_def
      circ_unlocked CIRC_WRITABLE_nat)

lemma CircularSkip_spec:
  assumes inv: "circ_inv c" and pos: "0 < n"
  shows "\<exists>m c'. CircularSkip c n = Ok (m, c') \<and> unat m = min (unat n) (length (circ_contents c)) \<and>
    circ_inv c' \<and> buffSize c' = buffSize c \<and> circ_contents c' = drop (unat m) (circ_contents c)"
proof -
  let ?dst = "replicate (unat n) (0 :: u8)"
  obtain m dst c' where r: "CircularRead c ?dst n = Ok (m, dst, c')"
    "unat m = min (unat n) (length (circ_contents c))" "circ_inv c'" "buffSize c' = buffSize c"
    "circ_contents c' = drop (unat m) (circ_contents c)"
    using CircularRead_spec [OF inv pos, of ?dst] by auto
  then have "CircularSkip c n = Ok (m, c')"
    by (auto simp: CircularRead_def CircularSkip_def Let_def outcome_simps split: if_splits)
  with r show ?thesis by auto
qed

lemma CircularPeek_spec:
  assumes inv: "circ_inv c" and pos: "0 < n" and dst: "unat n \<le> length dst"
  shows "\<exists>m. CircularPeek c dst n skip =
      Ok (m, take (unat m) (drop (unat skip) (circ_contents c)) @ drop (unat m) dst, c) \<and>
    unat m = min (unat n) (length (circ_contents c) - unat skip)"
proof -
  let ?w = "writePtr c" and ?r = "readPtr c" and ?s = "buffSize c"
  let ?R = "CIRC_READABLE ?w ?r ?s"
  from inv have p: "ptrs_ok ?w ?r ?s" and len: "length (buff c) = unat ?s" by (simp_all add: circ_inv_def)
  note d = ptrs_okD [OF p]
  have used: "length (circ_contents c) = unat ?R" by (simp add: circ_contents_def circ_used_def)
  consider "?R \<le> skip" | "skip < ?R" "?w \<noteq> ?r"
    using READABLE_zero_iff [OF p] by fastforce
  then show ?thesis
  proof cases
    case 1
    then have "CircularPeek c dst n skip = Ok (0, dst, c)"
      using inv pos d(3) by (auto simp: CircularPeek_def circ_inv_def Let_def cassert_def circ_unlocked)
    with 1 used show ?thesis by (intro exI [of _ 0]) (simp add: word_le_nat_alt)
  next
    case 2
    define m where "m = min (?R - skip) n"
    let ?r' = "(?r + skip) mod ?s"
    have sk: "unat skip \<le> unat ?R" "unat (?R - skip) = unat ?R - unat skip"
      using 2(1) by (simp_all add: word_less_nat_alt unat_sub word_le_nat_alt)
    have um: "unat m = min (unat ?R - unat skip) (unat n)" by (simp add: m_def unat_min sk(2))
    have mpos: "0 < m" using 2(1) pos um by (simp add: word_less_nat_alt)
    have r': "unat ?r' = (unat ?r + unat skip) mod unat ?s"
      using sk(1) writable_bound [OF p] by (intro unat_advance [OF p]) simp
    then have r'lt: "unat ?r' < unat ?s" using d by simp
    have "CircularPeek c dst n skip =
        Ok (m, ring (buff c) (unat ?r') (unat m) @ drop (unat m) dst, c)"
      unfolding CircularPeek_def Let_def m_def [symmetric]
      using 2 inv pos d(3) mpos um dst writable_bound [OF p] r'lt len
      by (auto simp: circ_inv_def cassert_def read_pieces circ_unlocked)
    moreover have "ring (buff c) (unat ?r') (unat m) = take (unat m) (drop (unat skip) (circ_contents c))"
      using sk um r' len by (simp add: circ_contents_def circ_used_def drop_ring take_ring)
    ultimately show ?thesis using um used by (intro exI [of _ m]) simp
  qed
qed

section \<open>CircularInt\<close>

definition as_circ :: "CircularInt \<Rightarrow> Circular" where
  "as_circ c = \<lparr>buff = ibuff c, buffSize = ibuffSize c, readPtr = ireadPtr c,
     writePtr = iwritePtr c, LOCK_CIRC = LOCK_READ c\<rparr>"

definition of_circ :: "Circular \<Rightarrow> CircularInt" where
  "of_circ c = \<lparr>ibuff = buff c, ibuffSize = buffSize c, ireadPtr = readPtr c,
     iwritePtr = writePtr c, LOCK_READ = LOCK_CIRC c\<rparr>"

lemma as_of_circ [simp]: "as_circ (of_circ c) = c" "of_circ (as_circ i) = i"
  by (simp_all add: as_circ_def of_circ_def)

lemma as_circ_simps [simp]:
  "buff (as_circ c) = ibuff c" "buffSize (as_circ c) = ibuffSize c"
  "readPtr (as_circ c) = ireadPtr c" "writePtr (as_circ c) = iwritePtr c"
  "LOCK_CIRC (as_circ c) = LOCK_READ c"
  by (simp_all add: as_circ_def)

abbreviation cint_inv :: "CircularInt \<Rightarrow> bool" where
  "cint_inv c \<equiv> circ_inv (as_circ c)"

lemma unat_next:
  fixes r sz :: size_t
  assumes "r < sz" "unat sz < 2 ^ 63"
  shows "unat ((r + 1) mod sz) = (unat r + 1) mod unat sz" and "(r + 1) mod sz < sz"
proof -
  show 1: "unat ((r + 1) mod sz) = (unat r + 1) mod unat sz"
    using unat_Suc_word [OF assms(1)] by (simp add: unat_mod)
  have "0 < unat sz" using assms(1) by (simp add: word_less_nat_alt)
  then show "(r + 1) mod sz < sz" unfolding word_less_nat_alt 1 by (rule mod_less_divisor)
qed

lemma int_read_loop_spec:
  assumes "r < sz" "unat sz < 2 ^ 63" "length cb = unat sz" "i + n \<le> length dst"
  shows "\<exists>r'. int_read_loop n cb sz dst i r =
      Ok (take i dst @ ring cb (unat r) n @ drop (i + n) dst, r') \<and>
    unat r' = (unat r + n) mod unat sz"
  using assms
proof (induction n arbitrary: dst i r)
  case (Suc n)
  have r: "unat r < length cb" "i < length dst" using Suc.prems by (simp_all add: word_less_nat_alt)
  note nx = unat_next [OF Suc.prems(1,2)]
  from Suc.IH [OF nx(2) Suc.prems(2,3), of "Suc i" "dst[i := cb ! unat r]"] Suc.prems(4) obtain r' where
    IH: "int_read_loop n cb sz (dst[i := cb ! unat r]) (Suc i) ((r + 1) mod sz) =
      Ok (take (Suc i) (dst[i := cb ! unat r]) @ ring cb ((unat r + 1) mod unat sz) n @
          drop (Suc i + n) (dst[i := cb ! unat r]), r')"
    "unat r' = ((unat r + 1) mod unat sz + n) mod unat sz"
    by (auto simp: nx(1))
  have "take (Suc i) (dst[i := cb ! unat r]) = take i dst @ [cb ! unat r]"
    using r(2) by (simp add: take_Suc_conv_app_nth)
  with IH r Suc.prems(3) show ?case by (simp add: ring_Suc mod_simps)
qed (simp add: word_less_nat_alt)

lemma int_write_loop_spec:
  assumes "w < sz" "unat sz < 2 ^ 63" "length cb = unat sz" "i + n \<le> length src"
  shows "\<exists>w'. int_write_loop n cb sz src i w =
      Ok (ring_put cb (unat w) (take n (drop i src)), w') \<and>
    unat w' = (unat w + n) mod unat sz"
  using assms
proof (induction n arbitrary: cb i w)
  case (Suc n)
  have w: "unat w < length cb" "i < length src" using Suc.prems by (simp_all add: word_less_nat_alt)
  note nx = unat_next [OF Suc.prems(1,2)]
  from Suc.IH [OF nx(2) Suc.prems(2), of "cb[unat w := src ! i]" "Suc i"] Suc.prems(3,4) obtain w' where
    "int_write_loop n (cb[unat w := src ! i]) sz src (Suc i) ((w + 1) mod sz) =
      Ok (ring_put (cb[unat w := src ! i]) ((unat w + 1) mod unat sz) (take n (drop (Suc i) src)), w')"
    "unat w' = ((unat w + 1) mod unat sz + n) mod unat sz"
    by (auto simp: nx(1))
  moreover have "take (Suc n) (drop i src) = src ! i # take n (drop (Suc i) src)"
    using w(2) by (simp add: Cons_nth_drop_Suc [symmetric])
  ultimately show ?case using w Suc.prems(3) by (simp add: mod_simps)
qed (simp add: word_less_nat_alt)

text \<open>The byte loops of \<^verbatim>\<open>CircularInt\<close> do what the two-piece copies of \<^verbatim>\<open>Circular\<close> do.\<close>

definition lift_read :: "(size_t \<times> u8 list \<times> Circular) outcome \<Rightarrow> (size_t \<times> u8 list \<times> CircularInt) outcome" where
  "lift_read r = obind r (\<lambda>(n, dst, c). Ok (n, dst, of_circ c))"

definition lift_write :: "(size_t \<times> Circular) outcome \<Rightarrow> (size_t \<times> CircularInt) outcome" where
  "lift_write r = obind r (\<lambda>(n, c). Ok (n, of_circ c))"

lemma CircularIntRead_eq:
  assumes inv: "cint_inv c" and dst: "unat n \<le> length dst"
  shows "CircularIntRead c dst n = lift_read (CircularRead (as_circ c) dst n)"
proof (cases "iwritePtr c = ireadPtr c \<or> n = 0")
  case True
  then show ?thesis
    by (cases c) (auto simp: CircularIntRead_def CircularRead_def lift_read_def cassert_def Let_def
        spinlockAcquire_def of_circ_def as_circ_def)
next
  case False
  let ?w = "iwritePtr c" and ?r = "ireadPtr c" and ?s = "ibuffSize c"
  define m where "m = min (CIRC_READABLE ?w ?r ?s) n"
  from inv have p: "ptrs_ok ?w ?r ?s" and len: "length (ibuff c) = unat ?s" and lk: "\<not> LOCK_READ c"
    by (simp_all add: circ_inv_def)
  note d = ptrs_okD [OF p]
  have m: "unat m \<le> unat n" "unat m \<le> unat ?s"
    using writable_bound [OF p] by (simp_all add: m_def unat_min)
  obtain r' where r': "int_read_loop (unat m) (ibuff c) ?s dst 0 ?r =
      Ok (ring (ibuff c) (unat ?r) (unat m) @ drop (unat m) dst, r')"
    "unat r' = (unat ?r + unat m) mod unat ?s"
    using int_read_loop_spec [of ?r ?s "ibuff c" 0 "unat m" dst] p m len dst
    by (auto simp: ptrs_ok_def)
  have "r' = (?r + m) mod ?s"
    using r'(2) m(2) by (simp add: word_unat_eq_iff unat_advance [OF p])
  then show ?thesis
    unfolding CircularIntRead_def CircularRead_def Let_def as_circ_simps m_def [symmetric]
    using False d m len dst lk r'(1)
    by (auto simp: lift_read_def cassert_def read_pieces of_circ_def)
qed

lemma CircularIntWrite_eq:
  assumes inv: "cint_inv c" and src: "unat n \<le> length src"
  shows "CircularIntWrite False c src n = lift_write (CircularWrite (as_circ c) src n)"
proof (cases "n = 0 \<or> CIRC_WRITABLE (iwritePtr c) (ireadPtr c) (ibuffSize c) < n")
  case True
  then show ?thesis
    using inv by (auto simp: CircularIntWrite_def CircularWrite_def lift_write_def cassert_def Let_def
        nonzero_def circ_inv_def circ_unlocked)
next
  case False
  let ?w = "iwritePtr c" and ?r = "ireadPtr c" and ?s = "ibuffSize c"
  from inv have p: "ptrs_ok ?w ?r ?s" and len: "length (ibuff c) = unat ?s" and lk: "\<not> LOCK_READ c"
    by (simp_all add: circ_inv_def)
  note d = ptrs_okD [OF p]
  have n: "unat n \<le> unat ?s"
    using False CIRC_WRITABLE_nat [OF p] by (auto simp: word_less_nat_alt not_less)
  obtain w' where w': "int_write_loop (unat n) (ibuff c) ?s src 0 ?w =
      Ok (ring_put (ibuff c) (unat ?w) (take (unat n) src), w')"
    "unat w' = (unat ?w + unat n) mod unat ?s"
    using int_write_loop_spec [of ?w ?s "ibuff c" 0 "unat n" src] p len src
    by (auto simp: ptrs_ok_def)
  have "w' = (?w + n) mod ?s"
    using w'(2) n d by (simp add: word_unat_eq_iff unat_mod unat_add_no_wrap)
  then show ?thesis
    using False d n len src lk w'(1)
    by (auto simp: CircularIntWrite_def CircularWrite_def Let_def lift_write_def cassert_def
        write_pieces of_circ_def)
qed

interpretation cint: byte_queue cint_inv "circ_contents \<circ> as_circ" "circ_room \<circ> as_circ"
  "CircularIntWrite False" CircularIntRead
proof (unfold_locales, goal_cases)
  case (1 s n src)
  show ?case
    using circ.write_result [OF 1] by (auto simp: CircularIntWrite_eq [OF 1(1,3)] lift_write_def)
next
  case (2 s n dst)
  from circ.read_result [OF 2] obtain m c' where "CircularRead (as_circ s) dst n =
      Ok (m, take (unat m) (circ_contents (as_circ s)) @ drop (unat m) dst, c')"
    "unat m = min (unat n) (length (circ_contents (as_circ s)))" "circ_inv c'"
    "circ_contents c' = drop (unat m) (circ_contents (as_circ s))"
    "circ_room c' = circ_room (as_circ s) + unat m" by blast
  then show ?case
    by (intro exI [of _ m] exI [of _ "of_circ c'"])
      (simp add: CircularIntRead_eq [OF 2(1,3)] lift_read_def)
qed

section \<open>Properties\<close>


definition example_circ :: Circular where
  "example_circ = \<lparr>buff = [1, 2, 3, 4], buffSize = 4, readPtr = 3, writePtr = 1, LOCK_CIRC = False\<rparr>"

lemma example_circ_inv: "circ_inv example_circ"
  by (simp add: circ_inv_def ptrs_ok_def example_circ_def word_less_nat_alt)


text \<open>C12: the interrupt-context buffer and the locked buffer are the same queue: on every
  consistent state the byte loops of \<^verbatim>\<open>CircularIntRead\<close> and \<^verbatim>\<open>CircularIntWrite\<close> return the
  same count, bytes and pointers as the two-piece copies of \<^verbatim>\<open>CircularRead\<close> and
  \<^verbatim>\<open>CircularWrite\<close>.\<close>

theorem CircularInt_equiv:
  assumes "cint_inv c" "unat n \<le> length dst" "unat k \<le> length src"
  shows "CircularIntRead c dst n = lift_read (CircularRead (as_circ c) dst n) \<and>
    CircularIntWrite False c src k = lift_write (CircularWrite (as_circ c) src k)"
  using CircularIntRead_eq CircularIntWrite_eq assms by simp

theorem CircularInt_equiv_witness:
  "CircularIntRead (of_circ example_circ) [0, 0] 2 = lift_read (CircularRead example_circ [0, 0] 2) \<and>
    CircularIntWrite False (of_circ example_circ) [5] 1 = lift_write (CircularWrite example_circ [5] 1)"
  using CircularInt_equiv [of "of_circ example_circ" 2 "[0, 0]" 1 "[5]"] example_circ_inv by simp

text \<open>C13: peeking and then skipping is reading. With no bytes skipped, \<^verbatim>\<open>CircularPeek\<close> delivers
  the bytes and the count of \<^verbatim>\<open>CircularRead\<close> and leaves the buffer alone, and
  \<^verbatim>\<open>CircularSkip\<close> of the same length leaves the buffer with the contents the read leaves.\<close>

theorem Circular_peek_skip:
  assumes "circ_inv c" "0 < n" "unat n \<le> length dst"
  shows "\<exists>m dst' c1 c2. CircularRead c dst n = Ok (m, dst', c1) \<and>
    CircularPeek c dst n 0 = Ok (m, dst', c) \<and> CircularSkip c n = Ok (m, c2) \<and>
    circ_inv c1 \<and> circ_inv c2 \<and> circ_contents c2 = circ_contents c1"
proof -
  obtain m c1 where r: "CircularRead c dst n =
      Ok (m, take (unat m) (circ_contents c) @ drop (unat m) dst, c1)"
    "unat m = min (unat n) (length (circ_contents c))" "circ_inv c1"
    "circ_contents c1 = drop (unat m) (circ_contents c)"
    using CircularRead_spec [OF assms] by blast
  obtain k where k: "CircularPeek c dst n 0 =
      Ok (k, take (unat k) (circ_contents c) @ drop (unat k) dst, c)"
    "unat k = min (unat n) (length (circ_contents c))"
    using CircularPeek_spec [OF assms, of 0] by auto
  obtain j c2 where j: "CircularSkip c n = Ok (j, c2)"
    "unat j = min (unat n) (length (circ_contents c))" "circ_inv c2"
    "circ_contents c2 = drop (unat j) (circ_contents c)"
    using CircularSkip_spec [OF assms(1,2)] by blast
  have "k = m" "j = m" using r(2) k(2) j(2) by (simp_all add: word_unat_eq_iff)
  with r k j show ?thesis by auto
qed

theorem Circular_peek_skip_witness:
  "\<exists>m dst' c1 c2. CircularRead example_circ [0, 0, 0] 3 = Ok (m, dst', c1) \<and>
    CircularPeek example_circ [0, 0, 0] 3 0 = Ok (m, dst', example_circ) \<and>
    CircularSkip example_circ 3 = Ok (m, c2) \<and>
    circ_inv c1 \<and> circ_inv c2 \<and> circ_contents c2 = circ_contents c1"
  using Circular_peek_skip [OF example_circ_inv, of 3 "[0, 0, 0]"] by simp

end
