(* ===== verification/AvlTree.thy ===== *)
theory AvlTree
  imports Prelude
begin

text \<open>
  The AVL tree of \<^verbatim>\<open>utilities/data_structures/avl_tree.c\<close>, which the kernel uses for file
  descriptors and futexes. A tree is a value: every node is owned by one parent, the code
  updates nodes in place while it walks back to the root, and copying a child over its parent
  and freeing the child is replacing the parent by it. Following a null child is a \<open>Fault\<close>, a
  duplicate key and a failed assertion a \<open>Panic\<close>.

  The lemmas show that insertion and deletion never reach a null pointer, keep the search order,
  the balance and the stored heights, and act as update and removal on the map the tree stands
  for. The interface \<open>keyed_map\<close> is what the clients rely on.
\<close>

section \<open>The interface of a keyed map\<close>

text \<open>
  What the clients of the tree rely on: a key that is absent can be added, adding a key twice
  stops the machine, removal takes a key away and leaves the others, and a lookup returns the
  value of a key or zero.
\<close>

datatype km_op = Add u64 u64 | Remove u64

fun km_run :: "('s \<Rightarrow> u64 \<Rightarrow> u64 \<Rightarrow> 's outcome) \<Rightarrow> ('s \<Rightarrow> u64 \<Rightarrow> (bool \<times> 's) outcome) \<Rightarrow>
    's \<Rightarrow> km_op list \<Rightarrow> 's outcome" where
  "km_run add rem s [] = Ok s"
| "km_run add rem s (Add k v # ops) = obind (add s k v) (\<lambda>s'. km_run add rem s' ops)"
| "km_run add rem s (Remove k # ops) = obind (rem s k) (\<lambda>(b, s'). km_run add rem s' ops)"

text \<open>The same operations on a map, where \<open>None\<close> is a key added twice.\<close>

fun km_spec :: "(u64 \<rightharpoonup> u64) \<Rightarrow> km_op list \<Rightarrow> (u64 \<rightharpoonup> u64) option" where
  "km_spec m [] = Some m"
| "km_spec m (Add k v # ops) = (if m k = None then km_spec (m(k \<mapsto> v)) ops else None)"
| "km_spec m (Remove k # ops) = km_spec (m(k := None)) ops"

locale keyed_map =
  fixes invar :: "'s \<Rightarrow> bool"
    and amap :: "'s \<Rightarrow> u64 \<rightharpoonup> u64"
    and add :: "'s \<Rightarrow> u64 \<Rightarrow> u64 \<Rightarrow> 's outcome"
    and rem :: "'s \<Rightarrow> u64 \<Rightarrow> (bool \<times> 's) outcome"
    and look :: "'s \<Rightarrow> u64 \<Rightarrow> u64"
  assumes add_new: "invar s \<Longrightarrow> amap s k = None \<Longrightarrow>
      \<exists>s'. add s k v = Ok s' \<and> invar s' \<and> amap s' = (amap s)(k \<mapsto> v)"
    and add_duplicate: "invar s \<Longrightarrow> amap s k \<noteq> None \<Longrightarrow> add s k v = Panic"
    and rem_result: "invar s \<Longrightarrow>
      \<exists>b s'. rem s k = Ok (b, s') \<and> invar s' \<and> amap s' = (amap s)(k := None)"
    and look_result: "invar s \<Longrightarrow> look s k = (case amap s k of None \<Rightarrow> 0 | Some v \<Rightarrow> v)"
begin

lemma refines_map:
  assumes "invar s"
  shows "case km_spec (amap s) ops of
      None \<Rightarrow> km_run add rem s ops = Panic
    | Some m \<Rightarrow> \<exists>s'. km_run add rem s ops = Ok s' \<and> invar s' \<and> amap s' = m"
  using assms
proof (induction ops arbitrary: s)
  case (Cons op ops)
  show ?case
  proof (cases op)
    case (Add k v)
    show ?thesis
    proof (cases "amap s k = None")
      case True
      with add_new [OF Cons.prems] obtain s' where
        s': "add s k v = Ok s'" "invar s'" "amap s' = (amap s)(k \<mapsto> v)" by blast
      have "km_spec (amap s) (op # ops) = km_spec (amap s') ops"
        "km_run add rem s (op # ops) = km_run add rem s' ops"
        unfolding s'(3) using Add True s'(1) by simp_all
      with Cons.IH [OF s'(2)] show ?thesis by (simp only:)
    next
      case False
      with add_duplicate [OF Cons.prems] Add show ?thesis by auto
    qed
  next
    case (Remove k)
    from rem_result [OF Cons.prems] obtain b s' where
      s': "rem s k = Ok (b, s')" "invar s'" "amap s' = (amap s)(k := None)" by blast
    have "km_spec (amap s) (op # ops) = km_spec (amap s') ops"
      "km_run add rem s (op # ops) = km_run add rem s' ops"
      unfolding s'(3) using Remove s'(1) by simp_all
    with Cons.IH [OF s'(2)] show ?thesis by (simp only:)
  qed
qed simp

text \<open>A key just added is found, and the other keys are found as before.\<close>

lemma look_after_add:
  assumes "invar s" "amap s k = None" "add s k v = Ok s'"
  shows "look s' j = (if j = k then v else look s j)"
proof -
  from add_new [OF assms(1,2), of v] assms(3) have "invar s'" "amap s' = (amap s)(k \<mapsto> v)" by simp_all
  with assms(1) show ?thesis by (simp add: look_result)
qed

lemma look_after_rem:
  assumes "invar s" "rem s k = Ok (b, s')"
  shows "look s' j = (if j = k then 0 else look s j)"
proof -
  from rem_result [OF assms(1), of k] assms(2) have "invar s'" "amap s' = (amap s)(k := None)" by simp_all
  with assms(1) show ?thesis by (simp add: look_result)
qed

end

section \<open>Trees\<close>

type_synonym avlkey = u64
type_synonym avlval = u64

datatype AVLheader =
    Null
  | Node (node_key: avlkey) (node_left: AVLheader) (node_right: AVLheader)
         (node_height: int) (node_value: avlval)

fun CALC_HEIGHT :: "AVLheader \<Rightarrow> int" where
  "CALC_HEIGHT Null = 0"
| "CALC_HEIGHT (Node k l r h v) = h"

fun CALC_BALANCE :: "AVLheader \<Rightarrow> int" where
  "CALC_BALANCE Null = 0"
| "CALC_BALANCE (Node k l r h v) = CALC_HEIGHT l - CALC_HEIGHT r"

definition AVLAllocateNode :: "avlkey \<Rightarrow> AVLheader" where
  "AVLAllocateNode key = Node key Null Null 1 0"

text \<open>A node whose height field is recomputed from its children.\<close>

definition node_of :: "avlkey \<Rightarrow> AVLheader \<Rightarrow> AVLheader \<Rightarrow> avlval \<Rightarrow> AVLheader" where
  "node_of k l r v = Node k l r (1 + max (CALC_HEIGHT l) (CALC_HEIGHT r)) v"

fun AVLRotationsRight :: "AVLheader \<Rightarrow> AVLheader outcome" where
  "AVLRotationsRight (Node yk (Node xk xl T2 xh xv) yr yh yv) =
     Ok (node_of xk xl (node_of yk T2 yr yv) xv)"
| "AVLRotationsRight _ = Fault"

fun AVLRotationsLeft :: "AVLheader \<Rightarrow> AVLheader outcome" where
  "AVLRotationsLeft (Node xk xl (Node yk T2 yr yh yv) xh xv) =
     Ok (node_of yk (node_of xk xl T2 xv) yr yv)"
| "AVLRotationsLeft _ = Fault"

fun AVLMinKeyNode :: "AVLheader \<Rightarrow> AVLheader" where
  "AVLMinKeyNode Null = Null"
| "AVLMinKeyNode (Node k l r h v) = (if l = Null then Node k l r h v else AVLMinKeyNode l)"

text \<open>Assignments to \<^verbatim>\<open>node->left\<close> and \<^verbatim>\<open>node->right\<close>, and reading the key of a child.\<close>

fun set_left :: "AVLheader \<Rightarrow> AVLheader \<Rightarrow> AVLheader outcome" where
  "set_left (Node k l r h v) l' = Ok (Node k l' r h v)"
| "set_left Null l' = Fault"

fun set_right :: "AVLheader \<Rightarrow> AVLheader \<Rightarrow> AVLheader outcome" where
  "set_right (Node k l r h v) r' = Ok (Node k l r' h v)"
| "set_right Null r' = Fault"

fun key_of :: "AVLheader \<Rightarrow> avlkey outcome" where
  "key_of Null = Fault"
| "key_of (Node k l r h v) = Ok k"

section \<open>Insertion\<close>

text \<open>Step 3 of \<^verbatim>\<open>AVLAllocateL\<close>: which rotation follows from the balance and the new key. The
  four conditions are tested in the order of the code, each reading the child's key only when
  the balance calls for it.\<close>

definition insert_rebalance :: "AVLheader \<Rightarrow> avlkey \<Rightarrow> AVLheader outcome" where
  "insert_rebalance node key =
     (let balance = CALC_BALANCE node in
      if balance > 1 then
        obind (key_of (node_left node)) (\<lambda>lk.
          if key < lk then AVLRotationsRight node
          else if key > lk then
            obind (AVLRotationsLeft (node_left node)) (\<lambda>l'.
            obind (set_left node l') AVLRotationsRight)
          else Ok node)
      else if balance < -1 then
        obind (key_of (node_right node)) (\<lambda>rk.
          if key > rk then AVLRotationsLeft node
          else if key < rk then
            obind (AVLRotationsRight (node_right node)) (\<lambda>r'.
            obind (set_right node r') AVLRotationsLeft)
          else Ok node)
      else Ok node)"

text \<open>\<open>target\<close> says whether \<^verbatim>\<open>*target\<close> is already set.\<close>

fun AVLAllocateL :: "AVLheader \<Rightarrow> avlkey \<Rightarrow> bool \<Rightarrow> (AVLheader \<times> bool) outcome" where
  "AVLAllocateL Null key target = cassert (\<not> target) (Ok (AVLAllocateNode key, True))"
| "AVLAllocateL (Node k l r h v) key target =
     (if key < k then
        obind (AVLAllocateL l key target) (\<lambda>(l', t).
        obind (insert_rebalance (node_of k l' r v) key) (\<lambda>n. Ok (n, t)))
      else if key > k then
        obind (AVLAllocateL r key target) (\<lambda>(r', t).
        obind (insert_rebalance (node_of k l r' v) key) (\<lambda>n. Ok (n, t)))
      else Panic)"

text \<open>The store \<^verbatim>\<open>target->value = value\<close> through the pointer to the node with this key.\<close>

fun write_value :: "AVLheader \<Rightarrow> avlkey \<Rightarrow> avlval \<Rightarrow> AVLheader" where
  "write_value Null key x = Null"
| "write_value (Node k l r h v) key x =
     (if key < k then Node k (write_value l key x) r h v
      else if key > k then Node k l (write_value r key x) h v
      else Node k l r h x)"

definition AVLAllocate :: "AVLheader \<Rightarrow> avlkey \<Rightarrow> avlval \<Rightarrow> AVLheader outcome" where
  "AVLAllocate root key val =
     obind (AVLAllocateL root key False) (\<lambda>(root', target).
       cassert target (Ok (write_value root' key val)))"

section \<open>Deletion\<close>

definition delete_rebalance :: "AVLheader \<Rightarrow> AVLheader outcome" where
  "delete_rebalance root =
     (let balance = CALC_BALANCE root in
      if balance > 1 \<and> CALC_BALANCE (node_left root) \<ge> 0 then AVLRotationsRight root
      else if balance > 1 \<and> CALC_BALANCE (node_left root) < 0 then
        obind (AVLRotationsLeft (node_left root)) (\<lambda>l'.
        obind (set_left root l') AVLRotationsRight)
      else if balance < -1 \<and> CALC_BALANCE (node_right root) \<le> 0 then AVLRotationsLeft root
      else if balance < -1 \<and> CALC_BALANCE (node_right root) > 0 then
        obind (AVLRotationsRight (node_right root)) (\<lambda>r'.
        obind (set_right root r') AVLRotationsLeft)
      else Ok root)"

text \<open>Steps 2 and 3 of \<^verbatim>\<open>AVLUnregisterL\<close>, on the tree that step 1 left.\<close>

fun delete_fix :: "AVLheader \<Rightarrow> AVLheader outcome" where
  "delete_fix Null = Ok Null"
| "delete_fix (Node k l r h v) = delete_rebalance (node_of k l r v)"

fun AVLUnregisterL :: "AVLheader \<Rightarrow> avlkey \<Rightarrow> avlval \<Rightarrow> (AVLheader \<times> avlval) outcome" where
  "AVLUnregisterL Null key target = Ok (Null, target)"
| "AVLUnregisterL (Node k l r h v) key target =
     obind
       (if key < k then
          obind (AVLUnregisterL l key target) (\<lambda>(l', t). Ok (Node k l' r h v, t))
        else if key > k then
          obind (AVLUnregisterL r key target) (\<lambda>(r', t). Ok (Node k l r' h v, t))
        else if l = Null \<or> r = Null then
          (let temp = (if l \<noteq> Null then l else r) in
           cassert (target = 0)
             (if temp = Null then Ok (Null, v) else Ok (temp, node_value temp)))
        else
          (let temp = AVLMinKeyNode r in
           obind (AVLUnregisterL r (node_key temp) target) (\<lambda>(r', t).
             Ok (Node (node_key temp) l r' h (node_value temp), t))))
       (\<lambda>(root, t). obind (delete_fix root) (\<lambda>n. Ok (n, t)))"

definition AVLUnregister :: "AVLheader \<Rightarrow> avlkey \<Rightarrow> (bool \<times> AVLheader) outcome" where
  "AVLUnregister root key =
     obind (AVLUnregisterL root key 0) (\<lambda>(root', target). Ok (target \<noteq> 0, root'))"

section \<open>Queries\<close>

fun AVLLookup :: "AVLheader \<Rightarrow> avlkey \<Rightarrow> avlval" where
  "AVLLookup Null key = 0"
| "AVLLookup (Node k l r h v) key =
     (if key > k then AVLLookup r key else if key < k then AVLLookup l key else v)"

fun AVLTraverse :: "AVLheader \<Rightarrow> (avlkey \<times> avlval \<Rightarrow> 's \<Rightarrow> 's) \<Rightarrow> 's \<Rightarrow> 's" where
  "AVLTraverse Null callback s = s"
| "AVLTraverse (Node k l r h v) callback s =
     AVLTraverse r callback (callback (k, v) (AVLTraverse l callback s))"

section \<open>Invariants\<close>

fun inorder :: "AVLheader \<Rightarrow> (avlkey \<times> avlval) list" where
  "inorder Null = []"
| "inorder (Node k l r h v) = inorder l @ (k, v) # inorder r"

abbreviation sorted_keys :: "(avlkey \<times> avlval) list \<Rightarrow> bool" where
  "sorted_keys ps \<equiv> sorted_wrt (\<lambda>p q. fst p < fst q) ps"

fun avl :: "AVLheader \<Rightarrow> bool" where
  "avl Null \<longleftrightarrow> True"
| "avl (Node k l r h v) \<longleftrightarrow> h = 1 + max (CALC_HEIGHT l) (CALC_HEIGHT r) \<and>
     \<bar>CALC_HEIGHT l - CALC_HEIGHT r\<bar> \<le> 1 \<and> avl l \<and> avl r"

definition avl_inv :: "AVLheader \<Rightarrow> bool" where
  "avl_inv t \<longleftrightarrow> avl t \<and> sorted_keys (inorder t)"

definition avl_map :: "AVLheader \<Rightarrow> avlkey \<rightharpoonup> avlval" where
  "avl_map t = map_of (inorder t)"

lemma CALC_HEIGHT_node_of [simp]:
  "CALC_HEIGHT (node_of k l r v) = 1 + max (CALC_HEIGHT l) (CALC_HEIGHT r)"
  by (simp add: node_of_def)

lemma node_of_simps [simp]:
  "node_left (node_of k l r v) = l" "node_right (node_of k l r v) = r"
  "node_key (node_of k l r v) = k" "inorder (node_of k l r v) = inorder l @ (k, v) # inorder r"
  "CALC_BALANCE (node_of k l r v) = CALC_HEIGHT l - CALC_HEIGHT r"
  "avl (node_of k l r v) \<longleftrightarrow> \<bar>CALC_HEIGHT l - CALC_HEIGHT r\<bar> \<le> 1 \<and> avl l \<and> avl r"
  by (simp_all add: node_of_def)

lemma avl_height_nonneg: "avl t \<Longrightarrow> 0 \<le> CALC_HEIGHT t"
  by (induction t) auto

lemma avl_height_pos: "avl (Node k l r h v) \<Longrightarrow> 1 \<le> h"
  using avl_height_nonneg by fastforce

section \<open>Insertion is correct\<close>

text \<open>
  How a subtree may come back from an insertion: at the same height, or one higher and then,
  unless it was empty, leaning towards the new key. The rotations are chosen by key comparisons,
  which is right because of this.
\<close>

fun leans :: "avlkey \<Rightarrow> AVLheader \<Rightarrow> bool" where
  "leans key Null \<longleftrightarrow> False"
| "leans key (Node k l r h v) \<longleftrightarrow>
     (key < k \<and> CALC_HEIGHT l = CALC_HEIGHT r + 1) \<or> (k < key \<and> CALC_HEIGHT r = CALC_HEIGHT l + 1)"

definition grew :: "avlkey \<Rightarrow> AVLheader \<Rightarrow> AVLheader \<Rightarrow> bool" where
  "grew key t t' \<longleftrightarrow> CALC_HEIGHT t' = CALC_HEIGHT t \<or>
     (CALC_HEIGHT t' = CALC_HEIGHT t + 1 \<and> (t = Null \<or> leans key t'))"

lemma leans_node_of [simp]:
  "leans key (node_of k l r v) \<longleftrightarrow>
     (key < k \<and> CALC_HEIGHT l = CALC_HEIGHT r + 1) \<or> (k < key \<and> CALC_HEIGHT r = CALC_HEIGHT l + 1)"
  by (simp add: node_of_def)

lemma node_of_eq: "avl (Node k l r h v) \<Longrightarrow> Node k l r h v = node_of k l r v"
  by (simp add: node_of_def)

lemma avl_nodeE:
  assumes "avl t" "1 \<le> CALC_HEIGHT t"
  obtains k l r v where "t = node_of k l r v" "avl l" "avl r" "\<bar>CALC_HEIGHT l - CALC_HEIGHT r\<bar> \<le> 1"
  using assms by (cases t) (auto simp: node_of_def)

lemma rotate_node_of [simp]:
  "AVLRotationsRight (node_of yk (node_of xk xl T2 xv) yr yv) = Ok (node_of xk xl (node_of yk T2 yr yv) xv)"
  "AVLRotationsLeft (node_of xk xl (node_of yk T2 yr yv) xv) = Ok (node_of yk (node_of xk xl T2 xv) yr yv)"
  "set_left (node_of k l r v) l' = Ok (Node k l' r (1 + max (CALC_HEIGHT l) (CALC_HEIGHT r)) v)"
  "set_right (node_of k l r v) r' = Ok (Node k l r' (1 + max (CALC_HEIGHT l) (CALC_HEIGHT r)) v)"
  "AVLRotationsRight (Node yk (node_of xk xl T2 xv) yr h yv) = Ok (node_of xk xl (node_of yk T2 yr yv) xv)"
  "AVLRotationsLeft (Node xk xl (node_of yk T2 yr yv) h xv) = Ok (node_of yk (node_of xk xl T2 xv) yr yv)"
  "key_of (node_of k l r v) = Ok k"
  by (simp_all add: node_of_def)

lemma insert_left:
  assumes "avl l'" "avl r" "avl (node_of k l r v)" "grew key l l'" "key < k"
  shows "\<exists>n. insert_rebalance (node_of k l' r v) key = Ok n \<and> avl n \<and>
    inorder n = inorder l' @ (k, v) # inorder r \<and> grew key (node_of k l r v) n"
proof (cases "CALC_HEIGHT l' \<le> CALC_HEIGHT r + 1")
  case True
  then show ?thesis
    using assms avl_height_nonneg [OF assms(2)]
    by (auto simp: insert_rebalance_def Let_def grew_def max_def node_of_def)
next
  case False
  then have h: "CALC_HEIGHT l' = CALC_HEIGHT r + 2" "CALC_HEIGHT l = CALC_HEIGHT r + 1"
    using assms(3,4) by (auto simp: grew_def)
  have r0: "0 \<le> CALC_HEIGHT r" using assms(2) by (rule avl_height_nonneg)
  then have "l \<noteq> Null" using h(2) by auto
  then have lean: "leans key l'" using assms(4) h by (auto simp: grew_def)
  from h(1) r0 obtain lk ll lr lv where l': "l' = node_of lk ll lr lv" "avl ll" "avl lr"
    using assms(1) by (auto elim: avl_nodeE)
  show ?thesis
  proof (cases "key < lk")
    case True
    then show ?thesis
      using l' lean h by (auto simp: insert_rebalance_def Let_def grew_def assms(2))
  next
    case right: False
    with lean l' have lr: "lk < key" "CALC_HEIGHT lr = CALC_HEIGHT ll + 1" by auto
    then have "1 \<le> CALC_HEIGHT lr" using avl_height_nonneg [OF l'(2)] by simp
    with l'(3) obtain mk ml mr mv where "lr = node_of mk ml mr mv" "avl ml" "avl mr"
      "\<bar>CALC_HEIGHT ml - CALC_HEIGHT mr\<bar> \<le> 1" by (auto elim: avl_nodeE)
    then show ?thesis
      using l' lr h right by (auto simp: insert_rebalance_def Let_def grew_def assms(2))
  qed
qed

lemma insert_right:
  assumes "avl l" "avl r'" "avl (node_of k l r v)" "grew key r r'" "k < key"
  shows "\<exists>n. insert_rebalance (node_of k l r' v) key = Ok n \<and> avl n \<and>
    inorder n = inorder l @ (k, v) # inorder r' \<and> grew key (node_of k l r v) n"
proof (cases "CALC_HEIGHT r' \<le> CALC_HEIGHT l + 1")
  case True
  then show ?thesis
    using assms avl_height_nonneg [OF assms(1)]
    by (auto simp: insert_rebalance_def Let_def grew_def max_def node_of_def)
next
  case False
  then have h: "CALC_HEIGHT r' = CALC_HEIGHT l + 2" "CALC_HEIGHT r = CALC_HEIGHT l + 1"
    using assms(3,4) by (auto simp: grew_def)
  have l0: "0 \<le> CALC_HEIGHT l" using assms(1) by (rule avl_height_nonneg)
  then have "r \<noteq> Null" using h(2) by auto
  then have lean: "leans key r'" using assms(4) h by (auto simp: grew_def)
  from h(1) l0 obtain rk rl rr rv where r': "r' = node_of rk rl rr rv" "avl rl" "avl rr"
    using assms(2) by (auto elim: avl_nodeE)
  show ?thesis
  proof (cases "rk < key")
    case True
    then show ?thesis
      using r' lean h by (auto simp: insert_rebalance_def Let_def grew_def assms(1))
  next
    case left: False
    with lean r' have rl: "key < rk" "CALC_HEIGHT rl = CALC_HEIGHT rr + 1" by auto
    then have "1 \<le> CALC_HEIGHT rl" using avl_height_nonneg [OF r'(3)] by simp
    with r'(2) obtain mk ml mr mv where "rl = node_of mk ml mr mv" "avl ml" "avl mr"
      "\<bar>CALC_HEIGHT ml - CALC_HEIGHT mr\<bar> \<le> 1" by (auto elim: avl_nodeE)
    then show ?thesis
      using r' rl h left by (auto simp: insert_rebalance_def Let_def grew_def assms(1))
  qed
qed

text \<open>The sequence of entries with a new key put in its place.\<close>

definition ins_entry :: "avlkey \<Rightarrow> avlval \<Rightarrow> (avlkey \<times> avlval) list \<Rightarrow> (avlkey \<times> avlval) list" where
  "ins_entry key x ps = filter (\<lambda>p. fst p < key) ps @ (key, x) # filter (\<lambda>p. key < fst p) ps"

lemma ins_entry_left:
  assumes "sorted_keys (xs @ (k, v) # ys)" "key < k"
  shows "ins_entry key x (xs @ (k, v) # ys) = ins_entry key x xs @ (k, v) # ys"
proof -
  have "filter (\<lambda>p. fst p < key) ys = []" "filter (\<lambda>p. key < fst p) ys = ys"
    using assms by (auto simp: sorted_wrt_append filter_empty_conv filter_id_conv dest: less_trans)
  then show ?thesis using assms(2) by (simp add: ins_entry_def)
qed

lemma ins_entry_right:
  assumes "sorted_keys (xs @ (k, v) # ys)" "k < key"
  shows "ins_entry key x (xs @ (k, v) # ys) = xs @ (k, v) # ins_entry key x ys"
proof -
  have "filter (\<lambda>p. key < fst p) xs = []" "filter (\<lambda>p. fst p < key) xs = xs"
    using assms by (force simp: sorted_wrt_append filter_empty_conv filter_id_conv)+
  then show ?thesis using assms(2) by (simp add: ins_entry_def)
qed

lemma AVLAllocateL_correct:
  assumes "avl t" "sorted_keys (inorder t)" "key \<notin> fst ` set (inorder t)"
  shows "\<exists>t'. AVLAllocateL t key False = Ok (t', True) \<and> avl t' \<and> grew key t t' \<and>
    inorder t' = ins_entry key 0 (inorder t)"
  using assms
proof (induction t)
  case Null
  then show ?case by (simp add: AVLAllocateNode_def grew_def ins_entry_def)
next
  case (Node k l r h v)
  have eq: "Node k l r h v = node_of k l r v" using Node.prems(1) by (rule node_of_eq)
  then have avl: "avl (node_of k l r v)" using Node.prems(1) by simp
  have srt: "sorted_keys (inorder l @ (k, v) # inorder r)" using Node.prems(2) by simp
  then have lr: "avl l" "avl r" "sorted_keys (inorder l)" "sorted_keys (inorder r)"
    using Node.prems(1) by (simp_all add: sorted_wrt_append)
  from Node.prems(3) consider "key < k" | "k < key" by fastforce
  then show ?case
  proof cases
    case 1
    with Node.IH(1) lr Node.prems(3) obtain l' where l': "AVLAllocateL l key False = Ok (l', True)"
      "avl l'" "grew key l l'" "inorder l' = ins_entry key 0 (inorder l)" by auto
    from insert_left [OF l'(2) lr(2) avl l'(3) 1] obtain n where
      "insert_rebalance (node_of k l' r v) key = Ok n" "avl n"
      "inorder n = inorder l' @ (k, v) # inorder r" "grew key (Node k l r h v) n" unfolding eq by blast
    with 1 l' ins_entry_left [OF srt 1] show ?thesis by simp
  next
    case 2
    with Node.IH(2) lr Node.prems(3) obtain r' where r': "AVLAllocateL r key False = Ok (r', True)"
      "avl r'" "grew key r r'" "inorder r' = ins_entry key 0 (inorder r)" by auto
    from insert_right [OF lr(1) r'(2) avl r'(3) 2] obtain n where
      "insert_rebalance (node_of k l r' v) key = Ok n" "avl n"
      "inorder n = inorder l @ (k, v) # inorder r'" "grew key (Node k l r h v) n" unfolding eq by blast
    with 2 r' ins_entry_right [OF srt 2] show ?thesis by (simp add: less_not_sym)
  qed
qed

lemma write_value_keeps [simp]:
  "CALC_HEIGHT (write_value t key x) = CALC_HEIGHT t" "avl (write_value t key x) = avl t"
proof -
  show h: "CALC_HEIGHT (write_value t key x) = CALC_HEIGHT t" for t by (cases t) auto
  show "avl (write_value t key x) = avl t" by (induction t) (auto simp: h)
qed

definition set_entry :: "avlkey \<Rightarrow> avlval \<Rightarrow> (avlkey \<times> avlval) list \<Rightarrow> (avlkey \<times> avlval) list" where
  "set_entry key x ps = map (\<lambda>(k, v). (k, if k = key then x else v)) ps"

lemma set_entry_other: "key \<notin> fst ` set ps \<Longrightarrow> set_entry key x ps = ps"
  unfolding set_entry_def by (rule map_idI) (force split: prod.split)

lemma inorder_write_value:
  "sorted_keys (inorder t) \<Longrightarrow> inorder (write_value t key x) = set_entry key x (inorder t)"
proof (induction t)
  case (Node k l r h v)
  have srt: "sorted_keys (inorder l)" "sorted_keys (inorder r)"
    "\<And>p. p \<in> set (inorder l) \<Longrightarrow> fst p < k" "\<And>p. p \<in> set (inorder r) \<Longrightarrow> k < fst p"
    using Node.prems by (auto simp: sorted_wrt_append)
  have "key \<le> k \<Longrightarrow> set_entry key x (inorder r) = inorder r"
    using srt(4) by (intro set_entry_other) force
  moreover have "k \<le> key \<Longrightarrow> set_entry key x (inorder l) = inorder l"
    using srt(3) by (intro set_entry_other) force
  ultimately show ?case
    using Node.IH srt(1,2) by (cases key k rule: linorder_cases) (auto simp: set_entry_def)
qed (simp add: set_entry_def)

lemma sorted_ins_entry: "sorted_keys ps \<Longrightarrow> sorted_keys (ins_entry key x ps)"
  by (auto simp: ins_entry_def sorted_wrt_append sorted_wrt_filter dest: less_trans)

lemma set_entry_ins_entry:
  "set_entry key x (ins_entry key y ps) = ins_entry key x ps"
proof -
  have "set_entry key x (filter (\<lambda>p. fst p < key) ps) = filter (\<lambda>p. fst p < key) ps"
    "set_entry key x (filter (\<lambda>p. key < fst p) ps) = filter (\<lambda>p. key < fst p) ps"
    by (rule set_entry_other; auto)+
  then show ?thesis by (simp add: set_entry_def ins_entry_def)
qed

lemma map_of_ins_entry:
  assumes "sorted_keys ps" "key \<notin> fst ` set ps"
  shows "map_of (ins_entry key x ps) = (map_of ps)(key \<mapsto> x)"
  using assms
proof (induction ps)
  case (Cons p ps)
  show ?case
  proof (cases "fst p < key")
    case True
    then have "ins_entry key x (p # ps) = p # ins_entry key x ps" by (simp add: ins_entry_def)
    then show ?thesis using Cons True by (cases p) (auto simp: fun_eq_iff)
  next
    case False
    with Cons.prems have k: "key < fst p" by auto
    then have "filter (\<lambda>p. fst p < key) (p # ps) = []" "filter (\<lambda>p. key < fst p) (p # ps) = p # ps"
      using Cons.prems(1) by (auto simp: filter_empty_conv filter_id_conv dest: less_trans)
    then have "ins_entry key x (p # ps) = (key, x) # p # ps" by (simp only: ins_entry_def append_Nil)
    then show ?thesis by (cases p) (auto simp: fun_eq_iff)
  qed
qed (simp add: ins_entry_def)

lemma AVLAllocate_new:
  assumes "avl_inv t" "key \<notin> dom (avl_map t)"
  shows "\<exists>t'. AVLAllocate t key x = Ok t' \<and> avl_inv t' \<and> avl_map t' = (avl_map t)(key \<mapsto> x)"
proof -
  have srt: "avl t" "sorted_keys (inorder t)" and new: "key \<notin> fst ` set (inorder t)"
    using assms by (auto simp: avl_inv_def avl_map_def dom_map_of_conv_image_fst)
  from AVLAllocateL_correct [OF srt new] obtain t1 where t1:
    "AVLAllocateL t key False = Ok (t1, True)" "avl t1" "inorder t1 = ins_entry key 0 (inorder t)"
    by blast
  have s1: "sorted_keys (inorder t1)" using t1(3) srt(2) by (simp add: sorted_ins_entry)
  let ?t = "write_value t1 key x"
  have io: "inorder ?t = ins_entry key x (inorder t)"
    using inorder_write_value [OF s1] t1(3) by (simp add: set_entry_ins_entry)
  have "AVLAllocate t key x = Ok ?t" using t1(1) by (simp add: AVLAllocate_def)
  moreover have "avl_inv ?t" using t1(2) srt(2) io by (simp add: avl_inv_def sorted_ins_entry)
  moreover have "avl_map ?t = (avl_map t)(key \<mapsto> x)"
    using map_of_ins_entry [OF srt(2) new] io by (simp add: avl_map_def)
  ultimately show ?thesis by blast
qed

lemma AVLAllocateL_duplicate:
  "avl t \<Longrightarrow> sorted_keys (inorder t) \<Longrightarrow> key \<in> fst ` set (inorder t) \<Longrightarrow> AVLAllocateL t key b = Panic"
proof (induction t)
  case (Node k l r h v)
  have srt: "sorted_keys (inorder l)" "sorted_keys (inorder r)"
    "\<And>p. p \<in> set (inorder l) \<Longrightarrow> fst p < k" "\<And>p. p \<in> set (inorder r) \<Longrightarrow> k < fst p"
    using Node.prems by (auto simp: sorted_wrt_append)
  show ?case
  proof (cases key k rule: linorder_cases)
    case less
    then have "key \<in> fst ` set (inorder l)" using Node.prems(3) srt(4) by force
    then show ?thesis using Node less srt by simp
  next
    case greater
    then have "key \<in> fst ` set (inorder r)" using Node.prems(3) srt(3) by force
    then show ?thesis using Node greater srt by (simp add: less_not_sym)
  qed simp
qed simp

lemma AVLLookup_map:
  assumes "sorted_keys (inorder t)"
  shows "AVLLookup t key = (case avl_map t key of Some v \<Rightarrow> v | None \<Rightarrow> 0)"
  using assms unfolding avl_map_def
proof (induction t)
  case (Node k l r h v)
  have srt: "sorted_keys (inorder l)" "sorted_keys (inorder r)"
    "\<And>p. p \<in> set (inorder l) \<Longrightarrow> fst p < k" "\<And>p. p \<in> set (inorder r) \<Longrightarrow> k < fst p"
    using Node.prems by (auto simp: sorted_wrt_append)
  have "key \<le> k \<Longrightarrow> map_of (inorder r) key = None"
    using srt(4) by (force simp: map_of_eq_None_iff)
  moreover have "k \<le> key \<Longrightarrow> map_of (inorder l) key = None"
    using srt(3) by (force simp: map_of_eq_None_iff)
  ultimately show ?case
    using Node.IH srt(1,2) by (cases key k rule: linorder_cases)
      (auto simp: map_add_def split: option.splits)
qed simp

section \<open>Deletion is correct\<close>

lemma delete_rebalance_correct:
  assumes "avl l" "avl r" "\<bar>CALC_HEIGHT l - CALC_HEIGHT r\<bar> \<le> 2"
  shows "\<exists>n. delete_rebalance (node_of k l r v) = Ok n \<and> avl n \<and>
    inorder n = inorder l @ (k, v) # inorder r \<and>
    (CALC_HEIGHT n = 1 + max (CALC_HEIGHT l) (CALC_HEIGHT r) \<or>
     \<bar>CALC_HEIGHT l - CALC_HEIGHT r\<bar> = 2 \<and> CALC_HEIGHT n = max (CALC_HEIGHT l) (CALC_HEIGHT r))"
proof -
  note nn = avl_height_nonneg [OF assms(1)] avl_height_nonneg [OF assms(2)]
  consider (even) "\<bar>CALC_HEIGHT l - CALC_HEIGHT r\<bar> \<le> 1" | (left) "CALC_HEIGHT l = CALC_HEIGHT r + 2"
    | (right) "CALC_HEIGHT r = CALC_HEIGHT l + 2"
    using assms(3) by linarith
  then show ?thesis
  proof cases
    case even
    then show ?thesis using assms by (auto simp: delete_rebalance_def Let_def)
  next
    case left
    with nn assms(1) obtain lk ll lr lv where l: "l = node_of lk ll lr lv" "avl ll" "avl lr"
      "\<bar>CALC_HEIGHT ll - CALC_HEIGHT lr\<bar> \<le> 1" by (auto elim: avl_nodeE)
    show ?thesis
    proof (cases "CALC_HEIGHT ll \<ge> CALC_HEIGHT lr")
      case True
      then show ?thesis using l left assms(2) by (auto simp: delete_rebalance_def Let_def)
    next
      case False
      then have "1 \<le> CALC_HEIGHT lr" using avl_height_nonneg [OF l(2)] by simp
      with l(3) obtain mk ml mr mv where "lr = node_of mk ml mr mv" "avl ml" "avl mr"
        "\<bar>CALC_HEIGHT ml - CALC_HEIGHT mr\<bar> \<le> 1" by (auto elim: avl_nodeE)
      then show ?thesis using l left False assms(2) by (auto simp: delete_rebalance_def Let_def)
    qed
  next
    case right
    with nn assms(2) obtain rk rl rr rv where r: "r = node_of rk rl rr rv" "avl rl" "avl rr"
      "\<bar>CALC_HEIGHT rl - CALC_HEIGHT rr\<bar> \<le> 1" by (auto elim: avl_nodeE)
    show ?thesis
    proof (cases "CALC_HEIGHT rl \<le> CALC_HEIGHT rr")
      case True
      then show ?thesis using r right assms(1) by (auto simp: delete_rebalance_def Let_def)
    next
      case False
      then have "1 \<le> CALC_HEIGHT rl" using avl_height_nonneg [OF r(3)] by simp
      with r(2) obtain mk ml mr mv where "rl = node_of mk ml mr mv" "avl ml" "avl mr"
        "\<bar>CALC_HEIGHT ml - CALC_HEIGHT mr\<bar> \<le> 1" by (auto elim: avl_nodeE)
      then show ?thesis using r right False assms(1) by (auto simp: delete_rebalance_def Let_def)
    qed
  qed
qed

definition shrank :: "AVLheader \<Rightarrow> AVLheader \<Rightarrow> bool" where
  "shrank t t' \<longleftrightarrow> CALC_HEIGHT t' = CALC_HEIGHT t \<or> CALC_HEIGHT t' = CALC_HEIGHT t - 1"

text \<open>A node one of whose subtrees may have shrunk.\<close>

lemma delete_fix_correct:
  assumes "avl (node_of k l r v)" "avl l'" "avl r'"
    and "shrank l l' \<and> r' = r \<or> shrank r r' \<and> l' = l"
  shows "\<exists>n. delete_fix (Node k' l' r' h v') = Ok n \<and> avl n \<and>
    inorder n = inorder l' @ (k', v') # inorder r' \<and> shrank (node_of k l r v) n"
proof -
  have "\<bar>CALC_HEIGHT l' - CALC_HEIGHT r'\<bar> \<le> 2" using assms(1,4) by (auto simp: shrank_def)
  from delete_rebalance_correct [OF assms(2,3) this, of k' v'] obtain n where
    "delete_rebalance (node_of k' l' r' v') = Ok n" "avl n"
    "inorder n = inorder l' @ (k', v') # inorder r'"
    "CALC_HEIGHT n = 1 + max (CALC_HEIGHT l') (CALC_HEIGHT r') \<or>
     \<bar>CALC_HEIGHT l' - CALC_HEIGHT r'\<bar> = 2 \<and> CALC_HEIGHT n = max (CALC_HEIGHT l') (CALC_HEIGHT r')"
    by blast
  then show ?thesis using assms(1,4) by (auto simp: shrank_def)
qed

lemma AVLMinKeyNode_hd:
  "t \<noteq> Null \<Longrightarrow> (node_key (AVLMinKeyNode t), node_value (AVLMinKeyNode t)) = hd (inorder t)"
proof (induction t)
  case (Node k l r h v)
  have "l \<noteq> Null \<Longrightarrow> inorder l \<noteq> []" by (cases l) simp_all
  then show ?case using Node by (auto simp: hd_append)
qed simp

abbreviation del_entry :: "avlkey \<Rightarrow> (avlkey \<times> avlval) list \<Rightarrow> (avlkey \<times> avlval) list" where
  "del_entry key ps \<equiv> filter (\<lambda>p. fst p \<noteq> key) ps"

lemma del_entry_absent: "key \<notin> fst ` set ps \<Longrightarrow> del_entry key ps = ps"
  by (rule filter_True) force

lemma del_entry_hd:
  assumes "sorted_keys ps" "ps \<noteq> []" shows "hd ps # del_entry (fst (hd ps)) ps = ps"
proof (cases ps)
  case (Cons p qs)
  then have "del_entry (fst p) qs = qs" using assms(1) by (intro del_entry_absent) force
  then show ?thesis using Cons by simp
qed (use assms in simp)

definition removed :: "avlkey \<Rightarrow> AVLheader \<Rightarrow> AVLheader \<Rightarrow> avlval \<Rightarrow> bool" where
  "removed key t t' x \<longleftrightarrow> avl t' \<and> shrank t t' \<and> inorder t' = del_entry key (inorder t) \<and>
     (if key \<in> fst ` set (inorder t) then x \<in> snd ` set (inorder t) else x = 0)"

lemma removed_left:
  assumes "removed key l l' x" "key \<noteq> k" "key \<notin> fst ` set (inorder r)"
    and "avl n" "shrank (Node k l r h v) n" "inorder n = inorder l' @ (k, v) # inorder r"
  shows "removed key (Node k l r h v) n x"
  using assms by (simp add: removed_def del_entry_absent image_Un split: if_splits)

lemma removed_right:
  assumes "removed key r r' x" "key \<noteq> k" "key \<notin> fst ` set (inorder l)"
    and "avl n" "shrank (Node k l r h v) n" "inorder n = inorder l @ (k, v) # inorder r'"
  shows "removed key (Node k l r h v) n x"
  using assms by (simp add: removed_def del_entry_absent image_Un split: if_splits)

lemma removed_root:
  assumes "key \<notin> fst ` set (inorder l)" "key \<notin> fst ` set (inorder r)"
    and "avl n" "shrank (Node key l r h v) n" "inorder n = inorder l @ inorder r"
    and "x = v \<or> x \<in> snd ` set (inorder l @ inorder r)"
  shows "removed key (Node key l r h v) n x"
  using assms by (auto simp: removed_def del_entry_absent image_Un)

lemma node_value_in: "t \<noteq> Null \<Longrightarrow> node_value t \<in> snd ` set (inorder t)"
  by (cases t) auto

lemma shrank_child:
  "avl (Node k l r h v) \<Longrightarrow> l = Null \<Longrightarrow> shrank (Node k l r h v) r"
  "avl (Node k l r h v) \<Longrightarrow> r = Null \<Longrightarrow> shrank (Node k l r h v) l"
  using avl_height_nonneg by (fastforce simp: shrank_def)+

lemma delete_fix_avl: "avl t \<Longrightarrow> delete_fix t = Ok t"
  by (cases t) (auto simp: delete_rebalance_def Let_def node_of_def)

lemma AVLUnregisterL_correct:
  assumes "avl t" "sorted_keys (inorder t)"
  shows "\<exists>t' x. AVLUnregisterL t key 0 = Ok (t', x) \<and> removed key t t' x"
  using assms
proof (induction t arbitrary: key)
  case Null
  then show ?case by (simp add: removed_def shrank_def)
next
  case (Node k l r h v)
  have eq: "Node k l r h v = node_of k l r v" using Node.prems(1) by (rule node_of_eq)
  then have avl: "avl (node_of k l r v)" using Node.prems(1) by simp
  have lr: "avl l" "avl r" using Node.prems(1) by simp_all
  have srt: "sorted_keys (inorder l)" "sorted_keys (inorder r)"
    "\<And>p. p \<in> set (inorder l) \<Longrightarrow> fst p < k" "\<And>p. p \<in> set (inorder r) \<Longrightarrow> k < fst p"
    using Node.prems(2) by (auto simp: sorted_wrt_append)
  have notl: "k \<le> key \<Longrightarrow> key \<notin> fst ` set (inorder l)" using srt(3) by force
  have notr: "key \<le> k \<Longrightarrow> key \<notin> fst ` set (inorder r)" using srt(4) by force
  consider "key < k" | "k < key" | "key = k" "l = Null \<or> r = Null" | "key = k" "l \<noteq> Null" "r \<noteq> Null"
    by fastforce
  then show ?case
  proof cases
    case 1
    from Node.IH(1) [OF lr(1) srt(1), of key] obtain l' x where
      l': "AVLUnregisterL l key 0 = Ok (l', x)" "removed key l l' x" by blast
    have "avl l'" "shrank l l'" using l'(2) by (simp_all add: removed_def)
    with delete_fix_correct [OF avl _ lr(2), of l' k h v] obtain n where
      "delete_fix (Node k l' r h v) = Ok n" "avl n" "inorder n = inorder l' @ (k, v) # inorder r"
      "shrank (Node k l r h v) n" unfolding eq by blast
    with removed_left [OF l'(2)] 1 notr have "removed key (Node k l r h v) n x" by simp
    with \<open>delete_fix _ = _\<close> 1 l'(1) show ?thesis by simp
  next
    case 2
    from Node.IH(2) [OF lr(2) srt(2), of key] obtain r' x where
      r': "AVLUnregisterL r key 0 = Ok (r', x)" "removed key r r' x" by blast
    have "avl r'" "shrank r r'" using r'(2) by (simp_all add: removed_def)
    with delete_fix_correct [OF avl lr(1), of r' k h v] obtain n where
      "delete_fix (Node k l r' h v) = Ok n" "avl n" "inorder n = inorder l @ (k, v) # inorder r'"
      "shrank (Node k l r h v) n" unfolding eq by blast
    with removed_right [OF r'(2)] 2 notl have "removed key (Node k l r h v) n x" by simp
    with \<open>delete_fix _ = _\<close> 2 r'(1) show ?thesis by (simp add: less_not_sym)
  next
    case 3
    let ?t = "if l \<noteq> Null then l else r"
    have "removed key (Node k l r h v) ?t (if ?t = Null then v else node_value ?t)"
      unfolding 3(1)
    proof (rule removed_root)
      show "shrank (Node k l r h v) ?t" using 3(2) shrank_child [OF Node.prems(1)] by auto
    qed (use 3 lr notl notr node_value_in in auto)
    then show ?thesis using 3 lr by (auto simp: delete_fix_avl Let_def)
  next
    case 4
    let ?m = "AVLMinKeyNode r"
    have io: "inorder r \<noteq> []" using 4(3) by (cases r) simp_all
    have m: "(node_key ?m, node_value ?m) = hd (inorder r)" using 4(3) by (rule AVLMinKeyNode_hd)
    then have mk: "node_key ?m = fst (hd (inorder r))" by (metis fst_conv)
    from Node.IH(2) [OF lr(2) srt(2), of "node_key ?m"] obtain r' x where
      r': "AVLUnregisterL r (node_key ?m) 0 = Ok (r', x)" "removed (node_key ?m) r r' x" by blast
    have "avl r'" "shrank r r'" using r'(2) by (simp_all add: removed_def)
    with delete_fix_correct [OF avl lr(1), of r' "node_key ?m" h "node_value ?m"] obtain n where
      n: "delete_fix (Node (node_key ?m) l r' h (node_value ?m)) = Ok n" "avl n"
      "inorder n = inorder l @ hd (inorder r) # inorder r'"
      "shrank (Node k l r h v) n" unfolding eq m by blast
    have "inorder n = inorder l @ inorder r"
      using n(3) r'(2) mk del_entry_hd [OF srt(2) io] by (simp add: removed_def)
    moreover have "x \<in> snd ` set (inorder r)"
      using r'(2) mk io by (auto simp: removed_def split: if_splits)
    ultimately have "removed key (Node k l r h v) n x"
      using 4 n notl notr unfolding 4(1) by (intro removed_root) auto
    then show ?thesis using 4 r'(1) n(1) by (auto simp: Let_def)
  qed
qed

section \<open>The tree is a keyed map\<close>

lemma map_of_del_entry: "map_of (del_entry key ps) = (map_of ps)(key := None)"
  by (induction ps) (auto simp: fun_eq_iff)

lemma AVLUnregister_correct:
  assumes "avl_inv t"
  shows "\<exists>b t'. AVLUnregister t key = Ok (b, t') \<and> avl_inv t' \<and> avl_map t' = (avl_map t)(key := None) \<and>
    (0 \<notin> ran (avl_map t) \<longrightarrow> b = (key \<in> dom (avl_map t)))"
proof -
  have srt: "avl t" "sorted_keys (inorder t)" using assms by (simp_all add: avl_inv_def)
  from AVLUnregisterL_correct [OF srt, of key] obtain t' x where
    t': "AVLUnregisterL t key 0 = Ok (t', x)" "removed key t t' x" by blast
  have "distinct (map fst (inorder t))"
    using srt(2) strict_sorted_iff [of "map fst (inorder t)"] by (simp add: sorted_wrt_map)
  then have ran: "ran (avl_map t) = snd ` set (inorder t)"
    by (simp add: avl_map_def ran_distinct)
  have dom: "dom (avl_map t) = fst ` set (inorder t)"
    by (simp add: avl_map_def dom_map_of_conv_image_fst)
  have "avl_inv t'" "avl_map t' = (avl_map t)(key := None)"
    using t'(2) srt(2) by (simp_all add: removed_def avl_inv_def avl_map_def map_of_del_entry sorted_wrt_filter)
  moreover have "0 \<notin> ran (avl_map t) \<longrightarrow> (x \<noteq> 0) = (key \<in> dom (avl_map t))"
    using t'(2) unfolding ran dom by (auto simp: removed_def split: if_splits)
  ultimately show ?thesis using t'(1) by (simp add: AVLUnregister_def)
qed

interpretation avl: keyed_map avl_inv avl_map AVLAllocate AVLUnregister AVLLookup
proof (unfold_locales, goal_cases)
  case (1 s k v)
  then show ?case by (intro AVLAllocate_new) (auto simp: domIff)
next
  case (2 s k v)
  then have "k \<in> fst ` set (inorder s)" by (simp add: avl_map_def map_of_eq_None_iff)
  with 2(1) have "AVLAllocateL s k False = Panic"
    by (intro AVLAllocateL_duplicate) (simp_all add: avl_inv_def)
  then show ?case by (simp add: AVLAllocate_def)
next
  case (3 s k)
  then show ?case using AVLUnregister_correct by blast
next
  case (4 s k)
  then show ?case by (simp add: AVLLookup_map avl_inv_def)
qed

lemma avl_size:
  assumes "avl t" shows "2 ^ (nat (CALC_HEIGHT t) div 2) \<le> length (inorder t) + 1"
  using assms
proof (induction t)
  case (Node k l r h v)
  define a b where "a = nat (CALC_HEIGHT l)" and "b = nat (CALC_HEIGHT r)"
  have nn: "0 \<le> CALC_HEIGHT l" "0 \<le> CALC_HEIGHT r" using Node.prems avl_height_nonneg by auto
  have h: "nat h = 1 + max a b" and d: "a \<le> b + 1" "b \<le> a + 1"
    using Node.prems nn by (auto simp: a_def b_def)
  have "(2 :: nat) ^ ((1 + max a b) div 2) \<le> 2 ^ (a div 2) + 2 ^ (b div 2)"
  proof (cases "max a b = 0")
    case False
    then have e: "(1 + max a b) div 2 = Suc ((max a b - 1) div 2)" by (cases "max a b") simp_all
    have "(max a b - 1) div 2 \<le> a div 2" "(max a b - 1) div 2 \<le> b div 2"
      using d by (intro div_le_mono; simp)+
    then have "(2 :: nat) ^ ((max a b - 1) div 2) \<le> 2 ^ (a div 2)"
      "(2 :: nat) ^ ((max a b - 1) div 2) \<le> 2 ^ (b div 2)" by (simp_all add: power_increasing)
    then show ?thesis unfolding e power_Suc by linarith
  qed simp
  with Node h show ?case by (simp add: a_def b_def)
qed simp

lemma AVLTraverse_fold: "AVLTraverse t f s = fold f (inorder t) s"
  by (induction t arbitrary: s) simp_all

section \<open>Properties\<close>

text \<open>C4: the tree refines a map. From a well-formed tree every sequence of \<^verbatim>\<open>AVLAllocate\<close> and
  \<^verbatim>\<open>AVLUnregister\<close> calls ends in a tree that is again ordered, balanced and correctly
  annotated with heights and stands for the map the same updates and removals give; the only way
  to stop is the \<^verbatim>\<open>panic()\<close> on a key added twice.\<close>

theorem AVL_refines_map:
  assumes "avl_inv t"
  shows "case km_spec (avl_map t) ops of
      None \<Rightarrow> km_run AVLAllocate AVLUnregister t ops = Panic
    | Some m \<Rightarrow> \<exists>t'. km_run AVLAllocate AVLUnregister t ops = Ok t' \<and> avl_inv t' \<and> avl_map t' = m"
  using assms by (rule avl.refines_map)

lemma avl_inv_Null: "avl_inv Null"
  by (simp add: avl_inv_def)

theorem AVL_refines_map_witness:
  "\<exists>t'. km_run AVLAllocate AVLUnregister Null [Add 1 10, Add 2 20, Add 3 30, Remove 2] = Ok t' \<and>
    avl_inv t' \<and> avl_map t' = [1 \<mapsto> 10, 3 \<mapsto> 30]"
  using AVL_refines_map [OF avl_inv_Null, of "[Add 1 10, Add 2 20, Add 3 30, Remove 2]"]
  by (simp add: avl_map_def fun_upd_twist)

text \<open>C14: \<^verbatim>\<open>AVLUnregister\<close> removes its key and, as long as no stored value is zero, its result
  tells whether the key was there. (It returns the value of the node it frees, which after a
  copy is a neighbour of the removed key.)\<close>

theorem AVLUnregister_result:
  assumes "avl_inv t" "0 \<notin> ran (avl_map t)"
  shows "\<exists>t'. AVLUnregister t key = Ok (key \<in> dom (avl_map t), t') \<and> avl_inv t' \<and>
    AVLLookup t' key = 0 \<and> (\<forall>j. j \<noteq> key \<longrightarrow> AVLLookup t' j = AVLLookup t j)"
proof -
  obtain b t' where t': "AVLUnregister t key = Ok (b, t')" "avl_inv t'" "b = (key \<in> dom (avl_map t))"
    using AVLUnregister_correct [OF assms(1), of key] assms(2) by blast
  with avl.look_after_rem [OF assms(1) t'(1)] show ?thesis by simp
qed

definition example_avl :: AVLheader where
  "example_avl = Node 5 (Node 3 Null Null 1 30) (Node 8 Null (Node 9 Null Null 1 90) 2 80) 3 50"

lemma example_avl_inv: "avl_inv example_avl" "0 \<notin> ran (avl_map example_avl)"
proof -
  show "avl_inv example_avl" by (simp add: avl_inv_def example_avl_def)
  have "avl_map example_avl = [9 \<mapsto> 90, 8 \<mapsto> 80, 5 \<mapsto> 50, 3 \<mapsto> 30]"
    by (simp add: avl_map_def example_avl_def)
  then show "0 \<notin> ran (avl_map example_avl)" by (auto simp: ran_def split: if_splits)
qed

theorem AVLUnregister_result_witness:
  "\<exists>t'. AVLUnregister example_avl 5 = Ok (5 \<in> dom (avl_map example_avl), t') \<and> avl_inv t' \<and>
    AVLLookup t' 5 = 0 \<and> (\<forall>j. j \<noteq> 5 \<longrightarrow> AVLLookup t' j = AVLLookup example_avl j)"
  using AVLUnregister_result [OF example_avl_inv, of 5] .

text \<open>C15: the height of a well-formed tree is logarithmic: a tree of height \<open>h\<close> holds at least
  \<open>2 ^ (h div 2) - 1\<close> entries, so the recursion of the operations, which runs on the kernel
  stack, stays shallow. A traversal visits the entries in ascending key order, each once.\<close>

theorem AVL_height_traverse:
  assumes "avl_inv t"
  shows "2 ^ (nat (CALC_HEIGHT t) div 2) \<le> length (AVLTraverse t (\<lambda>p ps. ps @ [p]) []) + 1 \<and>
    sorted_keys (AVLTraverse t (\<lambda>p ps. ps @ [p]) []) \<and>
    map_of (AVLTraverse t (\<lambda>p ps. ps @ [p]) []) = avl_map t"
proof -
  have "fold (\<lambda>p ps. ps @ [p]) xs ys = ys @ xs" for xs ys :: "(avlkey \<times> avlval) list"
    by (induction xs arbitrary: ys) simp_all
  then have "AVLTraverse t (\<lambda>p ps. ps @ [p]) [] = inorder t" by (simp add: AVLTraverse_fold)
  then show ?thesis using avl_size assms by (simp add: avl_inv_def avl_map_def)
qed

theorem AVL_height_traverse_witness:
  "2 ^ (nat (CALC_HEIGHT example_avl) div 2) \<le> length (AVLTraverse example_avl (\<lambda>p ps. ps @ [p]) []) + 1 \<and>
    sorted_keys (AVLTraverse example_avl (\<lambda>p ps. ps @ [p]) []) \<and>
    map_of (AVLTraverse example_avl (\<lambda>p ps. ps @ [p]) []) = avl_map example_avl"
  by (rule AVL_height_traverse [OF example_avl_inv(1)])

end
