(* ===== verification/LinkedList.thy ===== *)
theory LinkedList
  imports Prelude Spinlock
begin

text \<open>
  The singly linked lists of \<^verbatim>\<open>utilities/data_structures/linked_list.c\<close>, over an explicit heap
  that maps the address of a live object to its \<^verbatim>\<open>next\<close> pointer; address 0 is the null
  pointer, and reading an object that is not live is a \<open>Fault\<close>. Walking a cyclic list does not
  end, so the walks are partial functions whose value \<open>None\<close> is a walk that never returns.

  The lemmas show that on a well-formed list every operation returns and acts on the sequence of
  objects: append, push to the front, removal, search, traversal and destruction.
\<close>

section \<open>Heap and list header\<close>

type_synonym ptr = u64
type_synonym ll_heap = "ptr \<rightharpoonup> ptr"

definition LL_SIGNATURE_1 :: u64 where "LL_SIGNATURE_1 = 0xa8ae0a9b148db421"
definition LL_SIGNATURE_2 :: u64 where "LL_SIGNATURE_2 = 0x7c9bfa1f171be6da"

record LLcontrol =
  signature1 :: u64
  signature2 :: u64
  structSize :: u32
  LOCK_LL :: Spinlock
  firstObject :: ptr

definition LinkedListNormal :: "LLcontrol \<Rightarrow> u32 \<Rightarrow> 'a outcome \<Rightarrow> 'a outcome" where
  "LinkedListNormal ll sz k =
     cassert (signature1 ll = LL_SIGNATURE_1)
     (cassert (signature2 ll = LL_SIGNATURE_2) (cassert (structSize ll = sz) k))"

definition deref :: "ll_heap \<Rightarrow> ptr \<Rightarrow> ptr outcome" where
  "deref h p = (if p = 0 then Fault else case h p of None \<Rightarrow> Fault | Some n \<Rightarrow> Ok n)"

text \<open>Sequencing after a walk, which may not return.\<close>

definition wbind :: "'a outcome option \<Rightarrow> ('a \<Rightarrow> 'b outcome) \<Rightarrow> 'b outcome option" where
  "wbind m f = map_option (\<lambda>r. obind r f) m"

section \<open>Operations\<close>

definition LinkedListInit :: "LLcontrol \<Rightarrow> u32 \<Rightarrow> LLcontrol outcome" where
  "LinkedListInit ll sz =
     cassert (signature1 ll \<noteq> LL_SIGNATURE_1) (cassert (signature2 ll \<noteq> LL_SIGNATURE_2)
       (Ok \<lparr>signature1 = LL_SIGNATURE_1, signature2 = LL_SIGNATURE_2, structSize = sz,
            LOCK_LL = False, firstObject = 0\<rparr>))"

text \<open>The walk of \<^verbatim>\<open>LinkedListAllocate\<close> from a non-null object to the last one.\<close>

partial_function (option) walk_last :: "ll_heap \<Rightarrow> ptr \<Rightarrow> ptr outcome option" where
  "walk_last h cur =
     (case h cur of
        None \<Rightarrow> Some Fault
      | Some n \<Rightarrow> if n = 0 then Some (Ok cur) else walk_last h n)"

text \<open>\<open>target\<close> is the object \<^verbatim>\<open>malloc\<close> returned.\<close>

definition LinkedListAllocate ::
    "LLcontrol \<Rightarrow> u32 \<Rightarrow> ptr \<Rightarrow> ll_heap \<Rightarrow> (ptr \<times> LLcontrol \<times> ll_heap) outcome option" where
  "LinkedListAllocate ll sz target h =
     (if LinkedListNormal ll sz (Ok ()) \<noteq> Ok () then Some Panic
      else if target = 0 then Some Fault
      else
       (let h1 = h(target \<mapsto> 0) in
        if firstObject ll = 0
        then Some (Ok (target, ll\<lparr>firstObject := target\<rparr>, h1))
        else wbind (walk_last h1 (firstObject ll)) (\<lambda>cur.
               Ok (target, ll, (h1(cur \<mapsto> target))(target \<mapsto> 0)))))"

text \<open>The walk of \<^verbatim>\<open>LinkedListUnregister\<close> to the object before the target.\<close>

partial_function (option) walk_prev :: "ll_heap \<Rightarrow> ptr \<Rightarrow> ptr \<Rightarrow> ptr outcome option" where
  "walk_prev h target cur =
     (if cur = 0 then Some (Ok 0)
      else case h cur of
        None \<Rightarrow> Some Fault
      | Some n \<Rightarrow> if n \<noteq> 0 \<and> n = target then Some (Ok cur) else walk_prev h target n)"

definition LinkedListUnregister ::
    "LLcontrol \<Rightarrow> u32 \<Rightarrow> ptr \<Rightarrow> ll_heap \<Rightarrow> (bool \<times> LLcontrol \<times> ll_heap) outcome option" where
  "LinkedListUnregister ll sz LLtarget h =
     (if LinkedListNormal ll sz (Ok ()) \<noteq> Ok () then Some Panic
      else wbind (walk_prev h LLtarget (firstObject ll)) (\<lambda>cur.
        if firstObject ll = LLtarget
        then obind (deref h (firstObject ll)) (\<lambda>n. Ok (True, ll\<lparr>firstObject := n\<rparr>, h))
        else if cur = 0 then Ok (False, ll, h)
        else obind (deref h cur) (\<lambda>target.
             obind (deref h target) (\<lambda>n. Ok (True, ll, h(cur \<mapsto> n))))))"

definition LinkedListRemove ::
    "LLcontrol \<Rightarrow> u32 \<Rightarrow> ptr \<Rightarrow> ll_heap \<Rightarrow> (bool \<times> LLcontrol \<times> ll_heap) outcome option" where
  "LinkedListRemove ll sz LLtarget h =
     wbind (LinkedListUnregister ll sz LLtarget h) (\<lambda>(res, ll', h').
       Ok (res, ll', h'(LLtarget := None)))"

definition LinkedListPushFrontUnsafe ::
    "LLcontrol \<Rightarrow> ptr \<Rightarrow> ll_heap \<Rightarrow> (LLcontrol \<times> ll_heap) outcome" where
  "LinkedListPushFrontUnsafe ll LLtarget h =
     (if firstObject ll = 0
      then obind (deref h LLtarget) (\<lambda>n. cassert (n = 0) (Ok (ll\<lparr>firstObject := LLtarget\<rparr>, h)))
      else obind (deref h LLtarget) (\<lambda>_.
             Ok (ll\<lparr>firstObject := LLtarget\<rparr>, h(LLtarget \<mapsto> firstObject ll))))"

partial_function (option) walk_free :: "ll_heap \<Rightarrow> ptr \<Rightarrow> ll_heap outcome option" where
  "walk_free h browse =
     (if browse = 0 then Some (Ok h)
      else case h browse of
        None \<Rightarrow> Some Fault
      | Some n \<Rightarrow> walk_free (h(browse := None)) n)"

definition LinkedListDestroy ::
    "LLcontrol \<Rightarrow> u32 \<Rightarrow> ll_heap \<Rightarrow> (LLcontrol \<times> ll_heap) outcome option" where
  "LinkedListDestroy ll sz h =
     (if LinkedListNormal ll sz (Ok ()) \<noteq> Ok () then Some Panic
      else wbind (walk_free h (firstObject ll)) (\<lambda>h'. Ok (ll\<lparr>firstObject := 0\<rparr>, h')))"

text \<open>The callback updates its context \<open>ctx\<close>; it does not touch the links.\<close>

partial_function (option) walk_each ::
    "ll_heap \<Rightarrow> (ptr \<Rightarrow> 's \<Rightarrow> 's) \<Rightarrow> ptr \<Rightarrow> 's \<Rightarrow> 's outcome option" where
  "walk_each h callback browse ctx =
     (if browse = 0 then Some (Ok ctx)
      else case h browse of
        None \<Rightarrow> Some Fault
      | Some n \<Rightarrow> walk_each h callback n (callback browse ctx))"

definition LinkedListTraverse ::
    "LLcontrol \<Rightarrow> (ptr \<Rightarrow> 's \<Rightarrow> 's) \<Rightarrow> 's \<Rightarrow> ll_heap \<Rightarrow> 's outcome option" where
  "LinkedListTraverse ll callback ctx h = walk_each h callback (firstObject ll) ctx"

partial_function (option) walk_find ::
    "ll_heap \<Rightarrow> (ptr \<Rightarrow> bool) \<Rightarrow> ptr \<Rightarrow> ptr outcome option" where
  "walk_find h isCorrect browse =
     (if browse = 0 then Some (Ok 0)
      else if isCorrect browse then Some (Ok browse)
      else case h browse of
        None \<Rightarrow> Some Fault
      | Some n \<Rightarrow> walk_find h isCorrect n)"

definition LinkedListSearch ::
    "LLcontrol \<Rightarrow> (ptr \<Rightarrow> bool) \<Rightarrow> ll_heap \<Rightarrow> ptr outcome option" where
  "LinkedListSearch ll isCorrect h = walk_find h isCorrect (firstObject ll)"

definition LinkedListSearchPtr :: "LLcontrol \<Rightarrow> ptr \<Rightarrow> ll_heap \<Rightarrow> ptr outcome option" where
  "LinkedListSearchPtr ll targetPtr h = LinkedListSearch ll (\<lambda>data. data = targetPtr) h"

definition LinkedListSearchFirst :: "LLcontrol \<Rightarrow> ll_heap \<Rightarrow> ptr outcome option" where
  "LinkedListSearchFirst ll h = LinkedListSearch ll (\<lambda>data. True) h"

section \<open>Sequences on the heap\<close>

fun ll_path :: "ll_heap \<Rightarrow> ptr \<Rightarrow> ptr list \<Rightarrow> ptr \<Rightarrow> bool" where
  "ll_path h p [] q \<longleftrightarrow> p = q"
| "ll_path h p (x # xs) q \<longleftrightarrow> p = x \<and> x \<noteq> 0 \<and> (\<exists>n. h x = Some n \<and> ll_path h n xs q)"

definition ll_objects :: "LLcontrol \<times> ll_heap \<Rightarrow> ptr list \<Rightarrow> bool" where
  "ll_objects s xs \<longleftrightarrow> ll_path (snd s) (firstObject (fst s)) xs 0"

definition ll_valid :: "u32 \<Rightarrow> LLcontrol \<Rightarrow> bool" where
  "ll_valid sz ll \<longleftrightarrow> signature1 ll = LL_SIGNATURE_1 \<and> signature2 ll = LL_SIGNATURE_2 \<and>
     structSize ll = sz"

lemma LinkedListNormal_valid [simp]: "ll_valid sz ll \<Longrightarrow> LinkedListNormal ll sz k = k"
  by (simp add: ll_valid_def LinkedListNormal_def)

lemma LinkedListNormal_iff [simp]: "LinkedListNormal ll sz (Ok ()) = Ok () \<longleftrightarrow> ll_valid sz ll"
  by (auto simp: ll_valid_def LinkedListNormal_def cassert_def)

lemma ll_valid_first [simp]: "ll_valid sz (ll\<lparr>firstObject := p\<rparr>) = ll_valid sz ll"
  by (simp add: ll_valid_def)

lemma wbind_simps [simp]: "wbind (Some r) f = Some (obind r f)" "wbind None f = None"
  by (simp_all add: wbind_def)

lemma ll_path_append:
  "ll_path h p (xs @ ys) q \<longleftrightarrow> (\<exists>m. ll_path h p xs m \<and> ll_path h m ys q)"
  by (induction xs arbitrary: p) auto

lemma ll_path_upd: "a \<notin> set xs \<Longrightarrow> ll_path (h(a := v)) p xs q = ll_path h p xs q"
  by (induction xs arbitrary: p) auto

lemma ll_path_dom: "ll_path h p xs q \<Longrightarrow> x \<in> set xs \<Longrightarrow> x \<in> dom h \<and> x \<noteq> 0"
  by (induction xs arbitrary: p) auto

lemma ll_path_null: "ll_path h 0 xs q \<Longrightarrow> xs = []"
  by (cases xs) auto

lemma ll_path_unique: "ll_path h p xs 0 \<Longrightarrow> ll_path h p ys 0 \<Longrightarrow> xs = ys"
proof (induction xs arbitrary: p ys)
  case Nil
  then show ?case using ll_path_null by auto
next
  case (Cons x xs)
  then show ?case by (cases ys) auto
qed

lemma ll_path_distinct: "ll_path h p xs 0 \<Longrightarrow> distinct xs"
proof (induction xs arbitrary: p)
  case (Cons x xs)
  then obtain n where n: "h x = Some n" "ll_path h n xs 0" "p = x" by auto
  have "x \<notin> set xs"
  proof
    assume "x \<in> set xs"
    then obtain ys zs where xs: "xs = ys @ x # zs" by (auto simp: in_set_conv_decomp)
    with n(2) have "ll_path h x (x # zs) 0" by (auto simp: ll_path_append)
    moreover have "ll_path h x (x # xs) 0" using Cons.prems n(3) by simp
    ultimately have "x # zs = x # xs" by (rule ll_path_unique)
    then show False using xs by (metis add_Suc_right length_Cons length_append less_add_Suc2
        list.inject nat_neq_iff)
  qed
  with Cons.IH [OF n(2)] show ?case by simp
qed simp

section \<open>Walks\<close>

lemma walk_last_path:
  "ll_path h p (xs @ [x]) 0 \<Longrightarrow> walk_last h p = Some (Ok x)"
proof (induction xs arbitrary: p)
  case Nil
  then show ?case by (subst walk_last.simps) auto
next
  case (Cons y ys)
  then obtain n where n: "h p = Some n" "ll_path h n (ys @ [x]) 0" by auto
  then have "n \<noteq> 0" by (cases ys) auto
  with Cons.IH [OF n(2)] n(1) show ?case by (subst walk_last.simps) simp
qed

lemma walk_prev_path:
  assumes "ll_path h p xs 0" "target \<noteq> 0"
  shows "walk_prev h target p =
    Some (Ok (case dropWhile (\<lambda>(x, n). n \<noteq> target) (zip xs (tl xs)) of [] \<Rightarrow> 0 | (x, n) # _ \<Rightarrow> x))"
  using assms(1)
proof (induction xs arbitrary: p)
  case Nil
  then show ?case by (subst walk_prev.simps) simp
next
  case (Cons x xs)
  then obtain n where n: "h x = Some n" "ll_path h n xs 0" "p = x" "x \<noteq> 0" by auto
  show ?case
  proof (cases xs)
    case Nil
    with n Cons.IH [OF n(2)] assms(2) show ?thesis by (subst walk_prev.simps) auto
  next
    case xs: (Cons y ys)
    with n have "n = y" "y \<noteq> 0" by auto
    with n Cons.IH [OF n(2)] xs show ?thesis by (subst walk_prev.simps) auto
  qed
qed

lemma walk_prev_absent:
  assumes "ll_path h p xs 0" "target \<noteq> 0" "target \<notin> set (tl xs)"
  shows "walk_prev h target p = Some (Ok 0)"
proof -
  have none: "dropWhile (\<lambda>(x, n). n \<noteq> target) (zip xs (tl xs)) = []"
    using assms(3) by (auto simp: dropWhile_eq_Nil_conv dest: set_zip_rightD)
  show ?thesis using walk_prev_path [OF assms(1,2)] unfolding none by simp
qed

lemma walk_prev_present:
  assumes "ll_path h p (ys @ y # target # zs) 0" "target \<noteq> 0"
  shows "walk_prev h target p = Some (Ok y)"
proof -
  have d: "distinct (ys @ y # target # zs)" using assms(1) by (rule ll_path_distinct)
  have "dropWhile (\<lambda>(x, n). n \<noteq> target) (zip (ys @ y # target # zs) (tl (ys @ y # target # zs))) =
      zip (y # target # zs) (target # zs)"
    using d
  proof (induction ys)
    case (Cons a ys)
    then show ?case by (cases ys) auto
  qed simp
  then show ?thesis using walk_prev_path [OF assms] by simp
qed

lemma walk_find_path:
  "ll_path h p xs 0 \<Longrightarrow> walk_find h P p = Some (Ok (case find P xs of None \<Rightarrow> 0 | Some x \<Rightarrow> x))"
proof (induction xs arbitrary: p)
  case Nil
  then show ?case by (subst walk_find.simps) simp
next
  case (Cons x xs)
  then show ?case by (subst walk_find.simps) auto
qed

lemma walk_each_path: "ll_path h p xs 0 \<Longrightarrow> walk_each h f p s = Some (Ok (fold f xs s))"
proof (induction xs arbitrary: p s)
  case Nil
  then show ?case by (subst walk_each.simps) simp
next
  case (Cons x xs)
  then show ?case by (subst walk_each.simps) auto
qed

lemma walk_free_path:
  "ll_path h p xs 0 \<Longrightarrow> distinct xs \<Longrightarrow> walk_free h p = Some (Ok (h |` (- set xs)))"
proof (induction xs arbitrary: p h)
  case Nil
  then show ?case by (subst walk_free.simps) (simp add: restrict_map_def)
next
  case (Cons x xs)
  then obtain n where n: "h x = Some n" "ll_path h n xs 0" "p = x" "x \<noteq> 0" by auto
  have "walk_free (h(x := None)) n = Some (Ok ((h(x := None)) |` (- set xs)))"
  proof (rule Cons.IH)
    show "ll_path (h(x := None)) n xs 0"
      using Cons.prems(2) n(2) by (subst ll_path_upd) simp_all
  qed (use Cons.prems(2) in simp)
  moreover have "(h(x := None)) |` (- set xs) = h |` (- set (x # xs))"
    by (auto simp: restrict_map_def fun_eq_iff)
  ultimately show ?case using n by (subst walk_free.simps) simp
qed

section \<open>Operations on sequences\<close>

abbreviation ll_rep :: "u32 \<Rightarrow> LLcontrol \<times> ll_heap \<Rightarrow> ptr list \<Rightarrow> bool" where
  "ll_rep sz s xs \<equiv> ll_valid sz (fst s) \<and> ll_objects s xs"

definition ll_fresh :: "LLcontrol \<times> ll_heap \<Rightarrow> ptr \<Rightarrow> bool" where
  "ll_fresh s p \<longleftrightarrow> p \<noteq> 0 \<and> p \<notin> dom (snd s)"

lemma LinkedListAllocate_append:
  assumes "ll_rep sz (ll, h) xs" "ll_fresh (ll, h) target"
  shows "\<exists>ll' h'. LinkedListAllocate ll sz target h = Some (Ok (target, ll', h')) \<and>
    ll_rep sz (ll', h') (xs @ [target]) \<and> (\<forall>a. a \<notin> insert target (set xs) \<longrightarrow> h' a = h a)"
proof -
  have v: "ll_valid sz ll" and p: "ll_path h (firstObject ll) xs 0" and t: "target \<noteq> 0" "h target = None"
    using assms by (auto simp: ll_objects_def ll_fresh_def)
  have nt: "target \<notin> set xs" using ll_path_dom [OF p] t(2) by blast
  let ?h1 = "h(target \<mapsto> 0)"
  have p1: "ll_path ?h1 (firstObject ll) xs 0" using p nt by (simp add: ll_path_upd)
  show ?thesis
  proof (cases xs rule: rev_cases)
    case Nil
    then have "firstObject ll = 0" using p by simp
    with v t Nil show ?thesis by (simp add: LinkedListAllocate_def ll_objects_def)
  next
    case (snoc ys y)
    let ?h2 = "(?h1(y \<mapsto> target))(target \<mapsto> 0)"
    have ne: "firstObject ll \<noteq> 0" using p snoc ll_path_null by fastforce
    have "walk_last ?h1 (firstObject ll) = Some (Ok y)" using p1 snoc by (intro walk_last_path) simp
    then have "LinkedListAllocate ll sz target h = Some (Ok (target, ll, ?h2))"
      using v t(1) ne by (simp add: LinkedListAllocate_def Let_def)
    moreover have "ll_path ?h2 (firstObject ll) (xs @ [target]) 0"
    proof -
      have d: "distinct xs" using p by (rule ll_path_distinct)
      obtain m where m: "ll_path h (firstObject ll) ys m" "ll_path h m [y] 0"
        using p snoc by (auto simp: ll_path_append)
      have "ll_path ?h2 (firstObject ll) ys m"
        using m(1) d nt snoc by (simp add: ll_path_upd)
      moreover have "ll_path ?h2 m [y, target] 0" using m(2) nt snoc t(1) by auto
      ultimately show ?thesis using snoc by (auto simp: ll_path_append)
    qed
    ultimately show ?thesis using v snoc by (auto simp: ll_objects_def)
  qed
qed

lemma LinkedListUnregister_remove:
  assumes "ll_rep sz (ll, h) xs" "target \<noteq> 0"
  shows "\<exists>ll' h'. LinkedListUnregister ll sz target h = Some (Ok (target \<in> set xs, ll', h')) \<and>
    ll_rep sz (ll', h') (remove1 target xs) \<and> (\<forall>a. a \<notin> set xs \<longrightarrow> h' a = h a) \<and> h' target = h target"
proof -
  have v: "ll_valid sz ll" and p: "ll_path h (firstObject ll) xs 0"
    using assms(1) by (auto simp: ll_objects_def)
  have d: "distinct xs" using p by (rule ll_path_distinct)
  consider (absent) "target \<notin> set xs" | (first) ys where "xs = target # ys"
    | (later) ys y zs where "xs = ys @ y # target # zs"
  proof (cases "target \<in> set xs")
    case True
    then obtain as bs where "xs = as @ target # bs" by (auto simp: in_set_conv_decomp)
    then show thesis by (cases as rule: rev_cases) (use first later in auto)
  qed (use absent in blast)
  then show ?thesis
  proof cases
    case absent
    then have "firstObject ll \<noteq> target" using p assms(2) by (cases xs) auto
    moreover have "walk_prev h target (firstObject ll) = Some (Ok 0)"
      using absent by (intro walk_prev_absent [OF p assms(2)]) (cases xs; simp)
    ultimately show ?thesis
      using v p absent by (auto simp: LinkedListUnregister_def ll_objects_def remove1_idem)
  next
    case first
    then obtain n where n: "firstObject ll = target" "h target = Some n" "ll_path h n ys 0" using p by auto
    have "walk_prev h target (firstObject ll) = Some (Ok 0)"
      using first d by (intro walk_prev_absent [OF p assms(2)]) simp
    with n first v assms(2) show ?thesis
      by (simp add: LinkedListUnregister_def deref_def ll_objects_def)
  next
    case later
    then obtain m n where m: "ll_path h (firstObject ll) ys y" "h y = Some target" "y \<noteq> 0"
      "h target = Some n" "ll_path h n zs 0"
      using p by (auto simp: ll_path_append)
    have "walk_prev h target (firstObject ll) = Some (Ok y)"
      using p later assms(2) by (intro walk_prev_present) simp_all
    moreover have "firstObject ll \<noteq> target"
      using p later d by (cases ys) auto
    ultimately have "LinkedListUnregister ll sz target h = Some (Ok (True, ll, h(y \<mapsto> n)))"
      using v m assms(2) by (simp add: LinkedListUnregister_def deref_def)
    moreover have "ll_path (h(y \<mapsto> n)) (firstObject ll) (ys @ y # zs) 0"
      using m d later by (auto simp: ll_path_append ll_path_upd)
    moreover have "remove1 target xs = ys @ y # zs" using d later by (auto simp: remove1_append)
    ultimately show ?thesis using v later d by (auto simp: ll_objects_def)
  qed
qed

lemma LinkedListRemove_remove:
  assumes "ll_rep sz (ll, h) xs" "target \<noteq> 0"
  shows "\<exists>ll' h'. LinkedListRemove ll sz target h = Some (Ok (target \<in> set xs, ll', h')) \<and>
    ll_rep sz (ll', h') (remove1 target xs) \<and> ll_fresh (ll', h') target"
proof -
  from LinkedListUnregister_remove [OF assms] obtain ll' h' where
    u: "LinkedListUnregister ll sz target h = Some (Ok (target \<in> set xs, ll', h'))"
    "ll_rep sz (ll', h') (remove1 target xs)" by blast
  have "distinct xs" using assms(1) by (auto simp: ll_objects_def intro: ll_path_distinct)
  then have "target \<notin> set (remove1 target xs)" by simp
  then have "ll_path (h'(target := None)) (firstObject ll') (remove1 target xs) 0"
    using u(2) by (subst ll_path_upd) (simp_all add: ll_objects_def)
  then show ?thesis
    using u assms(2) by (simp add: LinkedListRemove_def ll_objects_def ll_fresh_def del: fun_upd_apply)
qed

lemma LinkedListPushFront_cons:
  assumes "ll_rep sz (ll, h) xs" "target \<noteq> 0" "h target = Some 0" "target \<notin> set xs"
  shows "\<exists>ll' h'. LinkedListPushFrontUnsafe ll target h = Ok (ll', h') \<and>
    ll_rep sz (ll', h') (target # xs)"
proof (cases "firstObject ll = 0")
  case True
  then have "xs = []" using assms(1) by (auto simp: ll_objects_def dest: ll_path_null)
  with True assms show ?thesis
    by (simp add: LinkedListPushFrontUnsafe_def deref_def ll_objects_def)
next
  case False
  have "ll_path (h(target \<mapsto> firstObject ll)) (firstObject ll) xs 0"
    using assms(1,4) by (simp add: ll_objects_def ll_path_upd)
  with False assms show ?thesis
    by (simp add: LinkedListPushFrontUnsafe_def deref_def ll_objects_def)
qed

section \<open>The interface of an object list\<close>

text \<open>
  What the kernel's tables of tasks, sockets, mounts and waiters rely on. A list represents a
  sequence of object addresses; \<open>app\<close> appends a new object, \<open>del\<close> takes one out and
  \<open>srch\<close> finds the first that satisfies a condition.
\<close>

locale object_list =
  fixes rep :: "'s \<Rightarrow> ptr list \<Rightarrow> bool"
    and fresh :: "'s \<Rightarrow> ptr \<Rightarrow> bool"
    and app :: "'s \<Rightarrow> ptr \<Rightarrow> (ptr \<times> 's) outcome option"
    and del :: "'s \<Rightarrow> ptr \<Rightarrow> (bool \<times> 's) outcome option"
    and srch :: "'s \<Rightarrow> (ptr \<Rightarrow> bool) \<Rightarrow> ptr outcome option"
  assumes app_rep: "rep s xs \<Longrightarrow> fresh s p \<Longrightarrow>
      \<exists>s'. app s p = Some (Ok (p, s')) \<and> rep s' (xs @ [p])"
    and del_rep: "rep s xs \<Longrightarrow> p \<noteq> 0 \<Longrightarrow>
      \<exists>s'. del s p = Some (Ok (p \<in> set xs, s')) \<and> rep s' (remove1 p xs) \<and> fresh s' p"
    and srch_rep: "rep s xs \<Longrightarrow>
      srch s P = Some (Ok (case find P xs of None \<Rightarrow> 0 | Some x \<Rightarrow> x))"
    and fresh_new: "rep s xs \<Longrightarrow> fresh s p \<Longrightarrow> p \<noteq> 0 \<and> p \<notin> set xs"
begin

text \<open>Appending an object and taking it out again restores the sequence.\<close>

lemma app_del:
  assumes "rep s xs" "fresh s p"
  shows "\<exists>s1 s2. app s p = Some (Ok (p, s1)) \<and> del s1 p = Some (Ok (True, s2)) \<and> rep s2 xs \<and> fresh s2 p"
proof -
  from app_rep [OF assms] obtain s1 where s1: "app s p = Some (Ok (p, s1))" "rep s1 (xs @ [p])" by blast
  note new = fresh_new [OF assms]
  with del_rep [OF s1(2), of p] obtain s2 where
    "del s1 p = Some (Ok (True, s2))" "rep s2 (remove1 p (xs @ [p]))" "fresh s2 p" by auto
  with s1(1) new show ?thesis by (simp add: remove1_append)
qed

text \<open>The oldest object that fits is found first: an appended object is found only when no
  earlier one fits.\<close>

lemma srch_after_app:
  assumes "rep s xs" "fresh s p" "app s p = Some (Ok (p, s'))" "P p"
  shows "srch s' P = (if \<exists>x \<in> set xs. P x then srch s P else Some (Ok p))"
proof -
  from app_rep [OF assms(1,2)] assms(3) have "rep s' (xs @ [p])" by simp
  moreover have "find P (xs @ [p]) = (if \<exists>x \<in> set xs. P x then find P xs else Some p)"
    using assms(4) by (induction xs) auto
  ultimately show ?thesis by (simp add: srch_rep [OF assms(1)] srch_rep)
qed

end

interpretation ll: object_list "ll_rep sz" ll_fresh
  "\<lambda>s p. LinkedListAllocate (fst s) sz p (snd s)" "\<lambda>s p. LinkedListRemove (fst s) sz p (snd s)"
  "\<lambda>s P. LinkedListSearch (fst s) P (snd s)" for sz
proof (unfold_locales, goal_cases)
  case (1 s xs p)
  then show ?case using LinkedListAllocate_append [of sz "fst s" "snd s" xs p] by auto
next
  case (2 s xs p)
  then show ?case using LinkedListRemove_remove [of sz "fst s" "snd s" xs p] by auto
next
  case (3 s xs P)
  then show ?case by (simp add: LinkedListSearch_def ll_objects_def walk_find_path)
next
  case (4 s xs p)
  then show ?case using ll_path_dom by (fastforce simp: ll_objects_def ll_fresh_def)
qed

section \<open>Properties\<close>


definition example_ll :: LLcontrol where
  "example_ll = \<lparr>signature1 = LL_SIGNATURE_1, signature2 = LL_SIGNATURE_2, structSize = 16,
     LOCK_LL = False, firstObject = 8\<rparr>"

definition example_ll_heap :: ll_heap where
  "example_ll_heap = [8 \<mapsto> 24, 24 \<mapsto> 0, 99 \<mapsto> 3]"


end
