(* ===== verification/CString.thy ===== *)
theory CString
  imports Prelude
begin

text \<open>
  The memory and string utilities of \<^verbatim>\<open>utilities/util.c\<close> and
  \<^verbatim>\<open>utilities/shell/string.c\<close>, and the directory-entry writer of \<^verbatim>\<open>utilities/dents.c\<close>.
  A pointer into an object is an offset into its byte list, and a walk of a pointer over a string
  is a recursion over the bytes that remain; reading or writing past the end is a \<open>Fault\<close>.
  Offsets and lengths are natural numbers where no object can be long enough for them to wrap.

  The lemmas show that \<^verbatim>\<open>memmove\<close> copies overlapping ranges as if through a temporary, that the
  decimal parser inverts decimal printing, that comparison and search routines agree with their
  list counterparts, and that written directory entries can be read back.
\<close>

section \<open>Memory\<close>

text \<open>\<^verbatim>\<open>memmove\<close> inside one object: the forward loop from \<open>i\<close>, and the backward loop.\<close>

primrec move_fwd :: "nat \<Rightarrow> u8 list \<Rightarrow> nat \<Rightarrow> nat \<Rightarrow> nat \<Rightarrow> u8 list outcome" where
  "move_fwd 0 mem d s i = Ok mem"
| "move_fwd (Suc n) mem d s i =
     obind (aget mem (s + i)) (\<lambda>x. obind (aset mem (d + i) x) (\<lambda>mem'. move_fwd n mem' d s (Suc i)))"

primrec move_bwd :: "nat \<Rightarrow> u8 list \<Rightarrow> nat \<Rightarrow> nat \<Rightarrow> u8 list outcome" where
  "move_bwd 0 mem d s = Ok mem"
| "move_bwd (Suc i) mem d s =
     obind (aget mem (s + i)) (\<lambda>x. obind (aset mem (d + i) x) (\<lambda>mem'. move_bwd i mem' d s))"

definition memmove :: "u8 list \<Rightarrow> nat \<Rightarrow> nat \<Rightarrow> nat \<Rightarrow> u8 list outcome" where
  "memmove mem dst src sz =
     (if dst < src then move_fwd sz mem dst src 0 else move_bwd sz mem dst src)"

fun memcmp :: "u8 list \<Rightarrow> u8 list \<Rightarrow> nat \<Rightarrow> int outcome" where
  "memcmp a b 0 = Ok 0"
| "memcmp (x # a) (y # b) (Suc n) =
     (if x < y then Ok (-1) else if y < x then Ok 1 else memcmp a b n)"
| "memcmp _ _ (Suc n) = Fault"

definition atomicBitmapSet :: "u64 \<Rightarrow> u32 \<Rightarrow> u64" where
  "atomicBitmapSet bitmap b = or bitmap (push_bit (unat b mod 64) 1)"

definition atomicBitmapClear :: "u64 \<Rightarrow> u32 \<Rightarrow> u64" where
  "atomicBitmapClear bitmap b = and bitmap (not (push_bit (unat b mod 64) 1))"

definition atomicBitmapGet :: "u64 \<Rightarrow> u64" where
  "atomicBitmapGet bitmap = bitmap"

definition bitmapGenericGet :: "u8 list \<Rightarrow> size_t \<Rightarrow> bool outcome" where
  "bitmapGenericGet bitmap index =
     obind (aget bitmap (unat (index div 8))) (\<lambda>x.
       Ok (and x (push_bit (unat (index mod 8)) 1) \<noteq> 0))"

definition bitmapGenericSet :: "u8 list \<Rightarrow> size_t \<Rightarrow> bool \<Rightarrow> u8 list outcome" where
  "bitmapGenericSet bitmap index v =
     obind (aget bitmap (unat (index div 8))) (\<lambda>x.
       aset bitmap (unat (index div 8))
         (if v then or x (push_bit (unat (index mod 8)) 1)
          else and x (not (push_bit (unat (index mod 8)) 1))))"

text \<open>The generator's state \<^verbatim>\<open>next\<close> is an argument and a result.\<close>

definition rand :: "u64 \<Rightarrow> 32 word \<times> u64" where
  "rand nx = (let nx' = nx * 1103515245 + 12345
              in ((ucast (nx' div 65536) :: u32) mod 32768, nx'))"

definition srand :: "u32 \<Rightarrow> u64" where
  "srand seed = ucast seed"

section \<open>Strings\<close>

fun strlength :: "u8 list \<Rightarrow> nat outcome" where
  "strlength [] = Fault"
| "strlength (c # cs) = (if c = 0 then Ok 0 else obind (strlength cs) (\<lambda>n. Ok (Suc n)))"

definition strlen :: "u8 list \<Rightarrow> nat outcome" where
  "strlen ch = strlength ch"

fun strncmp :: "u8 list \<Rightarrow> u8 list \<Rightarrow> nat \<Rightarrow> int outcome" where
  "strncmp s t 0 = Ok 0"
| "strncmp (a # s) (b # t) (Suc n) =
     (if a = 0 \<or> b = 0 then Ok (uint a - uint b)
      else if a \<noteq> b then Ok (uint a - uint b)
      else strncmp s t n)"
| "strncmp _ _ (Suc n) = Fault"

definition strdup :: "u8 list \<Rightarrow> u8 list outcome" where
  "strdup source = obind (strlength source) (\<lambda>n. Ok (take (Suc n) source))"

text \<open>The two loops of \<^verbatim>\<open>strncpy\<close>, with \<open>n\<close> bytes of the destination left from \<open>i\<close> on.\<close>

primrec pad_loop :: "nat \<Rightarrow> u8 list \<Rightarrow> nat \<Rightarrow> u8 list outcome" where
  "pad_loop 0 dest i = Ok dest"
| "pad_loop (Suc n) dest i = obind (aset dest i 0) (\<lambda>d. pad_loop n d (Suc i))"

fun copy_loop :: "nat \<Rightarrow> u8 list \<Rightarrow> u8 list \<Rightarrow> nat \<Rightarrow> u8 list outcome" where
  "copy_loop 0 dest src i = Ok dest"
| "copy_loop (Suc n) dest [] i = Fault"
| "copy_loop (Suc n) dest (c # cs) i =
     (if c \<noteq> 0 then obind (aset dest i c) (\<lambda>d. copy_loop n d cs (Suc i))
      else pad_loop (Suc n) dest i)"

definition strncpy :: "u8 list \<Rightarrow> u8 list \<Rightarrow> nat \<Rightarrow> u8 list outcome" where
  "strncpy dest src n = copy_loop n dest src 0"

definition isdigit :: "u8 \<Rightarrow> bool" where
  "isdigit c \<longleftrightarrow> 48 \<le> c \<and> c \<le> 57"

fun atoi_loop :: "32 word \<Rightarrow> u8 list \<Rightarrow> 32 word outcome" where
  "atoi_loop val [] = Fault"
| "atoi_loop val (c # cs) =
     (if isdigit c then atoi_loop (val * 10 + (ucast c - 48)) cs else Ok val)"

definition atoi :: "u8 list \<Rightarrow> 32 word outcome" where
  "atoi str = atoi_loop 0 str"

text \<open>\<^verbatim>\<open>numAtEnd\<close> walks back from the terminator over the digits and parses them forward.\<close>

fun back_digits :: "u8 list \<Rightarrow> nat \<Rightarrow> nat" where
  "back_digits s 0 = 0"
| "back_digits s (Suc p) = (if isdigit (s ! p) then back_digits s p else Suc p)"

definition numAtEnd :: "u8 list \<Rightarrow> u64 outcome" where
  "numAtEnd str =
     obind (strlength str) (\<lambda>e.
       let p = back_digits str e in
       if p = e then Ok 0
       else Ok (foldl (\<lambda>num c. num * 10 + (ucast c - 48)) 0 (drop p (take e str))))"

definition check_string :: "u8 list \<Rightarrow> bool outcome" where
  "check_string str = obind (aget str 0) (\<lambda>c. Ok (c \<noteq> 0))"

text \<open>The first length is kept in 32 bits.\<close>

primrec eql_loop :: "nat \<Rightarrow> u8 list \<Rightarrow> u8 list \<Rightarrow> nat \<Rightarrow> bool outcome" where
  "eql_loop 0 a b i = Ok True"
| "eql_loop (Suc n) a b i =
     obind (aget a i) (\<lambda>x. obind (aget b i) (\<lambda>y.
       if x \<noteq> y then Ok False else eql_loop n a b (Suc i)))"

definition strEql :: "u8 list \<Rightarrow> u8 list \<Rightarrow> bool outcome" where
  "strEql ch1 ch2 =
     obind (strlength ch1) (\<lambda>n1. obind (strlength ch2) (\<lambda>n2.
       let sz = n1 mod 2 ^ 32 in
       if sz \<noteq> n2 then Ok False else eql_loop (Suc sz) ch1 ch2 0))"

fun has_delim :: "u8 \<Rightarrow> u8 list \<Rightarrow> bool outcome" where
  "has_delim c [] = Fault"
| "has_delim c (d # ds) = (if d = 0 then Ok False else if d = c then Ok True else has_delim c ds)"

text \<open>The position of the first delimiter, counted from \<open>i\<close>, or none.\<close>

fun pbrk_loop :: "u8 list \<Rightarrow> u8 list \<Rightarrow> nat \<Rightarrow> nat option outcome" where
  "pbrk_loop [] delims i = Fault"
| "pbrk_loop (c # cs) delims i =
     (if c = 0 then Ok None
      else obind (has_delim c delims) (\<lambda>found.
        if found then Ok (Some i) else pbrk_loop cs delims (Suc i)))"

definition strpbrk :: "u8 list \<Rightarrow> nat \<Rightarrow> u8 list \<Rightarrow> nat option outcome" where
  "strpbrk mem str delims = pbrk_loop (drop str mem) delims str"

text \<open>The string object \<open>mem\<close> is updated; \<open>None\<close> is a null pointer.\<close>

definition strtok :: "u8 list \<Rightarrow> nat option \<Rightarrow> u8 list \<Rightarrow> nat option \<Rightarrow>
    (nat option \<times> u8 list \<times> nat option) outcome" where
  "strtok mem str delims ctx =
     (case (case str of Some s \<Rightarrow> Some s | None \<Rightarrow> ctx) of
        None \<Rightarrow> Ok (None, mem, ctx)
      | Some token_start \<Rightarrow>
          obind (strpbrk mem token_start delims) (\<lambda>token_end.
            case token_end of
              Some e \<Rightarrow> obind (aset mem e 0) (\<lambda>mem'. Ok (Some token_start, mem', Some (e + 1)))
            | None \<Rightarrow> obind (aget mem token_start) (\<lambda>c.
                if c \<noteq> 0 then Ok (Some token_start, mem, None)
                else Ok (None, mem, Some token_start))))"

fun skip_blank :: "u8 list \<Rightarrow> u8 list" where
  "skip_blank [] = []"
| "skip_blank (c # cs) = (if c = 32 \<or> c = 9 then skip_blank cs else c # cs)"

definition digit_of :: "u8 \<Rightarrow> int option" where
  "digit_of c =
     (if 48 \<le> c \<and> c \<le> 57 then Some (uint c - 48)
      else if 97 \<le> c \<and> c \<le> 122 then Some (uint c - 97 + 10)
      else if 65 \<le> c \<and> c \<le> 90 then Some (uint c - 65 + 10)
      else None)"

fun digits_loop :: "int \<Rightarrow> u64 \<Rightarrow> u8 list \<Rightarrow> (u64 \<times> u8 list) outcome" where
  "digits_loop radix val [] = Fault"
| "digits_loop radix val (c # cs) =
     (case digit_of c of
        None \<Rightarrow> Ok (val, c # cs)
      | Some dig \<Rightarrow> if dig \<ge> radix then Ok (val, c # cs)
                    else digits_loop radix (val * of_int radix + of_int dig) cs)"

text \<open>The sign and the base prefix; the rest of the string is the end pointer.\<close>

definition strtol :: "u8 list \<Rightarrow> int \<Rightarrow> (u64 \<times> u8 list) outcome" where
  "strtol str radix =
     (let s1 = skip_blank str in
      obind (aget s1 0) (\<lambda>c.
        let neg = (c = 45); s2 = (if c = 43 \<or> c = 45 then tl s1 else s1) in
        obind (aget s2 0) (\<lambda>c0.
        obind (if (radix = 0 \<or> radix = 16) \<and> c0 = 48 then aget s2 1 else Ok 0) (\<lambda>c1.
          let (s3, b) = (if (radix = 0 \<or> radix = 16) \<and> c0 = 48 \<and> c1 = 120 then (drop 2 s2, 16)
                         else if radix = 0 \<and> c0 = 48 then (drop 1 s2, 8)
                         else if radix = 0 then (s2, 10) else (s2, radix))
          in obind (digits_loop b 0 s3) (\<lambda>(val, rest).
               Ok (if neg then - val else val, rest))))))"

fun rchr_loop :: "u8 list \<Rightarrow> u8 \<Rightarrow> nat \<Rightarrow> nat option \<Rightarrow> nat option outcome" where
  "rchr_loop [] c i l = Fault"
| "rchr_loop (x # xs) c i l =
     (if x = 0 then Ok l else rchr_loop xs c (Suc i) (if x = c then Some i else l))"

definition strrchr :: "u8 list \<Rightarrow> u8 \<Rightarrow> nat option outcome" where
  "strrchr str c = rchr_loop str c 0 None"

section \<open>Directory entries\<close>

datatype DENTS_RES = DENTS_NO_SPACE | DENTS_SUCCESS | DENTS_RETURN

text \<open>The \<open>n\<close> low bytes of a word, least significant first.\<close>

definition le_bytes :: "nat \<Rightarrow> u64 \<Rightarrow> u8 list" where
  "le_bytes n w = map (\<lambda>i. ucast (drop_bit (8 * i) w)) [0..<n]"

text \<open>A \<^verbatim>\<open>struct linux_dirent64\<close> up to its name: inode, offset, record length and type.\<close>

definition dirent_head :: "u64 \<Rightarrow> u64 \<Rightarrow> u64 \<Rightarrow> u8 \<Rightarrow> u8 list" where
  "dirent_head ino off reclen ty = le_bytes 8 ino @ le_bytes 8 off @ le_bytes 2 reclen @ [ty]"

text \<open>\<open>buf\<close> is the caller's buffer, \<open>dirp\<close> the offset of the next entry in it, \<open>nx\<close> the state of
  \<^verbatim>\<open>rand\<close>.\<close>

definition dentsAdd :: "u64 \<Rightarrow> u8 list \<Rightarrow> nat \<Rightarrow> size_t \<Rightarrow> u32 \<Rightarrow> u8 list \<Rightarrow> size_t \<Rightarrow> size_t \<Rightarrow> u8 \<Rightarrow>
    (DENTS_RES \<times> u8 list \<times> nat \<times> size_t \<times> u64) outcome" where
  "dentsAdd nx buf dirp allocatedlimit hardlimit filename filenameLength inode type =
     (let reclen = 23 + filenameLength + 1 in
      if allocatedlimit + reclen + 2 > ucast hardlimit
      then Ok (if allocatedlimit \<noteq> 0 then DENTS_RETURN else DENTS_NO_SPACE,
               buf, dirp, allocatedlimit, nx)
      else
       (let (off, nx') = rand nx; hdr = dirent_head inode (ucast off) reclen type in
        obind (blit buf dirp hdr 0 (length hdr)) (\<lambda>b1.
        obind (blit b1 (dirp + 19) filename 0 (unat filenameLength)) (\<lambda>b2.
        obind (aset b2 (dirp + 19 + unat filenameLength) 0) (\<lambda>b3.
          Ok (DENTS_SUCCESS, b3, dirp + unat reclen, allocatedlimit + reclen, nx'))))))"

text \<open>How a reader of the buffer takes an entry apart.\<close>

definition le_word :: "u8 list \<Rightarrow> u64" where
  "le_word bs = foldr (\<lambda>b w. push_bit 8 w + ucast b) bs 0"

definition dirent_ino :: "u8 list \<Rightarrow> u64" where "dirent_ino e = le_word (take 8 e)"
definition dirent_reclen :: "u8 list \<Rightarrow> u64" where "dirent_reclen e = le_word (take 2 (drop 16 e))"
definition dirent_type :: "u8 list \<Rightarrow> u8" where "dirent_type e = e ! 18"
definition dirent_name :: "u8 list \<Rightarrow> u8 list" where "dirent_name e = takeWhile (\<lambda>c. c \<noteq> 0) (drop 19 e)"

section \<open>Copying\<close>

lemma move_fwd_nth:
  assumes "d < s" "s + i + n \<le> length mem"
  shows "\<exists>mem'. move_fwd n mem d s i = Ok mem' \<and> length mem' = length mem \<and>
    (\<forall>k < length mem. mem' ! k = (if d + i \<le> k \<and> k < d + i + n then mem ! (k - d + s) else mem ! k))"
  using assms
proof (induction n arbitrary: mem i)
  case (Suc n)
  let ?m = "mem[d + i := mem ! (s + i)]"
  have "s + Suc i + n \<le> length ?m" using Suc.prems by simp
  from Suc.IH [OF Suc.prems(1) this] obtain m' where m': "move_fwd n ?m d s (Suc i) = Ok m'"
    "length m' = length mem"
    "\<forall>k < length mem. m' ! k = (if d + Suc i \<le> k \<and> k < d + Suc i + n then ?m ! (k - d + s) else ?m ! k)"
    by auto
  have "move_fwd (Suc n) mem d s i = Ok m'" using Suc.prems m'(1) by simp
  moreover have "m' ! k = (if d + i \<le> k \<and> k < d + i + Suc n then mem ! (k - d + s) else mem ! k)"
    if "k < length mem" for k
    using m'(3) that Suc.prems by (cases "k = d + i") (auto simp: nth_list_update add.commute)
  ultimately show ?case using m'(2) by blast
qed auto

lemma move_bwd_nth:
  assumes "s \<le> d" "d + n \<le> length mem"
  shows "\<exists>mem'. move_bwd n mem d s = Ok mem' \<and> length mem' = length mem \<and>
    (\<forall>k < length mem. mem' ! k = (if d \<le> k \<and> k < d + n then mem ! (k - d + s) else mem ! k))"
  using assms
proof (induction n arbitrary: mem)
  case (Suc n)
  let ?m = "mem[d + n := mem ! (s + n)]"
  have "d + n \<le> length ?m" using Suc.prems by simp
  from Suc.IH [OF Suc.prems(1) this] obtain m' where m': "move_bwd n ?m d s = Ok m'"
    "length m' = length mem"
    "\<forall>k < length mem. m' ! k = (if d \<le> k \<and> k < d + n then ?m ! (k - d + s) else ?m ! k)"
    by auto
  have "move_bwd (Suc n) mem d s = Ok m'" using Suc.prems m'(1) by simp
  moreover have "m' ! k = (if d \<le> k \<and> k < d + Suc n then mem ! (k - d + s) else mem ! k)"
    if "k < length mem" for k
    using m'(3) that Suc.prems by (cases "k = d + n") (auto simp: nth_list_update add.commute)
  ultimately show ?case using m'(2) by blast
qed auto

lemma memmove_eq:
  assumes "src + n \<le> length mem" "dst + n \<le> length mem"
  shows "memmove mem dst src n = Ok (take dst mem @ take n (drop src mem) @ drop (dst + n) mem)"
proof -
  obtain m' where m': "memmove mem dst src n = Ok m'" "length m' = length mem"
    "\<forall>k < length mem. m' ! k = (if dst \<le> k \<and> k < dst + n then mem ! (k - dst + src) else mem ! k)"
  proof (cases "dst < src")
    case True
    from move_fwd_nth [OF True, of 0 n mem] assms that True show thesis by (auto simp: memmove_def)
  next
    case False
    then have "src \<le> dst" by simp
    from move_bwd_nth [OF this assms(2)] that False show thesis by (auto simp: memmove_def)
  qed
  have "m' = take dst mem @ take n (drop src mem) @ drop (dst + n) mem"
    using m'(2,3) assms by (intro nth_equalityI) (auto simp: nth_append add.commute)
  with m'(1) show ?thesis by simp
qed

section \<open>Decimal numbers\<close>

text \<open>The decimal digits of a number, most significant first, in ASCII.\<close>

fun dec :: "nat \<Rightarrow> u8 list" where
  "dec n = (if n < 10 then [of_nat (48 + n)] else dec (n div 10) @ [of_nat (48 + n mod 10)])"

declare dec.simps [simp del]

definition digit_step :: "'w::len word \<Rightarrow> u8 \<Rightarrow> 'w word" where
  "digit_step v c = v * 10 + (ucast c - 48)"

lemma unat_ascii: "d < 10 \<Longrightarrow> unat (of_nat (48 + d) :: u8) = 48 + d"
  by (subst unat_of_nat) simp

lemma isdigit_ascii: "d < 10 \<Longrightarrow> isdigit (of_nat (48 + d))"
  unfolding isdigit_def word_le_nat_alt unat_ascii by simp

lemma isdigit_dec: "list_all isdigit (dec n)"
proof (induction n rule: dec.induct)
  case (1 n)
  then show ?case
    using isdigit_ascii [of n] isdigit_ascii [of "n mod 10"]
    by (subst dec.simps) (simp del: of_nat_add of_nat_numeral)
qed

lemma ucast_ascii: "d < 10 \<Longrightarrow> (ucast (of_nat (48 + d) :: u8) :: 'w::len word) - 48 = of_nat d"
proof -
  assume d: "d < 10"
  have eq: "(ucast (of_nat (48 + d) :: u8) :: 'w word) = of_nat (unat (of_nat (48 + d) :: u8))"
    by (rule of_nat_unat [symmetric])
  show ?thesis unfolding eq unat_ascii [OF d] by simp
qed

lemma digit_step_dec: "foldl digit_step (0 :: 'w::len word) (dec n) = of_nat n"
proof (induction n rule: dec.induct)
  case (1 n)
  show ?case
  proof (cases "n < 10")
    case True
    then show ?thesis
      using ucast_ascii [OF True, where 'w = 'w] by (subst dec.simps) (simp add: digit_step_def)
  next
    case False
    have d: "n mod 10 < 10" by simp
    have "foldl digit_step (0 :: 'w word) (dec n) =
        digit_step (foldl digit_step 0 (dec (n div 10))) (of_nat (48 + n mod 10))"
      using False by (subst dec.simps) simp
    also have "\<dots> = of_nat (n div 10) * 10 + of_nat (n mod 10)"
      unfolding 1 [OF False] digit_step_def ucast_ascii [OF d] ..
    also have "\<dots> = of_nat n"
      by (metis div_mult_mod_eq of_nat_add of_nat_mult of_nat_numeral)
    finally show ?thesis .
  qed
qed

lemma atoi_loop_digits:
  "list_all isdigit ds \<Longrightarrow> atoi_loop v (ds @ xs) = atoi_loop (foldl digit_step v ds) xs"
  by (induction ds arbitrary: v) (auto simp: digit_step_def)

lemma digit_of_isdigit: "isdigit c \<Longrightarrow> digit_of c = Some (uint c - 48)"
  by (simp add: isdigit_def digit_of_def)

lemma uint_digit: "isdigit c \<Longrightarrow> 48 \<le> uint c \<and> uint c \<le> 57"
  by (simp add: isdigit_def word_le_def)

lemma digits_loop_decimal:
  "list_all isdigit ds \<Longrightarrow> digits_loop 10 v (ds @ xs) = digits_loop 10 (foldl digit_step v ds) xs"
proof (induction ds arbitrary: v)
  case (Cons c ds)
  then have "isdigit c" by simp
  then have "digits_loop 10 v ((c # ds) @ xs) =
      digits_loop 10 (v * of_int 10 + of_int (uint c - 48)) (ds @ xs)"
    using uint_digit [of c] by (simp add: digit_of_isdigit)
  moreover have "v * of_int 10 + of_int (uint c - 48) = digit_step v c"
    by (simp add: digit_step_def)
  ultimately show ?case using Cons.IH [of "digit_step v c"] Cons.prems by (simp del: append_Cons)
qed simp

section \<open>Reading entries back\<close>

lemma le_word_Cons: "le_word (b # bs) = push_bit 8 (le_word bs) + ucast b"
  by (simp add: le_word_def)

lemma le_bytes_Suc: "le_bytes (Suc n) w = ucast w # le_bytes n (drop_bit 8 w)"
proof (rule nth_equalityI)
  fix i assume "i < length (le_bytes (Suc n) w)"
  then show "le_bytes (Suc n) w ! i = (ucast w # le_bytes n (drop_bit 8 w)) ! i"
    by (cases i) (auto simp: le_bytes_def drop_bit_drop_bit add.commute simp del: upt_Suc)
qed (simp add: le_bytes_def)

lemma split_byte: "push_bit 8 (drop_bit 8 w) + ucast (ucast w :: u8) = (w :: u64)"
proof -
  have "ucast (ucast w :: u8) = take_bit 8 w"
    by (rule bit_word_eqI) (auto simp: bit_ucast_iff bit_take_bit_iff)
  then show ?thesis using bits_ident [of 8 w] by (simp add: add.commute)
qed

lemma le_word_bytes: "le_word (le_bytes n w) = take_bit (8 * n) w"
proof (induction n arbitrary: w)
  case 0
  then show ?case by (simp add: le_bytes_def le_word_def)
next
  case (Suc n)
  have "le_word (le_bytes (Suc n) w) = push_bit 8 (take_bit (8 * n) (drop_bit 8 w)) + ucast (ucast w :: u8)"
    by (simp add: le_bytes_Suc le_word_Cons Suc)
  also have "push_bit 8 (take_bit (8 * n) (drop_bit 8 w)) = push_bit 8 (drop_bit 8 (take_bit (8 * Suc n) w))"
    by (rule bit_word_eqI) (auto simp: bit_push_bit_iff bit_take_bit_iff bit_drop_bit_eq)
  also have "(ucast (ucast w :: u8) :: u64) = ucast (ucast (take_bit (8 * Suc n) w) :: u8)"
    by (rule bit_word_eqI) (auto simp: bit_ucast_iff bit_take_bit_iff)
  finally show ?case by (simp only: split_byte)
qed

lemma length_le_bytes [simp]: "length (le_bytes n w) = n"
  by (simp add: le_bytes_def)

lemma length_dirent_head [simp]: "length (dirent_head i f r t) = 19"
  by (simp add: dirent_head_def)

text \<open>An entry as \<^verbatim>\<open>dentsAdd\<close> lays it out, with whatever follows it in the buffer.\<close>

lemma dirent_fields:
  assumes "e = dirent_head ino off reclen ty @ name @ 0 # rest" "0 \<notin> set name" "unat reclen < 2 ^ 16"
  shows "dirent_ino e = ino" "dirent_reclen e = reclen" "dirent_type e = ty" "dirent_name e = name"
proof -
  have "take_bit 64 ino = ino" by (rule take_bit_word_eq_self) simp
  then show "dirent_ino e = ino"
    using le_word_bytes [of 8 ino] by (simp add: assms(1) dirent_ino_def dirent_head_def)
  have "take 2 (drop 16 e) = le_bytes 2 reclen" by (simp add: assms(1) dirent_head_def)
  moreover have "take_bit 16 reclen = reclen"
    using assms(3) by (simp add: word_unat_eq_iff unsigned_take_bit_eq take_bit_nat_eq_self)
  ultimately show "dirent_reclen e = reclen"
    using le_word_bytes [of 2 reclen] by (simp add: dirent_reclen_def)
  show "dirent_type e = ty" by (simp add: assms(1) dirent_type_def dirent_head_def nth_append)
  have "takeWhile (\<lambda>c. c \<noteq> 0) (name @ 0 # rest) = name"
    using assms(2) by (induction name) auto
  then show "dirent_name e = name" by (simp add: assms(1) dirent_name_def)
qed

lemma dirent_write:
  assumes "dirp + 19 + n + 1 \<le> length buf" "n \<le> length filename" "length hdr = 19"
  shows "\<exists>rest. obind (blit buf dirp hdr 0 (length hdr)) (\<lambda>b1.
      obind (blit b1 (dirp + 19) filename 0 n) (\<lambda>b2. obind (aset b2 (dirp + 19 + n) 0) k)) =
    k (take dirp buf @ hdr @ take n filename @ 0 # rest) \<and>
    length (take dirp buf @ hdr @ take n filename @ 0 # rest) = length buf"
proof -
  let ?b1 = "take dirp buf @ hdr @ drop (dirp + 19) buf"
  have 1: "blit buf dirp hdr 0 (length hdr) = Ok ?b1" using assms by (simp add: blit_Ok)
  let ?b2 = "take dirp buf @ hdr @ take n filename @ drop (dirp + 19 + n) buf"
  have 2: "blit ?b1 (dirp + 19) filename 0 n = Ok ?b2"
    using assms by (simp add: blit_Ok add.commute add.left_commute)
  obtain x rest where r: "drop (dirp + 19 + n) buf = x # rest"
    using assms(1) by (cases "drop (dirp + 19 + n) buf") auto
  have "?b2[dirp + 19 + n := 0] = take dirp buf @ hdr @ take n filename @ 0 # rest"
    using assms r by (simp add: list_update_append min_def)
  moreover have "length rest = length buf - (dirp + 19 + n) - 1"
    using arg_cong [OF r, of length] by simp
  ultimately show ?thesis
    using 1 2 assms by (intro exI [of _ rest]) (auto simp: min_def)
qed

section \<open>Properties\<close>

text \<open>C20: \<^verbatim>\<open>memmove\<close> copies as if through a temporary buffer. For every pair of ranges inside an
  object, overlapping in either direction or not, the destination ends up with the bytes the
  source had before the call and every other byte is unchanged.\<close>

theorem memmove_correct:
  assumes "src + n \<le> length mem" "dst + n \<le> length mem"
  shows "memmove mem dst src n = Ok (take dst mem @ take n (drop src mem) @ drop (dst + n) mem)"
  using assms by (rule memmove_eq)

theorem memmove_correct_witness:
  "memmove [1, 2, 3, 4, 5] 1 0 3 = Ok (take 1 [1, 2, 3, 4, 5] @ take 3 (drop 0 [1, 2, 3, 4, 5]) @
     drop (1 + 3) [1, 2, 3, 4, 5])"
  by (rule memmove_correct) simp_all

text \<open>C21: the decimal parsers invert decimal printing. \<^verbatim>\<open>atoi\<close> and \<^verbatim>\<open>strtol\<close> with base 10, given the
  digits of a number followed by a character that is not a letter or digit, return the number
  (modulo the width of their result), and \<^verbatim>\<open>strtol\<close> leaves its end pointer at that
  character.\<close>

theorem decimal_roundtrip:
  assumes "digit_of c = None"
  shows "atoi (dec n @ c # rest) = Ok (of_nat n) \<and>
    strtol (dec n @ c # rest) 10 = Ok (of_nat n, c # rest)"
proof -
  have nd: "\<not> isdigit c" using assms digit_of_isdigit by fastforce
  obtain d ds where d: "dec n = d # ds" "isdigit d"
    using isdigit_dec [of n] by (cases "dec n") (auto simp: dec.simps [of n] split: if_splits)
  then have "d \<noteq> 32" "d \<noteq> 9" "d \<noteq> 45" "d \<noteq> 43" by (auto simp: isdigit_def)
  then have "strtol (dec n @ c # rest) 10 =
      obind (digits_loop 10 0 (dec n @ c # rest)) (\<lambda>(val, rest). Ok (val, rest))"
    using d(1) by (simp add: strtol_def Let_def)
  also have "\<dots> = Ok (of_nat n, c # rest)"
    using assms by (simp add: digits_loop_decimal [OF isdigit_dec] digit_step_dec)
  finally show ?thesis
    using nd by (simp add: atoi_def atoi_loop_digits [OF isdigit_dec] digit_step_dec)
qed

theorem decimal_roundtrip_witness:
  "atoi (dec 2024 @ 0 # []) = Ok (of_nat 2024) \<and> strtol (dec 2024 @ 0 # []) 10 = Ok (of_nat 2024, 0 # [])"
  by (rule decimal_roundtrip) (simp add: digit_of_def)

text \<open>C22: \<^verbatim>\<open>dentsAdd\<close> never writes outside a buffer of \<^verbatim>\<open>hardlimit\<close> bytes. When the entry does not
  fit it changes nothing and answers \<^verbatim>\<open>DENTS_NO_SPACE\<close> on an empty buffer and
  \<^verbatim>\<open>DENTS_RETURN\<close> otherwise; when it fits, the entries before it are untouched, the new entry
  reads back with its inode, type and name, its record length leads to the next free position,
  and the bytes used stay within the limit.\<close>

theorem dentsAdd_roundtrip:
  assumes "unat hardlimit \<le> length buf" "allocated \<le> ucast hardlimit" "dirp = unat allocated"
    and "0 \<notin> set name" "length name < 65000" "len = of_nat (length name)"
  shows "\<exists>res buf' dirp' allocated' nx'.
    dentsAdd nx buf dirp allocated hardlimit name len inode ty = Ok (res, buf', dirp', allocated', nx') \<and>
    (if unat allocated + length name + 26 > unat hardlimit
     then res = (if allocated = 0 then DENTS_NO_SPACE else DENTS_RETURN) \<and> buf' = buf \<and> allocated' = allocated
     else res = DENTS_SUCCESS \<and> length buf' = length buf \<and> take dirp buf' = take dirp buf \<and>
       dirent_ino (drop dirp buf') = inode \<and> dirent_type (drop dirp buf') = ty \<and>
       dirent_name (drop dirp buf') = name \<and> dirp' = dirp + unat (dirent_reclen (drop dirp buf')) \<and>
       dirp' = unat allocated' \<and> allocated' \<le> ucast hardlimit)"
proof -
  let ?rl = "23 + len + 1"
  have h: "unat (ucast hardlimit :: u64) = unat hardlimit" and hb: "unat hardlimit < 2 ^ 32"
    using unat_bound [of hardlimit] by (simp_all add: unsigned_ucast_eq take_bit_nat_eq_self)
  have len: "unat len = length name" using assms(5,6) by (simp add: unat_of_nat)
  have a: "unat allocated \<le> unat hardlimit" using assms(2) by (simp add: word_le_nat_alt h)
  have "?rl = of_nat (24 + length name)" using assms(6) by simp
  then have rl: "unat ?rl = 24 + length name" using assms(5) by (simp only: unat_of_nat) simp
  have sum: "unat (allocated + ?rl) = unat allocated + 24 + length name"
    using rl a hb assms(5) by (subst unat_add_no_wrap) simp_all
  have "unat (allocated + ?rl + 2) = unat allocated + length name + 26"
    using sum a hb assms(5) by (subst unat_add_no_wrap) simp_all
  then have fits: "ucast hardlimit < allocated + ?rl + 2 \<longleftrightarrow>
      unat hardlimit < unat allocated + length name + 26"
    by (simp add: word_less_nat_alt h)
  show ?thesis
  proof (cases "unat hardlimit < unat allocated + length name + 26")
    case True
    with fits show ?thesis by (simp add: dentsAdd_def Let_def)
  next
    case False
    let ?hd = "dirent_head inode (ucast (fst (rand nx))) ?rl ty"
    have "dirp + 19 + length name + 1 \<le> length buf" using False assms(1,3) by simp
    from dirent_write [OF this order_refl, of ?hd "\<lambda>b3. Ok (DENTS_SUCCESS, b3, dirp + unat ?rl,
        allocated + ?rl, snd (rand nx))"] obtain rest where
      w: "dentsAdd nx buf dirp allocated hardlimit name len inode ty =
        Ok (DENTS_SUCCESS, take dirp buf @ ?hd @ name @ 0 # rest, dirp + unat ?rl, allocated + ?rl,
            snd (rand nx))"
      "length (take dirp buf @ ?hd @ name @ 0 # rest) = length buf"
      using False fits len by (auto simp: dentsAdd_def Let_def split_beta)
    have "dirp \<le> length buf" using assms(1,3) a by simp
    then have e: "drop dirp (take dirp buf @ ?hd @ name @ 0 # rest) = ?hd @ name @ 0 # rest"
      "take dirp (take dirp buf @ ?hd @ name @ 0 # rest) = take dirp buf" by (simp_all add: min_def)
    have "unat ?rl < 2 ^ 16" using rl assms(5) by simp
    note f = dirent_fields [OF refl assms(4) this, of inode "ucast (fst (rand nx))" ty rest]
    have "allocated + ?rl \<le> ucast hardlimit" using False sum by (simp add: word_le_nat_alt h)
    with w e f False sum rl assms(3) show ?thesis by simp
  qed
qed

theorem dentsAdd_roundtrip_witness:
  "\<exists>res buf' dirp' allocated' nx'.
    dentsAdd 1 (replicate 64 0) 0 0 64 [97, 98] 2 5 8 = Ok (res, buf', dirp', allocated', nx') \<and>
    (if unat (0 :: size_t) + length [97 :: u8, 98] + 26 > unat (64 :: u32)
     then res = (if (0 :: size_t) = 0 then DENTS_NO_SPACE else DENTS_RETURN) \<and>
       buf' = replicate 64 0 \<and> allocated' = 0
     else res = DENTS_SUCCESS \<and> length buf' = length (replicate 64 (0 :: u8)) \<and>
       take 0 buf' = take 0 (replicate 64 0) \<and>
       dirent_ino (drop 0 buf') = 5 \<and> dirent_type (drop 0 buf') = 8 \<and>
       dirent_name (drop 0 buf') = [97, 98] \<and> dirp' = 0 + unat (dirent_reclen (drop 0 buf')) \<and>
       dirp' = unat allocated' \<and> allocated' \<le> ucast (64 :: u32))"
  by (rule dentsAdd_roundtrip) simp_all

end
