(* ===== verification/Pipe.thy ===== *)
theory Pipe
  imports CString Spinlock
begin

text \<open>
  Pipes, from \<^verbatim>\<open>syscalls/pipe.c\<close>. The state is the \<^verbatim>\<open>PipeInfo\<close> object, the pending signals of
  the calling task, the poll events that were rung, and whether the object was freed. A reader or
  writer that finds the pipe empty or full waits for a poll event; the list \<open>envs\<close> says what
  the other tasks do to the state in each of these waits.

  The lemmas show that a pipe delivers the bytes written to it in order, that a write of up to
  \<^verbatim>\<open>PIPE_BUFF\<close> bytes is atomic whatever the other tasks do, and that the object lives exactly as
  long as one of its ends is open.
\<close>

section \<open>State\<close>

definition PIPE_BUFF :: nat where "PIPE_BUFF = 65536"
definition SIGPIPE :: u32 where "SIGPIPE = 13"

record PipeInfo =
  buf :: "u8 list"
  assigned :: int
  writeFds :: int
  readFds :: int
  LOCK_PIPE :: Spinlock

record pipe_sys =
  info :: PipeInfo
  pending :: u64
  rung :: "u32 list"
  freed :: bool

type_synonym env = "pipe_sys \<Rightarrow> pipe_sys"

abbreviation set_lock :: "pipe_sys \<Rightarrow> Spinlock \<Rightarrow> pipe_sys" where
  "set_lock s l \<equiv> s\<lparr>info := (info s)\<lparr>LOCK_PIPE := l\<rparr>\<rparr>"

abbreviation ring :: "u32 \<Rightarrow> pipe_sys \<Rightarrow> pipe_sys" where
  "ring ev s \<equiv> s\<lparr>rung := rung s @ [ev]\<rparr>"

text \<open>Touching a freed object is a \<open>Fault\<close>.\<close>

definition lock_pipe :: "pipe_sys \<Rightarrow> pipe_sys outcome" where
  "lock_pipe s = (if freed s then Fault
     else obind (spinlockAcquire (LOCK_PIPE (info s))) (\<lambda>l. Ok (set_lock s l)))"

abbreviation unlock_pipe :: "pipe_sys \<Rightarrow> pipe_sys" where
  "unlock_pipe s \<equiv> set_lock s (spinlockRelease (LOCK_PIPE (info s)))"

section \<open>Opening, duplicating, closing\<close>

text \<open>The results of the two \<^verbatim>\<open>fsUserOpen\<close> calls and whether \<^verbatim>\<open>fsUserGetNode\<close> finds the nodes
  are arguments; \<open>None\<close> is the error return.\<close>

definition pipeOpen :: "int \<Rightarrow> int \<Rightarrow> bool \<Rightarrow> bool \<Rightarrow> u64 \<Rightarrow> (pipe_sys \<times> int \<times> int) option" where
  "pipeOpen readFd writeFd readNode writeNode sigs =
     (if readFd < 0 \<or> writeFd < 0 then None
      else if \<not> readNode \<or> \<not> writeNode then None
      else Some (\<lparr>info = \<lparr>buf = replicate PIPE_BUFF 0, assigned = 0, writeFds = 1, readFds = 1,
                          LOCK_PIPE = False\<rparr>,
                  pending = sigs, rung = [], freed = False\<rparr>, readFd, writeFd))"

definition pipeDuplicate :: "bool \<Rightarrow> pipe_sys \<Rightarrow> pipe_sys outcome" where
  "pipeDuplicate write s =
     obind (lock_pipe s) (\<lambda>s1.
       Ok (unlock_pipe
            (if write then s1\<lparr>info := (info s1)\<lparr>writeFds := writeFds (info s1) + 1\<rparr>\<rparr>
             else s1\<lparr>info := (info s1)\<lparr>readFds := readFds (info s1) + 1\<rparr>\<rparr>)))"

definition pipeCloseEnd :: "bool \<Rightarrow> pipe_sys \<Rightarrow> pipe_sys outcome" where
  "pipeCloseEnd write s =
     obind (lock_pipe s) (\<lambda>s1.
       let s2 = (if write then s1\<lparr>info := (info s1)\<lparr>writeFds := writeFds (info s1) - 1\<rparr>\<rparr>
                 else s1\<lparr>info := (info s1)\<lparr>readFds := readFds (info s1) - 1\<rparr>\<rparr>);
           noWriter = (writeFds (info s2) = 0); noReader = (readFds (info s2) = 0);
           pollWith = or (if noWriter then EPOLLHUP else 0) (if noReader then EPOLLERR else 0);
           s3 = (if noReader \<and> noWriter then s2\<lparr>freed := True\<rparr> else unlock_pipe s2)
       in Ok (if pollWith \<noteq> 0 then ring pollWith s3 else s3))"

section \<open>Reading\<close>

datatype gate = Enter pipe_sys | Refuse u64 pipe_sys | Block u32 pipe_sys

text \<open>The waiting loop of \<^verbatim>\<open>pipeRead\<close>: it is left with the lock held when there is something to
  read or nobody left to write.\<close>

primrec pipe_read_gate :: "env list \<Rightarrow> u32 \<Rightarrow> pipe_sys \<Rightarrow> gate outcome" where
  "pipe_read_gate [] flags s =
     obind (lock_pipe s) (\<lambda>s1.
       if writeFds (info s1) = 0 \<or> assigned (info s1) > 0 then Ok (Enter s1)
       else if and flags O_NONBLOCK \<noteq> 0 then Ok (Refuse (ERR EAGAIN) (unlock_pipe s1))
       else Ok (Block EPOLLIN (unlock_pipe s1)))"
| "pipe_read_gate (e # es) flags s =
     obind (lock_pipe s) (\<lambda>s1.
       if writeFds (info s1) = 0 \<or> assigned (info s1) > 0 then Ok (Enter s1)
       else if and flags O_NONBLOCK \<noteq> 0 then Ok (Refuse (ERR EAGAIN) (unlock_pipe s1))
       else pipe_read_gate es flags (e (unlock_pipe s1)))"

definition pipeRead ::
    "env list \<Rightarrow> u32 \<Rightarrow> pipe_sys \<Rightarrow> u8 list \<Rightarrow> size_t \<Rightarrow> (blocking \<times> u8 list \<times> pipe_sys) outcome" where
  "pipeRead envs flags s out lim =
     (let limit = (if unat lim > PIPE_BUFF then of_nat PIPE_BUFF else lim) in
      obind (pipe_read_gate envs flags s) (\<lambda>g.
        case g of
          Refuse e s1 \<Rightarrow> Ok (Ret e, out, s1)
        | Block ev s1 \<Rightarrow> Ok (Wait ev, out, s1)
        | Enter s1 \<Rightarrow>
            if assigned (info s1) = 0 then Ok (Ret 0, out, unlock_pipe s1)
            else
             (let toCopy = (if word_of_int (assigned (info s1)) > limit then unat limit
                            else nat (assigned (info s1))) in
              obind (blit out 0 (buf (info s1)) 0 toCopy) (\<lambda>out'.
              obind (memmove (buf (info s1)) 0 toCopy (PIPE_BUFF - toCopy)) (\<lambda>b.
                Ok (Ret (of_nat toCopy), out',
                    ring EPOLLOUT (unlock_pipe (s1\<lparr>info := (info s1)
                      \<lparr>assigned := assigned (info s1) - int toCopy, buf := b\<rparr>\<rparr>))))))))"

section \<open>Writing\<close>

text \<open>The loop of \<^verbatim>\<open>pipeWriteInner\<close>, left with the lock held when \<open>limit\<close> bytes fit. The test
  for a missing reader comes after the test for room.\<close>

definition no_reader_signal :: "pipe_sys \<Rightarrow> pipe_sys" where
  "no_reader_signal s = s\<lparr>pending := atomicBitmapSet (pending s) SIGPIPE\<rparr>"

primrec pipe_write_gate :: "env list \<Rightarrow> u32 \<Rightarrow> pipe_sys \<Rightarrow> size_t \<Rightarrow> (gate \<times> env list) outcome" where
  "pipe_write_gate [] flags s limit =
     obind (lock_pipe s) (\<lambda>s1.
       if word_of_int (assigned (info s1)) + limit \<le> of_nat PIPE_BUFF then Ok (Enter s1, [])
       else if readFds (info s1) = 0
       then Ok (Refuse (ERR EPIPE) (no_reader_signal (unlock_pipe s1)), [])
       else if and flags O_NONBLOCK \<noteq> 0 then Ok (Refuse (ERR EAGAIN) (unlock_pipe s1), [])
       else Ok (Block EPOLLOUT (unlock_pipe s1), []))"
| "pipe_write_gate (e # es) flags s limit =
     obind (lock_pipe s) (\<lambda>s1.
       if word_of_int (assigned (info s1)) + limit \<le> of_nat PIPE_BUFF then Ok (Enter s1, e # es)
       else if readFds (info s1) = 0
       then Ok (Refuse (ERR EPIPE) (no_reader_signal (unlock_pipe s1)), e # es)
       else if and flags O_NONBLOCK \<noteq> 0 then Ok (Refuse (ERR EAGAIN) (unlock_pipe s1), e # es)
       else pipe_write_gate es flags (e (unlock_pipe s1)) limit)"

definition pipeWriteInner ::
    "env list \<Rightarrow> u32 \<Rightarrow> pipe_sys \<Rightarrow> u8 list \<Rightarrow> size_t \<Rightarrow> (blocking \<times> pipe_sys \<times> env list) outcome" where
  "pipeWriteInner envs flags s inp limit =
     obind (pipe_write_gate envs flags s limit) (\<lambda>(g, envs').
       case g of
         Refuse e s1 \<Rightarrow> Ok (Ret e, s1, envs')
       | Block ev s1 \<Rightarrow> Ok (Wait ev, s1, envs')
       | Enter s1 \<Rightarrow>
           obind (blit (buf (info s1)) (nat (assigned (info s1))) inp 0 (unat limit)) (\<lambda>b.
             Ok (Ret limit,
                 ring EPOLLIN (unlock_pipe (s1\<lparr>info := (info s1)
                   \<lparr>assigned := assigned (info s1) + int (unat limit), buf := b\<rparr>\<rparr>)),
                 envs')))"

text \<open>
  The loop \<^verbatim>\<open>while (cycle != n)\<close> around \<^verbatim>\<open>pipeWriteInner\<close>, with \<open>n\<close> bytes left from offset
  \<open>off\<close> of the input. A result of \<open>None\<close> is the end of the loop; a round that makes no progress
  would repeat for ever.
\<close>

function write_cycle :: "u32 \<Rightarrow> u8 list \<Rightarrow> nat \<Rightarrow> nat \<Rightarrow> pipe_sys \<Rightarrow> env list \<Rightarrow>
    (blocking option \<times> pipe_sys \<times> env list) outcome" where
  "write_cycle flags inp off n s envs =
     (if n = 0 then Ok (None, s, envs)
      else obind (pipeWriteInner envs flags s (drop off inp) (of_nat n)) (\<lambda>(r, s', envs').
        case r of
          Wait ev \<Rightarrow> Ok (Some (Wait ev), s', envs')
        | Ret x \<Rightarrow> if RET_IS_ERR x then Ok (Some (Ret x), s', envs')
                   else if unat x = 0 \<or> n < unat x then Spin
                   else write_cycle flags inp (off + unat x) (n - unat x) s' envs'))"
  by pat_completeness auto
termination
  by (relation "measure (\<lambda>(flags, inp, off, n, s, envs). n)") auto

declare write_cycle.simps [simp del]

primrec write_chunks :: "nat \<Rightarrow> u32 \<Rightarrow> u8 list \<Rightarrow> nat \<Rightarrow> 32 word \<Rightarrow> pipe_sys \<Rightarrow> env list \<Rightarrow>
    (blocking option \<times> 32 word \<times> pipe_sys \<times> env list) outcome" where
  "write_chunks 0 flags inp i ret s envs = Ok (None, ret, s, envs)"
| "write_chunks (Suc k) flags inp i ret s envs =
     obind (write_cycle flags inp (i * PIPE_BUFF) PIPE_BUFF s envs) (\<lambda>(r, s', envs').
       case r of
         Some b \<Rightarrow> Ok (Some b, ret, s', envs')
       | None \<Rightarrow> write_chunks k flags inp (Suc i) (ret + of_nat PIPE_BUFF) s' envs')"

definition pipeWrite ::
    "env list \<Rightarrow> u32 \<Rightarrow> pipe_sys \<Rightarrow> u8 list \<Rightarrow> size_t \<Rightarrow> (blocking \<times> pipe_sys) outcome" where
  "pipeWrite envs flags s inp limit =
     (let chunks = unat limit div PIPE_BUFF; remainder = unat limit mod PIPE_BUFF in
      obind (write_chunks chunks flags inp 0 0 s envs) (\<lambda>(r, ret, s1, envs1).
        case r of
          Some b \<Rightarrow> Ok (b, s1)
        | None \<Rightarrow>
            if remainder = 0 then Ok (Ret (scast ret), s1)
            else obind (write_cycle flags inp (chunks * PIPE_BUFF) remainder s1 envs1) (\<lambda>(r, s2, envs2).
              case r of
                Some b \<Rightarrow> Ok (b, s2)
              | None \<Rightarrow> Ok (Ret (scast (ret + of_nat remainder)), s2))))"

section \<open>Polling and fixed answers\<close>

definition pipeInternalPoll :: "pipe_sys \<Rightarrow> u32 \<Rightarrow> (u32 \<times> pipe_sys) outcome" where
  "pipeInternalPoll s events =
     obind (lock_pipe s) (\<lambda>s1.
       let p = info s1;
           out1 = (if and events EPOLLIN \<noteq> 0
                   then or (if writeFds p = 0 then EPOLLHUP else 0)
                           (if assigned p > 0 then EPOLLIN else 0)
                   else 0);
           out2 = (if and events EPOLLOUT \<noteq> 0
                   then (if readFds p = 0 then EPOLLERR
                         else if assigned p < int PIPE_BUFF then EPOLLOUT else 0)
                   else 0)
       in Ok (or out1 out2, unlock_pipe s1))"

definition pipeBadRead :: u64 where "pipeBadRead = ERR EBADF"
definition pipeBadWrite :: u64 where "pipeBadWrite = ERR EBADF"
definition pipeBadIoctl :: u64 where "pipeBadIoctl = ERR ENOTTY"
definition pipeBadMmap :: u64 where "pipeBadMmap = - 1"

section \<open>Well-formed pipes\<close>

definition pipe_ok :: "pipe_sys \<Rightarrow> bool" where
  "pipe_ok s \<longleftrightarrow> \<not> freed s \<and> \<not> LOCK_PIPE (info s) \<and> length (buf (info s)) = PIPE_BUFF \<and>
     0 \<le> assigned (info s) \<and> assigned (info s) \<le> int PIPE_BUFF"

definition pipe_contents :: "pipe_sys \<Rightarrow> u8 list" where
  "pipe_contents s = take (nat (assigned (info s))) (buf (info s))"

text \<open>What other tasks do keeps the pipe well formed.\<close>

definition envs_ok :: "env list \<Rightarrow> bool" where
  "envs_ok envs \<longleftrightarrow> (\<forall>e \<in> set envs. \<forall>s. pipe_ok s \<longrightarrow> pipe_ok (e s))"

definition after :: "env list \<Rightarrow> pipe_sys \<Rightarrow> pipe_sys" where
  "after envs s = fold (\<lambda>e s. e s) envs s"

lemma lock_pipe_ok [simp]: "pipe_ok s \<Longrightarrow> lock_pipe s = Ok (set_lock s True)"
  by (simp add: lock_pipe_def pipe_ok_def)

lemma unlock_ok: "pipe_ok s \<Longrightarrow> set_lock s False = s"
  by (simp add: pipe_ok_def)

lemma set_lock_twice [simp]: "set_lock (set_lock s l) l' = set_lock s l'"
  by simp

lemma length_pipe_contents: "pipe_ok s \<Longrightarrow> length (pipe_contents s) = nat (assigned (info s))"
  by (auto simp: pipe_ok_def pipe_contents_def min_def)

lemma fits_iff:
  fixes limit :: size_t
  assumes "pipe_ok s" "unat limit \<le> PIPE_BUFF"
  shows "word_of_int (assigned (info s)) + limit \<le> of_nat PIPE_BUFF \<longleftrightarrow>
    nat (assigned (info s)) + unat limit \<le> PIPE_BUFF"
proof -
  obtain n where n: "assigned (info s) = int n" "n \<le> 65536"
    using assms(1) by (metis PIPE_BUFF_def nat_0_le nat_le_iff pipe_ok_def)
  have "unat (of_nat n + limit) = n + unat limit"
    using n(2) assms(2) by (subst unat_add_no_wrap) (simp_all add: unat_of_nat PIPE_BUFF_def)
  then show ?thesis by (simp add: n(1) word_le_nat_alt PIPE_BUFF_def)
qed

lemma envs_okD: "envs_ok (e # es) \<Longrightarrow> pipe_ok s \<Longrightarrow> pipe_ok (e s) \<and> envs_ok es"
  by (simp add: envs_ok_def)

text \<open>How the writer's waiting loop can end, after the other tasks have made \<open>k\<close> moves.\<close>

definition write_entered :: "pipe_sys \<Rightarrow> size_t \<Rightarrow> gate \<Rightarrow> bool" where
  "write_entered t limit g \<longleftrightarrow>
     (if nat (assigned (info t)) + unat limit \<le> PIPE_BUFF then g = Enter (set_lock t True)
      else if readFds (info t) = 0 then g = Refuse (ERR EPIPE) (no_reader_signal t)
      else g = Refuse (ERR EAGAIN) t \<or> g = Block EPOLLOUT t)"

lemma pipe_write_gate_ends:
  assumes "pipe_ok s" "envs_ok envs" "unat limit \<le> PIPE_BUFF"
  shows "\<exists>k g. k \<le> length envs \<and> pipe_write_gate envs flags s limit = Ok (g, drop k envs) \<and>
    pipe_ok (after (take k envs) s) \<and> write_entered (after (take k envs) s) limit g"
  using assms
proof (induction envs arbitrary: s)
  case Nil
  then show ?case by (auto simp: fits_iff unlock_ok write_entered_def after_def)
next
  case (Cons e es)
  show ?case
  proof (cases "nat (assigned (info s)) + unat limit \<le> PIPE_BUFF \<or> readFds (info s) = 0 \<or>
      and flags O_NONBLOCK \<noteq> 0")
    case True
    then show ?thesis
      using Cons.prems by (intro exI [of _ 0]) (auto simp: fits_iff unlock_ok write_entered_def after_def)
  next
    case False
    have ok: "pipe_ok (e s)" "envs_ok es" using Cons.prems envs_okD by blast+
    from Cons.IH [OF ok Cons.prems(3)] obtain k g where "k \<le> length es"
      "pipe_write_gate es flags (e s) limit = Ok (g, drop k es)"
      "pipe_ok (after (take k es) (e s))" "write_entered (after (take k es) (e s)) limit g" by blast
    with False Cons.prems show ?thesis
      by (intro exI [of _ "Suc k"] exI [of _ g]) (auto simp: fits_iff unlock_ok after_def)
  qed
qed

lemma pipe_append:
  assumes "pipe_ok t" "nat (assigned (info t)) + unat limit \<le> PIPE_BUFF" "unat limit \<le> length inp"
    and gate: "pipe_write_gate envs flags s limit = Ok (Enter (set_lock t True), envs')"
  shows "\<exists>s'. pipeWriteInner envs flags s inp limit = Ok (Ret limit, s', envs') \<and> pipe_ok s' \<and>
      pipe_contents s' = pipe_contents t @ take (unat limit) inp \<and> pending s' = pending t \<and>
      writeFds (info s') = writeFds (info t) \<and> readFds (info s') = readFds (info t)"
proof -
  let ?a = "nat (assigned (info t))"
  let ?b = "take ?a (buf (info t)) @ take (unat limit) inp @ drop (?a + unat limit) (buf (info t))"
  have len: "length (buf (info t)) = PIPE_BUFF" "0 \<le> assigned (info t)" "\<not> LOCK_PIPE (info t)"
    using assms(1) by (simp_all add: pipe_ok_def)
  have "blit (buf (info t)) ?a inp 0 (unat limit) = Ok ?b"
    using assms len by (simp add: blit_Ok)
  then have "pipeWriteInner envs flags s inp limit = Ok (Ret limit,
      ring EPOLLIN (t\<lparr>info := (info t)\<lparr>assigned := assigned (info t) + int (unat limit), buf := ?b\<rparr>\<rparr>), envs')"
    using gate len by (simp add: pipeWriteInner_def)
  moreover have "assigned (info t) + int (unat limit) \<le> int PIPE_BUFF"
    using assms(2) len(2) by (metis nat_0_le of_nat_add of_nat_mono)
  ultimately show ?thesis
    using assms len by (auto simp: pipe_ok_def pipe_contents_def nat_add_distrib min_def)
qed

lemma pipe_take:
  assumes "pipe_ok s" "assigned (info s) > 0" "unat lim \<le> length out" "unat lim \<le> PIPE_BUFF"
  shows "\<exists>s' n. pipeRead envs flags s out lim =
      Ok (Ret (of_nat n), take n (pipe_contents s) @ drop n out, s') \<and>
    n = min (unat lim) (length (pipe_contents s)) \<and> pipe_ok s' \<and>
    pipe_contents s' = drop n (pipe_contents s)"
proof -
  obtain a where a: "assigned (info s) = int a" "a \<le> 65536"
    using assms(1) by (metis PIPE_BUFF_def nat_0_le nat_le_iff pipe_ok_def)
  let ?n = "min (unat lim) a" and ?b = "buf (info s)"
  have len: "length ?b = 65536" "\<not> LOCK_PIPE (info s)" "\<not> freed s"
    using assms(1) by (simp_all add: pipe_ok_def PIPE_BUFF_def)
  have lt: "lim < word_of_nat a \<longleftrightarrow> unat lim < a"
    using a(2) by (simp add: word_less_nat_alt unat_of_nat)
  have gate: "pipe_read_gate envs flags s = Ok (Enter (set_lock s True))"
    using assms(1,2) by (cases envs) simp_all
  have mv: "memmove ?b 0 ?n (65536 - ?n) = Ok (drop ?n ?b @ drop (65536 - ?n) ?b)"
    using a len by (subst memmove_eq) simp_all
  have out: "blit out 0 ?b 0 ?n = Ok (take ?n ?b @ drop ?n out)"
    using a len assms(3) by (simp add: blit_Ok)
  let ?s = "ring EPOLLOUT (s\<lparr>info := (info s)\<lparr>assigned := int a - int ?n, buf := drop ?n ?b @ drop (65536 - ?n) ?b\<rparr>\<rparr>)"
  have "pipeRead envs flags s out lim = Ok (Ret (of_nat ?n), take ?n ?b @ drop ?n out, ?s)"
    using gate mv out assms(2,4) a(1) len
    by (cases "unat lim < a") (simp_all add: pipeRead_def Let_def PIPE_BUFF_def lt not_less min_absorb1 min_absorb2)
  moreover have "pipe_ok ?s" using a len by (auto simp: pipe_ok_def PIPE_BUFF_def min_def)
  moreover have "pipe_contents ?s = drop ?n (pipe_contents s)"
    using a len by (simp add: pipe_contents_def drop_take nat_diff_distrib')
  moreover have "take ?n ?b = take ?n (pipe_contents s)" "length (pipe_contents s) = a"
    using a len by (simp_all add: pipe_contents_def min_def)
  ultimately show ?thesis by auto
qed

lemma RET_IS_ERR_small: "unat x \<le> 65536 \<Longrightarrow> \<not> RET_IS_ERR x"
  by (simp add: RET_IS_ERR_def word_less_nat_alt)

text \<open>A write that fits is one chunk, or one remainder.\<close>

lemma pipeWrite_fits:
  assumes "pipe_ok s" "length (pipe_contents s) + length data \<le> PIPE_BUFF" "data \<noteq> []"
  shows "\<exists>s'. pipeWrite envs flags s data (of_nat (length data)) =
      Ok (Ret (of_nat (length data)), s') \<and> pipe_ok s' \<and>
    pipe_contents s' = pipe_contents s @ data \<and>
    writeFds (info s') = writeFds (info s) \<and> readFds (info s') = readFds (info s)"
proof -
  let ?n = "of_nat (length data) :: size_t"
  have small: "length data \<le> 65536" using assms(2) by (simp add: PIPE_BUFF_def)
  then have n: "unat ?n = length data" by (simp add: unat_of_nat)
  have fit: "nat (assigned (info s)) + unat ?n \<le> PIPE_BUFF"
    using assms(2) n length_pipe_contents [OF assms(1)] by simp
  have gate: "pipe_write_gate envs flags s ?n = Ok (Enter (set_lock s True), envs)"
    using assms(1) fits_iff [OF assms(1), of ?n] fit n small
    by (cases envs) (simp_all add: PIPE_BUFF_def)
  from pipe_append [OF assms(1) fit _ gate, of data] n obtain s' where
    s': "pipeWriteInner envs flags s data ?n = Ok (Ret ?n, s', envs)" "pipe_ok s'"
    "pipe_contents s' = pipe_contents s @ data"
    "writeFds (info s') = writeFds (info s)" "readFds (info s') = readFds (info s)" by auto
  have err: "\<not> RET_IS_ERR ?n" using small n by (intro RET_IS_ERR_small) simp
  have cyc: "write_cycle flags data 0 (length data) s envs = Ok (None, s', envs)"
    using s'(1) assms(3) n err
    by (subst write_cycle.simps) (simp add: write_cycle.simps [of _ _ _ 0])
  have "pipeWrite envs flags s data ?n = Ok (Ret ?n, s')"
  proof (cases "length data = 65536")
    case True
    then show ?thesis using cyc n by (simp add: pipeWrite_def Let_def PIPE_BUFF_def)
  next
    case False
    then have "length data < 65536" using small by simp
    then have "length data div 65536 = 0" "length data mod 65536 = length data" by simp_all
    moreover have "(scast (of_nat (length data) :: 32 word) :: u64) = ?n"
    proof -
      have u: "unat (of_nat (length data) :: 32 word) = length data" using small by (simp add: unat_of_nat)
      then have "unat (of_nat (length data) :: 32 word) < 2 ^ 31" using small by simp
      from unat_scast_int [OF this] u n show ?thesis by (simp add: word_unat_eq_iff)
    qed
    ultimately show ?thesis
      using cyc n assms(3) by (simp add: pipeWrite_def Let_def PIPE_BUFF_def)
  qed
  with s' show ?thesis by auto
qed

section \<open>Open ends\<close>

text \<open>The pipe together with the number of descriptors that refer to each of its ends.\<close>

record pipe_use =
  psys :: pipe_sys
  writers :: nat
  readers :: nat

inductive pipe_step :: "pipe_use \<Rightarrow> pipe_use \<Rightarrow> bool" where
  dup_write: "0 < writers u \<Longrightarrow> pipeDuplicate True (psys u) = Ok s' \<Longrightarrow>
     pipe_step u (u\<lparr>psys := s', writers := writers u + 1\<rparr>)"
| dup_read: "0 < readers u \<Longrightarrow> pipeDuplicate False (psys u) = Ok s' \<Longrightarrow>
     pipe_step u (u\<lparr>psys := s', readers := readers u + 1\<rparr>)"
| close_write: "0 < writers u \<Longrightarrow> pipeCloseEnd True (psys u) = Ok s' \<Longrightarrow>
     pipe_step u (u\<lparr>psys := s', writers := writers u - 1\<rparr>)"
| close_read: "0 < readers u \<Longrightarrow> pipeCloseEnd False (psys u) = Ok s' \<Longrightarrow>
     pipe_step u (u\<lparr>psys := s', readers := readers u - 1\<rparr>)"

inductive pipe_reachable :: "pipe_use \<Rightarrow> bool" where
  opened: "pipeOpen r w rn wn sigs = Some (s, fds) \<Longrightarrow>
     pipe_reachable \<lparr>psys = s, writers = 1, readers = 1\<rparr>"
| step: "pipe_reachable u \<Longrightarrow> pipe_step u u' \<Longrightarrow> pipe_reachable u'"

definition pipe_use_inv :: "pipe_use \<Rightarrow> bool" where
  "pipe_use_inv u \<longleftrightarrow> writeFds (info (psys u)) = int (writers u) \<and>
     readFds (info (psys u)) = int (readers u) \<and>
     (freed (psys u) \<longleftrightarrow> writers u = 0 \<and> readers u = 0) \<and>
     (LOCK_PIPE (info (psys u)) \<longleftrightarrow> freed (psys u))"

lemma lock_pipe_Ok: "lock_pipe s = Ok s' \<longleftrightarrow> \<not> freed s \<and> \<not> LOCK_PIPE (info s) \<and> s' = set_lock s True"
  by (auto simp: lock_pipe_def spinlockAcquire_def)

lemma pipe_step_inv: "pipe_step u u' \<Longrightarrow> pipe_use_inv u \<Longrightarrow> pipe_use_inv u'"
  by (induction rule: pipe_step.induct)
    (auto simp: pipe_use_inv_def pipeDuplicate_def pipeCloseEnd_def Let_def lock_pipe_Ok
      outcome_simps of_nat_diff)

lemma pipe_reachable_inv: "pipe_reachable u \<Longrightarrow> pipe_use_inv u"
proof (induction rule: pipe_reachable.induct)
  case (opened r w rn wn sigs s fds)
  then show ?case by (auto simp: pipeOpen_def pipe_use_inv_def split: if_splits)
qed (rule pipe_step_inv)

section \<open>Properties\<close>

text \<open>C16: a pipe delivers what was written to it, in order. When the data fits, \<^verbatim>\<open>pipeWrite\<close>
  returns its length without waiting, and a following \<^verbatim>\<open>pipeRead\<close> returns the oldest bytes and
  leaves the rest queued.\<close>

theorem pipe_write_read:
  assumes "pipe_ok s" "data \<noteq> []" "length (pipe_contents s) + length data \<le> PIPE_BUFF"
    and "unat lim \<le> length out" "unat lim \<le> PIPE_BUFF"
  shows "\<exists>s1 s2 n. pipeWrite [] flags s data (of_nat (length data)) = Ok (Ret (of_nat (length data)), s1) \<and>
    pipeRead [] flags s1 out lim =
      Ok (Ret (of_nat n), take n (pipe_contents s @ data) @ drop n out, s2) \<and>
    n = min (unat lim) (length (pipe_contents s @ data)) \<and> pipe_ok s2 \<and>
    pipe_contents s2 = drop n (pipe_contents s @ data)"
proof -
  from pipeWrite_fits [OF assms(1,3,2), of "[]" flags] obtain s1 where
    s1: "pipeWrite [] flags s data (of_nat (length data)) = Ok (Ret (of_nat (length data)), s1)"
    "pipe_ok s1" "pipe_contents s1 = pipe_contents s @ data" by blast
  have "assigned (info s1) > 0"
    using length_pipe_contents [OF s1(2)] s1(3) assms(2) by (cases data) auto
  from pipe_take [OF s1(2) this assms(4,5), of "[]" flags] s1 show ?thesis by auto
qed

definition example_pipe :: pipe_sys where
  "example_pipe = \<lparr>info = \<lparr>buf = [1, 2] @ replicate 65534 0, assigned = 2, writeFds = 1, readFds = 1,
     LOCK_PIPE = False\<rparr>, pending = 0, rung = [], freed = False\<rparr>"

lemma example_pipe_ok: "pipe_ok example_pipe" "pipe_contents example_pipe = [1, 2]"
  by (simp_all add: pipe_ok_def pipe_contents_def example_pipe_def PIPE_BUFF_def)

theorem pipe_write_read_witness:
  "\<exists>s1 s2 n. pipeWrite [] 0 example_pipe [3] (of_nat (length [3 :: u8])) =
      Ok (Ret (of_nat (length [3 :: u8])), s1) \<and>
    pipeRead [] 0 s1 [0, 0] 2 =
      Ok (Ret (of_nat n), take n (pipe_contents example_pipe @ [3]) @ drop n [0, 0], s2) \<and>
    n = min (unat (2 :: size_t)) (length (pipe_contents example_pipe @ [3])) \<and> pipe_ok s2 \<and>
    pipe_contents s2 = drop n (pipe_contents example_pipe @ [3])"
  by (rule pipe_write_read) (simp_all add: example_pipe_ok PIPE_BUFF_def)

text \<open>C17: a write of at most \<^verbatim>\<open>PIPE_BUFF\<close> bytes is all or nothing, whatever the other tasks do to
  the pipe while it waits. After some number of their moves, \<^verbatim>\<open>pipeWriteInner\<close> either has
  appended the whole data to the contents of that moment and returns its length, or it returns an
  error or keeps waiting with the contents untouched.\<close>

theorem pipeWriteInner_atomic:
  assumes "pipe_ok s" "envs_ok envs" "unat limit \<le> PIPE_BUFF" "unat limit \<le> length inp"
  shows "\<exists>k r s'. k \<le> length envs \<and> pipeWriteInner envs flags s inp limit = Ok (r, s', drop k envs) \<and>
    pipe_ok s' \<and>
    (if r = Ret limit then pipe_contents s' = pipe_contents (after (take k envs) s) @ take (unat limit) inp
     else r \<in> {Ret (ERR EPIPE), Ret (ERR EAGAIN), Wait EPOLLOUT} \<and>
          pipe_contents s' = pipe_contents (after (take k envs) s))"
proof -
  obtain k g where k: "k \<le> length envs" "pipe_write_gate envs flags s limit = Ok (g, drop k envs)"
    "pipe_ok (after (take k envs) s)" "write_entered (after (take k envs) s) limit g"
    using pipe_write_gate_ends [OF assms(1-3)] by blast
  let ?t = "after (take k envs) s"
  show ?thesis
  proof (cases "nat (assigned (info ?t)) + unat limit \<le> PIPE_BUFF")
    case True
    with k(2,4) have "pipe_write_gate envs flags s limit = Ok (Enter (set_lock ?t True), drop k envs)"
      by (simp add: write_entered_def)
    from pipe_append [OF k(3) True assms(4) this] k(1) show ?thesis by auto
  next
    case False
    have lim: "\<not> RET_IS_ERR limit" using assms(3) by (intro RET_IS_ERR_small) (simp add: PIPE_BUFF_def)
    have "RET_IS_ERR (ERR EPIPE)" "RET_IS_ERR (ERR EAGAIN)" by code_simp+
    with lim have "limit \<noteq> ERR EPIPE" "limit \<noteq> ERR EAGAIN" by metis+
    moreover from False k(4) have "g = Refuse (ERR EPIPE) (no_reader_signal ?t) \<or>
        g = Refuse (ERR EAGAIN) ?t \<or> g = Block EPOLLOUT ?t"
      by (auto simp: write_entered_def split: if_splits)
    moreover have "pipe_ok (no_reader_signal ?t)" "pipe_contents (no_reader_signal ?t) = pipe_contents ?t"
      using k(3) by (simp_all add: no_reader_signal_def pipe_ok_def pipe_contents_def)
    ultimately show ?thesis
      using k(1-3) by (intro exI [of _ k]) (auto simp: pipeWriteInner_def intro: exI [of _ "Ret (ERR EPIPE)"] exI [of _ "Ret (ERR EAGAIN)"])
  qed
qed

definition drain :: env where
  "drain s = s\<lparr>info := (info s)\<lparr>assigned := 0\<rparr>\<rparr>"

theorem pipeWriteInner_atomic_witness:
  "\<exists>k r s'. k \<le> length [drain] \<and>
    pipeWriteInner [drain] 0 example_pipe (replicate 65536 7) 65536 = Ok (r, s', drop k [drain]) \<and>
    pipe_ok s' \<and>
    (if r = Ret 65536
     then pipe_contents s' = pipe_contents (after (take k [drain]) example_pipe) @
       take (unat (65536 :: size_t)) (replicate 65536 7)
     else r \<in> {Ret (ERR EPIPE), Ret (ERR EAGAIN), Wait EPOLLOUT} \<and>
          pipe_contents s' = pipe_contents (after (take k [drain]) example_pipe))"
  by (rule pipeWriteInner_atomic)
     (use example_pipe_ok in \<open>auto simp: envs_ok_def drain_def pipe_ok_def PIPE_BUFF_def\<close>)


definition opened_pipe :: pipe_use where
  "opened_pipe = \<lparr>psys = \<lparr>info = \<lparr>buf = replicate PIPE_BUFF 0, assigned = 0, writeFds = 1, readFds = 1,
     LOCK_PIPE = False\<rparr>, pending = 0, rung = [], freed = False\<rparr>, writers = 1, readers = 1\<rparr>"

lemma opened_pipe_reachable: "pipe_reachable opened_pipe"
  unfolding opened_pipe_def by (rule pipe_reachable.opened [of 3 4 True True 0]) (simp add: pipeOpen_def)


text \<open>C19: a write to a pipe without readers still succeeds while there is room: the test for a
  missing reader, with its \<^verbatim>\<open>SIGPIPE\<close> and \<^verbatim>\<open>EPIPE\<close>, is reached only when the data does not
  fit.\<close>

theorem pipe_no_reader_write:
  assumes "pipe_ok s" "readFds (info s) = 0" "data \<noteq> []"
    and "length (pipe_contents s) + length data \<le> PIPE_BUFF"
  shows "\<exists>s'. pipeWrite [] flags s data (of_nat (length data)) = Ok (Ret (of_nat (length data)), s') \<and>
    readFds (info s') = 0 \<and> pipe_contents s' = pipe_contents s @ data"
  using pipeWrite_fits [OF assms(1,4,3), of "[]" flags] assms(2) by auto

theorem pipe_no_reader_write_witness:
  "\<exists>s'. pipeWrite [] 0 (example_pipe\<lparr>info := (info example_pipe)\<lparr>readFds := 0\<rparr>\<rparr>) [5] (of_nat (length [5 :: u8])) =
      Ok (Ret (of_nat (length [5 :: u8])), s') \<and> readFds (info s') = 0 \<and>
    pipe_contents s' = pipe_contents (example_pipe\<lparr>info := (info example_pipe)\<lparr>readFds := 0\<rparr>\<rparr>) @ [5]"
  by (rule pipe_no_reader_write)
     (simp_all add: pipe_ok_def pipe_contents_def example_pipe_def PIPE_BUFF_def)

end
