(* ===== verification/Paging.thy ===== *)
theory Paging
  imports Pmm
begin

unbundle bit_operations_syntax

text \<open>
  Page tables of \<^verbatim>\<open>memory/paging.c\<close> and \<^verbatim>\<open>paging.h\<close>, with \<^verbatim>\<open>VirtualFree\<close> of
  \<^verbatim>\<open>memory/vmm.c\<close>. Physical memory is a function from the address of a 4 KiB frame and the index
  of a 64-bit word in it to that word. A table is reached, as in the code, through its address in
  the higher-half direct map. The tables below a directory form a tree of frames; mapping a page
  updates the translation at that page alone, allocates what tables are missing from the frame
  bitmap and gives back the frame that was mapped there before.
\<close>

section \<open>Constants and state\<close>

definition PF_PRESENT :: u64 where "PF_PRESENT = 1"
definition PF_RW :: u64 where "PF_RW = 2"
definition PF_USER :: u64 where "PF_USER = 4"
definition PF_PS :: u64 where "PF_PS = 0x80"
definition PF_SHARED :: u64 where "PF_SHARED = 0x200"

definition PGMASK_ENTRY :: u64 where "PGMASK_ENTRY = 0x1ff"
definition PAGE_SIZE :: u64 where "PAGE_SIZE = 0x1000"

definition AMD64_MM_STRIPSX :: "u64 \<Rightarrow> u64" where
  "AMD64_MM_STRIPSX a = a AND 0xFFFFFFFFFFFF"

definition PML4E :: "u64 \<Rightarrow> nat" where "PML4E a = unat (drop_bit 39 a AND PGMASK_ENTRY)"
definition PDPTE :: "u64 \<Rightarrow> nat" where "PDPTE a = unat (drop_bit 30 a AND PGMASK_ENTRY)"
definition PDE :: "u64 \<Rightarrow> nat" where "PDE a = unat (drop_bit 21 a AND PGMASK_ENTRY)"
definition PTE :: "u64 \<Rightarrow> nat" where "PTE a = unat (drop_bit 12 a AND PGMASK_ENTRY)"

definition BITS_TO_VIRT_ADDR :: "nat \<Rightarrow> nat \<Rightarrow> nat \<Rightarrow> nat \<Rightarrow> u64" where
  "BITS_TO_VIRT_ADDR i4 i3 i2 i1 =
     push_bit 39 (of_nat i4) OR push_bit 30 (of_nat i3) OR push_bit 21 (of_nat i2) OR
     push_bit 12 (of_nat i1)"

definition PTE_ADDR_MASK :: u64 where "PTE_ADDR_MASK = 0x000ffffffffff000"

definition PTE_GET_ADDR :: "u64 \<Rightarrow> u64" where
  "PTE_GET_ADDR v = v AND PTE_ADDR_MASK"

definition P_PHYS_ADDR :: "u64 \<Rightarrow> u64" where
  "P_PHYS_ADDR x = x AND NOT 0xFFF"

abbreviation present :: "u64 \<Rightarrow> bool" where
  "present e \<equiv> e AND PF_PRESENT \<noteq> 0"

text \<open>What the boot loader and the frame buffer driver fix once.\<close>

record bootinfo =
  hhdmOffset :: u64
  mmTotal :: u64
  fb_phys :: u64
  fb_width :: u64
  fb_height :: u64

record paging =
  mem :: "u64 \<Rightarrow> nat \<Rightarrow> u64"
  pmm :: pmm_state
  WLOCK_PAGING :: SpinlockCnt
  globalPagedir :: u64
  cr3 :: u64

text \<open>\<^verbatim>\<open>table[i]\<close> for a page-aligned pointer into the direct map.\<close>

definition entry :: "bootinfo \<Rightarrow> paging \<Rightarrow> u64 \<Rightarrow> nat \<Rightarrow> u64" where
  "entry b s ptr i = mem s (ptr - hhdmOffset b) i"

definition set_entry :: "bootinfo \<Rightarrow> u64 \<Rightarrow> nat \<Rightarrow> u64 \<Rightarrow> paging \<Rightarrow> paging" where
  "set_entry b ptr i v s =
     s\<lparr>mem := (mem s)(ptr - hhdmOffset b := (mem s (ptr - hhdmOffset b))(i := v))\<rparr>"

abbreviation next_table :: "bootinfo \<Rightarrow> paging \<Rightarrow> u64 \<Rightarrow> nat \<Rightarrow> u64" where
  "next_table b s ptr i \<equiv> PTE_GET_ADDR (entry b s ptr i) + hhdmOffset b"

section \<open>Mapping\<close>

definition PagingPhysAllocate :: "paging \<Rightarrow> (u64 \<times> paging) outcome" where
  "PagingPhysAllocate s =
     obind (PhysicalAllocate (pmm s) 1) (\<lambda>(phys, p).
       Ok (phys, s\<lparr>pmm := p, mem := (mem s)(phys := (\<lambda>_. 0))\<rparr>))"

text \<open>The three identical steps of \<^verbatim>\<open>VirtualMapL\<close> that create a missing table.\<close>

definition ensure_table :: "bootinfo \<Rightarrow> paging \<Rightarrow> u64 \<Rightarrow> nat \<Rightarrow> (u64 \<times> paging) outcome" where
  "ensure_table b s ptr i =
     (if present (entry b s ptr i) then Ok (next_table b s ptr i, s)
      else obind (PagingPhysAllocate s) (\<lambda>(target, s1).
        let s2 = set_entry b ptr i (target OR PF_PRESENT OR PF_RW OR PF_USER) s1
        in Ok (next_table b s2 ptr i, s2)))"

definition in_fb :: "bootinfo \<Rightarrow> u64 \<Rightarrow> bool" where
  "in_fb b a \<longleftrightarrow> fb_phys b \<le> a \<and> a < fb_phys b + fb_width b * fb_height b * 4"

definition VirtualMapL :: "bootinfo \<Rightarrow> paging \<Rightarrow> u64 \<Rightarrow> u64 \<Rightarrow> u64 \<Rightarrow> u64 \<Rightarrow> paging outcome" where
  "VirtualMapL b s pagedir virt_addr phys_addr flags =
     (if virt_addr mod PAGE_SIZE \<noteq> 0 then Panic
      else
       (let v = AMD64_MM_STRIPSX virt_addr in
        obind (spinlockCntWriteAcquire (WLOCK_PAGING s)) (\<lambda>l.
        obind (ensure_table b (s\<lparr>WLOCK_PAGING := l\<rparr>) pagedir (PML4E v)) (\<lambda>(pdp, s1).
        obind (ensure_table b s1 pdp (PDPTE v)) (\<lambda>(pd, s2).
        obind (ensure_table b s2 pd (PDE v)) (\<lambda>(pt, s3).
        let old = entry b s3 pt (PTE v) in
        obind (if present old \<and> \<not> in_fb b (PTE_GET_ADDR old)
               then obind (PhysicalFree (pmm s3) (PTE_GET_ADDR old) 1) (\<lambda>p. Ok (s3\<lparr>pmm := p\<rparr>))
               else Ok s3) (\<lambda>s4.
        let s5 = set_entry b pt (PTE v)
                   (if phys_addr = 0 then 0 else P_PHYS_ADDR phys_addr OR PF_PRESENT OR flags) s4 in
        obind (spinlockCntWriteRelease (WLOCK_PAGING s5)) (\<lambda>l'.
          Ok (s5\<lparr>WLOCK_PAGING := l'\<rparr>)))))))))"

definition VirtualMap :: "bootinfo \<Rightarrow> paging \<Rightarrow> u64 \<Rightarrow> u64 \<Rightarrow> u64 \<Rightarrow> paging outcome" where
  "VirtualMap b s virt_addr phys_addr flags = VirtualMapL b s (globalPagedir s) virt_addr phys_addr flags"

text \<open>The page offset \<^verbatim>\<open>i * PAGE_SIZE\<close> is an \<^verbatim>\<open>int\<close> product.\<close>

fun map_pages :: "bootinfo \<Rightarrow> nat \<Rightarrow> nat \<Rightarrow> u64 \<Rightarrow> u64 \<Rightarrow> u64 \<Rightarrow> paging \<Rightarrow> paging outcome" where
  "map_pages b i 0 virt phys flags s = Ok s"
| "map_pages b i (Suc n) virt phys flags s =
     (let off = scast (of_nat i * 0x1000 :: 32 word) in
      obind (VirtualMap b s (virt + off) (phys + off) flags) (map_pages b (Suc i) n virt phys flags))"

definition VirtualMapRegionByLength ::
    "bootinfo \<Rightarrow> paging \<Rightarrow> u64 \<Rightarrow> u64 \<Rightarrow> u64 \<Rightarrow> u64 \<Rightarrow> paging outcome" where
  "VirtualMapRegionByLength b s virt phys len flags =
     map_pages b 0 (unat (ucast (DivRoundUp len PAGE_SIZE) :: u32)) virt phys flags s"

section \<open>Translation\<close>

definition VirtualToPhysicalL :: "bootinfo \<Rightarrow> paging \<Rightarrow> u64 \<Rightarrow> u64 \<Rightarrow> u64" where
  "VirtualToPhysicalL b s pagedir virt_addr =
     (if pagedir = 0 then 0
      else if hhdmOffset b \<le> virt_addr \<and> virt_addr \<le> hhdmOffset b + max (mmTotal b) 0xFFFFFFFF
      then virt_addr - hhdmOffset b
      else
       (let v = AMD64_MM_STRIPSX (virt_addr AND NOT 0xFFF) in
        if \<not> present (entry b s pagedir (PML4E v)) then 0 else
        let pdp = next_table b s pagedir (PML4E v) in
        if \<not> present (entry b s pdp (PDPTE v)) then 0 else
        let pd = next_table b s pdp (PDPTE v) in
        if \<not> present (entry b s pd (PDE v)) then 0 else
        let pt = next_table b s pd (PDE v) in
        if present (entry b s pt (PTE v))
        then PTE_GET_ADDR (entry b s pt (PTE v)) + (virt_addr AND 0xFFF) else 0))"

definition VirtualToPhysical :: "bootinfo \<Rightarrow> paging \<Rightarrow> u64 \<Rightarrow> u64" where
  "VirtualToPhysical b s virt_addr = VirtualToPhysicalL b s (globalPagedir s) virt_addr"

definition VirtualFree :: "bootinfo \<Rightarrow> paging \<Rightarrow> u64 \<Rightarrow> 32 word \<Rightarrow> (bool \<times> paging) outcome" where
  "VirtualFree b s ptr pages =
     (let phys = VirtualToPhysical b s ptr in
      if phys = 0 then Panic
      else obind (PhysicalFree (pmm s) phys pages) (\<lambda>p. Ok (True, s\<lparr>pmm := p\<rparr>)))"

section \<open>Page directories\<close>

definition initiatePaging :: "bootinfo \<Rightarrow> paging \<Rightarrow> paging outcome" where
  "initiatePaging b s =
     (if cr3 s = 0 then Panic else Ok (s\<lparr>globalPagedir := cr3 s + hhdmOffset b\<rparr>))"

definition ChangePageDirectoryUnsafe :: "bootinfo \<Rightarrow> paging \<Rightarrow> u64 \<Rightarrow> paging outcome" where
  "ChangePageDirectoryUnsafe b s pd =
     (let targ = VirtualToPhysical b s pd in
      if targ = 0 then Panic else Ok (s\<lparr>cr3 := targ, globalPagedir := pd\<rparr>))"

definition ChangePageDirectoryFake :: "bootinfo \<Rightarrow> paging \<Rightarrow> u64 \<Rightarrow> paging outcome" where
  "ChangePageDirectoryFake b s pd =
     (if VirtualToPhysical b s pd = 0 then Panic else Ok (s\<lparr>globalPagedir := pd\<rparr>))"

text \<open>\<open>model\<close> is the page directory of the kernel task.\<close>

definition PageDirectoryAllocate :: "bootinfo \<Rightarrow> bool \<Rightarrow> u64 \<Rightarrow> paging \<Rightarrow> (u64 \<times> paging) outcome" where
  "PageDirectoryAllocate b tasksInitiated model s =
     (if \<not> tasksInitiated then Panic
      else obind (VirtualAllocate (hhdmOffset b) (pmm s) 1) (\<lambda>(out, p).
        let s1 = s\<lparr>pmm := p, mem := (mem s)(out - hhdmOffset b := (\<lambda>_. 0))\<rparr>
        in Ok (out, fold (\<lambda>i s'. set_entry b out i (entry b s' model i) s') [0..<512] s1)))"

text \<open>A loop over the 512 entries of a table, each step of which may stop the machine.\<close>

primrec ofold :: "('i \<Rightarrow> 's \<Rightarrow> 's outcome) \<Rightarrow> 'i list \<Rightarrow> 's \<Rightarrow> 's outcome" where
  "ofold f [] s = Ok s"
| "ofold f (i # is) s = obind (f i s) (ofold f is)"

definition skipped :: "u64 \<Rightarrow> bool" where
  "skipped e \<longleftrightarrow> \<not> present e \<or> e AND PF_PS \<noteq> 0"

definition free_pt :: "bootinfo \<Rightarrow> u64 \<Rightarrow> paging \<Rightarrow> paging outcome" where
  "free_pt b pt = ofold (\<lambda>i s.
     let e = entry b s pt i in
     if skipped e \<or> e AND PF_USER = 0 then Ok s
     else obind (PhysicalFree (pmm s) (PTE_GET_ADDR e) 1)
            (\<lambda>p. Ok (set_entry b pt i 0 (s\<lparr>pmm := p\<rparr>)))) [0..<512]"

definition free_pd :: "bootinfo \<Rightarrow> u64 \<Rightarrow> paging \<Rightarrow> paging outcome" where
  "free_pd b pd = ofold (\<lambda>i s.
     if skipped (entry b s pd i) then Ok s else free_pt b (next_table b s pd i) s) [0..<512]"

definition free_pdp :: "bootinfo \<Rightarrow> u64 \<Rightarrow> paging \<Rightarrow> paging outcome" where
  "free_pdp b pdp = ofold (\<lambda>i s.
     if skipped (entry b s pdp i) then Ok s else free_pd b (next_table b s pdp i) s) [0..<512]"

definition PageDirectoryFree :: "bootinfo \<Rightarrow> u64 \<Rightarrow> paging \<Rightarrow> paging outcome" where
  "PageDirectoryFree b page_dir s =
     obind (spinlockCntWriteAcquire (WLOCK_PAGING s)) (\<lambda>l.
     obind (ofold (\<lambda>i s. if skipped (entry b s page_dir i) then Ok s
                         else free_pdp b (next_table b s page_dir i) s) [0..<512]
              (s\<lparr>WLOCK_PAGING := l\<rparr>)) (\<lambda>s1.
     obind (spinlockCntWriteRelease (WLOCK_PAGING s1)) (\<lambda>l'.
       Ok (s1\<lparr>WLOCK_PAGING := l'\<rparr>))))"

text \<open>One page of \<^verbatim>\<open>PageDirectoryUserDuplicate\<close>: the read lock is dropped around the mapping.\<close>

definition dup_page :: "bootinfo \<Rightarrow> u64 \<Rightarrow> u64 \<Rightarrow> u64 \<Rightarrow> paging \<Rightarrow> paging outcome" where
  "dup_page b target virt e s =
     (let physSource = PTE_GET_ADDR e in
      obind (if e AND PF_SHARED \<noteq> 0 then Ok (physSource, s) else PagingPhysAllocate s)
        (\<lambda>(physTarget, s1).
      let s2 = s1\<lparr>mem := (mem s1)(physTarget := mem s1 physSource)\<rparr> in
      obind (spinlockCntReadRelease (WLOCK_PAGING s2)) (\<lambda>l.
      obind (VirtualMapL b (s2\<lparr>WLOCK_PAGING := l\<rparr>) target virt physTarget (PF_RW OR PF_USER)) (\<lambda>s3.
      obind (spinlockCntReadAcquire (WLOCK_PAGING s3)) (\<lambda>l'.
        Ok (s3\<lparr>WLOCK_PAGING := l'\<rparr>))))))"

definition dup_pt :: "bootinfo \<Rightarrow> u64 \<Rightarrow> nat \<Rightarrow> nat \<Rightarrow> nat \<Rightarrow> u64 \<Rightarrow> paging \<Rightarrow> paging outcome" where
  "dup_pt b target i4 i3 i2 pt = ofold (\<lambda>i1 s.
     let e = entry b s pt i1 in
     if skipped e \<or> e AND PF_USER = 0 then Ok s
     else dup_page b target (BITS_TO_VIRT_ADDR i4 i3 i2 i1) e s) [0..<512]"

definition dup_pd :: "bootinfo \<Rightarrow> u64 \<Rightarrow> nat \<Rightarrow> nat \<Rightarrow> u64 \<Rightarrow> paging \<Rightarrow> paging outcome" where
  "dup_pd b target i4 i3 pd = ofold (\<lambda>i2 s.
     if skipped (entry b s pd i2) then Ok s
     else dup_pt b target i4 i3 i2 (next_table b s pd i2) s) [0..<512]"

definition dup_pdp :: "bootinfo \<Rightarrow> u64 \<Rightarrow> nat \<Rightarrow> u64 \<Rightarrow> paging \<Rightarrow> paging outcome" where
  "dup_pdp b target i4 pdp = ofold (\<lambda>i3 s.
     if skipped (entry b s pdp i3) then Ok s
     else dup_pd b target i4 i3 (next_table b s pdp i3) s) [0..<512]"

definition PageDirectoryUserDuplicate :: "bootinfo \<Rightarrow> u64 \<Rightarrow> u64 \<Rightarrow> paging \<Rightarrow> paging outcome" where
  "PageDirectoryUserDuplicate b source target s =
     obind (spinlockCntReadAcquire (WLOCK_PAGING s)) (\<lambda>l.
     obind (ofold (\<lambda>i4 s. if skipped (entry b s source i4) then Ok s
                          else dup_pdp b target i4 (next_table b s source i4) s) [0..<512]
              (s\<lparr>WLOCK_PAGING := l\<rparr>)) (\<lambda>s1.
     obind (spinlockCntReadRelease (WLOCK_PAGING s1)) (\<lambda>l'.
       Ok (s1\<lparr>WLOCK_PAGING := l'\<rparr>))))"

section \<open>Address arithmetic\<close>

lemma bit_PTE_ADDR_MASK: "bit PTE_ADDR_MASK n \<longleftrightarrow> 12 \<le> n \<and> n < 52"
proof -
  have "PTE_ADDR_MASK = push_bit 12 (mask 40)"
    by (simp add: PTE_ADDR_MASK_def mask_eq_exp_minus_1 push_bit_eq_mult)
  then have "bit PTE_ADDR_MASK n \<longleftrightarrow> bit (push_bit 12 (mask 40) :: u64) n" by simp
  then show ?thesis by (auto simp: bit_push_bit_iff bit_mask_iff)
qed

lemma mask12: "(0xFFF :: u64) = mask 12" and mask9: "PGMASK_ENTRY = mask 9"
  by (simp_all add: PGMASK_ENTRY_def mask_eq_exp_minus_1)

lemma bit_page_mask: "bit (a AND 0xFFF :: u64) n \<longleftrightarrow> bit a n \<and> n < 12"
  unfolding mask12 bit_and_iff bit_mask_iff by (auto dest: bit_imp_le_length)

lemma bit_page_base: "bit (a AND NOT 0xFFF :: u64) n \<longleftrightarrow> bit a n \<and> 12 \<le> n"
  unfolding mask12 bit_and_iff bit_not_iff bit_mask_iff by (auto dest: bit_imp_le_length)

lemma PTE_GET_ADDR_or: "PTE_GET_ADDR (a OR b) = PTE_GET_ADDR a OR PTE_GET_ADDR b"
  by (simp add: PTE_GET_ADDR_def bit.conj_disj_distrib2)

lemma PTE_GET_ADDR_flags [simp]:
  "PTE_GET_ADDR PF_PRESENT = 0" "PTE_GET_ADDR PF_RW = 0" "PTE_GET_ADDR PF_USER = 0" "PTE_GET_ADDR 0 = 0"
  by (simp_all add: PTE_GET_ADDR_def PTE_ADDR_MASK_def PF_PRESENT_def PF_RW_def PF_USER_def)

lemma present_iff: "present e \<longleftrightarrow> bit e 0"
  by (simp add: PF_PRESENT_def and_one_eq odd_iff_mod_2_eq_one bit_0)

lemma present_or [simp]: "present (a OR PF_PRESENT OR b)" "\<not> present 0"
  unfolding present_iff by (simp_all add: bit_or_iff PF_PRESENT_def)

text \<open>The address of a frame: aligned, and within the 52 bits a table entry holds.\<close>

abbreviation frame_addr :: "u64 \<Rightarrow> bool" where
  "frame_addr f \<equiv> PTE_GET_ADDR f = f"

lemma frame_addr_mask [simp]: "PTE_GET_ADDR (PTE_GET_ADDR e) = PTE_GET_ADDR e"
  by (simp add: PTE_GET_ADDR_def)

lemma frame_addr_bits: "frame_addr f \<Longrightarrow> bit f n \<Longrightarrow> 12 \<le> n \<and> n < 52"
  by (metis PTE_GET_ADDR_def bit_PTE_ADDR_MASK bit_and_iff)

lemma frame_addr_page: "frame_addr f \<Longrightarrow> P_PHYS_ADDR f = f"
  unfolding P_PHYS_ADDR_def by (rule bit_word_eqI) (auto simp only: bit_page_base dest: frame_addr_bits)

lemma frame_addr_block:
  assumes "unat f = k * 4096" "k < 2 ^ 40" shows "frame_addr f"
proof -
  have "f = of_nat (k * 4096)" using assms(1) by (metis of_nat_unat ucast_id)
  then have f: "f = push_bit 12 (of_nat k)" by (simp add: push_bit_eq_mult mult.commute)
  have "n < 40" if "bit k n" for n
  proof (rule ccontr)
    assume "\<not> n < 40"
    then have "(2 :: nat) ^ 40 \<le> 2 ^ n" by (intro power_increasing) simp_all
    with assms(2) have "k div 2 ^ n = 0" by simp
    with that show False by (simp add: bit_iff_odd)
  qed
  then show ?thesis unfolding f
    by (auto intro!: bit_word_eqI simp: PTE_GET_ADDR_def bit_and_iff bit_PTE_ADDR_MASK bit_push_bit_iff bit_of_nat_iff)
     force
qed

lemma frame_addr_unat:
  assumes "frame_addr f" shows "unat f = (unat f div 4096) * 4096"
proof -
  have "f AND 0xFFF = 0" using assms by (intro bit_word_eqI) (auto simp only: bit_page_mask bit_0_eq dest: frame_addr_bits)
  then have "take_bit 12 f = 0" unfolding mask12 by (simp add: take_bit_eq_mask)
  then have "take_bit 12 (unat f) = 0" by (metis unsigned_take_bit_eq unsigned_0)
  then have "unat f mod 4096 = 0" by (simp add: take_bit_eq_mod)
  then show ?thesis by auto
qed

lemma page_index_bound: "PML4E a < 512" "PDPTE a < 512" "PDE a < 512" "PTE a < 512"
proof -
  have "unat (x AND PGMASK_ENTRY) < 512" for x :: u64
    using and_mask_less_size [of 9 x] by (simp add: mask9 take_bit_eq_mask [symmetric] unsigned_take_bit_eq take_bit_nat_less_exp [of 9, simplified])
  then show "PML4E a < 512" "PDPTE a < 512" "PDE a < 512" "PTE a < 512"
    by (simp_all add: PML4E_def PDPTE_def PDE_def PTE_def)
qed

lemma index_bits:
  assumes "unat (drop_bit k a AND PGMASK_ENTRY) = unat (drop_bit k c AND PGMASK_ENTRY)"
    and "k \<le> n" "n < k + 9"
  shows "bit (a :: u64) n = bit c n"
proof -
  have "drop_bit k a AND PGMASK_ENTRY = drop_bit k c AND PGMASK_ENTRY"
    using assms(1) by (simp add: word_unat_eq_iff)
  then have "bit (drop_bit k a AND PGMASK_ENTRY) (n - k) = bit (drop_bit k c AND PGMASK_ENTRY) (n - k)" by simp
  with assms(2,3) show ?thesis
    unfolding mask9 bit_and_iff bit_mask_iff bit_drop_bit_eq by (auto dest: bit_imp_le_length)
qed

lemma same_indices:
  assumes "PML4E a = PML4E c" "PDPTE a = PDPTE c" "PDE a = PDE c" "PTE a = PTE c" "12 \<le> n" "n < 48"
  shows "bit a n = bit c n"
proof -
  consider "39 \<le> n" | "30 \<le> n" "n < 39" | "21 \<le> n" "n < 30" | "n < 21" by linarith
  then show ?thesis
  proof cases
    case 1 then show ?thesis using assms by (intro index_bits [of 39]) (simp_all add: PML4E_def)
  next
    case 2 then show ?thesis using assms by (intro index_bits [of 30]) (simp_all add: PDPTE_def)
  next
    case 3 then show ?thesis using assms by (intro index_bits [of 21]) (simp_all add: PDE_def)
  next
    case 4 then show ?thesis using assms by (intro index_bits [of 12]) (simp_all add: PTE_def)
  qed
qed

text \<open>Addresses of user space: the lower half.\<close>

definition user_addr :: "u64 \<Rightarrow> bool" where
  "user_addr a \<longleftrightarrow> a < 0x800000000000"

lemma user_addr_bits: "user_addr a \<Longrightarrow> bit a n \<Longrightarrow> n < 47"
proof (rule ccontr)
  assume a: "user_addr a" "bit a n" "\<not> n < 47"
  then have "unat a < 2 ^ 47" by (simp add: user_addr_def word_less_nat_alt)
  moreover have "(2 :: nat) ^ 47 \<le> 2 ^ n" using a(3) by (intro power_increasing) simp_all
  ultimately have "unat a div 2 ^ n = 0" by simp
  moreover have "bit (unat a) n" using a(2) by (simp add: bit_unsigned_iff)
  ultimately show False by (simp add: bit_iff_odd)
qed

lemma user_addr_strip: "user_addr a \<Longrightarrow> AMD64_MM_STRIPSX a = a"
proof -
  assume a: "user_addr a"
  have "(0xFFFFFFFFFFFF :: u64) = mask 48" by (simp add: mask_eq_exp_minus_1)
  then have "AMD64_MM_STRIPSX a = a AND mask 48" by (simp add: AMD64_MM_STRIPSX_def)
  moreover have "n < 48" if "bit a n" for n using user_addr_bits [OF a that] by simp
  ultimately show ?thesis
    by (auto intro!: bit_word_eqI simp only: bit_and_iff bit_mask_iff intro: bit_imp_possible_bit)
qed

lemma user_addr_page: "user_addr a \<Longrightarrow> user_addr (a AND NOT 0xFFF)"
  unfolding user_addr_def by (rule le_less_trans [OF word_and_le2])

lemma user_addr_PML4E: "user_addr a \<Longrightarrow> PML4E a < 256"
proof -
  assume a: "user_addr a"
  have "unat a < 2 ^ 47" using a by (simp add: user_addr_def word_less_nat_alt)
  then have "unat a div 2 ^ 39 < 256" by (simp add: less_mult_imp_div_less)
  then have "unat (drop_bit 39 a) < 256" by (simp add: drop_bit_eq_div unat_div_word)
  moreover have "drop_bit 39 a AND PGMASK_ENTRY \<le> drop_bit 39 a" by (rule word_and_le2)
  ultimately show ?thesis by (simp add: PML4E_def word_le_nat_alt)
qed

lemma same_page:
  assumes "user_addr a" "user_addr c"
    and "PML4E a = PML4E c" "PDPTE a = PDPTE c" "PDE a = PDE c" "PTE a = PTE c"
  shows "a AND NOT 0xFFF = c AND NOT 0xFFF"
  using user_addr_bits [OF assms(1)] user_addr_bits [OF assms(2)] same_indices [OF assms(3-6)]
  by (intro bit_word_eqI) (simp only: bit_page_base, force)

lemma page_aligned:
  assumes "a mod PAGE_SIZE = 0" shows "(a :: u64) AND NOT 0xFFF = a"
proof -
  have "take_bit 12 a = 0" using assms by (simp add: PAGE_SIZE_def take_bit_eq_mod)
  then have "\<not> bit a n" if "n < 12" for n using that by (metis bit_0_eq bit_take_bit_iff bot_apply bot_bool_def)
  then show ?thesis by (intro bit_word_eqI) (metis bit_page_base not_less)
qed

section \<open>The tree of tables\<close>

text \<open>The frame at the end of a path of indices: a table for at most three indices, the mapped
  frame for four.\<close>

fun node :: "(u64 \<Rightarrow> nat \<Rightarrow> u64) \<Rightarrow> u64 \<Rightarrow> nat list \<Rightarrow> u64 option" where
  "node m f [] = Some f"
| "node m f (i # p) = (if present (m f i) then node m (PTE_GET_ADDR (m f i)) p else None)"

lemma node_snoc:
  "node m f (p @ [i]) = (case node m f p of None \<Rightarrow> None
     | Some g \<Rightarrow> if present (m g i) then Some (PTE_GET_ADDR (m g i)) else None)"
  by (induction m f p rule: node.induct) auto

lemma node_append: "node m f (p @ q) = (case node m f p of None \<Rightarrow> None | Some g \<Rightarrow> node m g q)"
  by (induction m f p rule: node.induct) auto

text \<open>Paths of user space.\<close>

definition upath :: "nat list \<Rightarrow> bool" where
  "upath p \<longleftrightarrow> length p \<le> 4 \<and> (p \<noteq> [] \<longrightarrow> hd p < 256) \<and> (\<forall>i \<in> set p. i < 512)"

lemma upath_snoc: "upath (p @ [i]) \<longleftrightarrow> upath p \<and> length p < 4 \<and> i < 512 \<and> (p = [] \<longrightarrow> i < 256)"
  by (cases p) (auto simp: upath_def)

lemma upath_prefix: "upath (p @ q) \<Longrightarrow> upath p"
  by (cases p) (auto simp: upath_def)

text \<open>
  A frame that the allocator will not hand out: it is marked used, or it belongs to the frame
  buffer and lies above the frames the bitmap describes.
\<close>

definition kept_frame :: "bootinfo \<Rightarrow> paging \<Rightarrow> u64 \<Rightarrow> bool" where
  "kept_frame b s f \<longleftrightarrow> frame_addr f \<and> f \<noteq> 0 \<and>
     (unat f div 4096 \<in> used_blocks (physical (pmm s)) \<or>
      in_fb b f \<and> nblocks (physical (pmm s)) \<le> unat f div 4096)"

definition frames_ok :: "paging \<Rightarrow> bool" where
  "frames_ok s \<longleftrightarrow> bitmap_inv (physical (pmm s)) \<and> mem_start (physical (pmm s)) = 0 \<and>
     nblocks (physical (pmm s)) \<le> 2 ^ 40 \<and> 0 \<in> used_blocks (physical (pmm s)) \<and> \<not> LOCK_PMM (pmm s)"

definition spare :: "paging \<Rightarrow> nat" where
  "spare s = nblocks (physical (pmm s)) - card (used_blocks (physical (pmm s)))"

text \<open>The frames of the tree below \<open>root\<close> are pairwise distinct and not up for allocation.\<close>

definition tree_ok :: "bootinfo \<Rightarrow> paging \<Rightarrow> u64 \<Rightarrow> bool" where
  "tree_ok b s root \<longleftrightarrow>
     (\<forall>p f. upath p \<longrightarrow> node (mem s) root p = Some f \<longrightarrow> kept_frame b s f) \<and>
     (\<forall>p q f. upath p \<longrightarrow> upath q \<longrightarrow> node (mem s) root p = Some f \<longrightarrow> node (mem s) root q = Some f \<longrightarrow> p = q)"

lemma tree_inj:
  "tree_ok b s r \<Longrightarrow> upath p \<Longrightarrow> upath q \<Longrightarrow> node (mem s) r p = Some f \<Longrightarrow> node (mem s) r q = Some f \<Longrightarrow> p = q"
  unfolding tree_ok_def by blast

lemma tree_okI:
  assumes "\<And>p f. upath p \<Longrightarrow> node (mem s) r p = Some f \<Longrightarrow> kept_frame b s f"
    and "\<And>p q f. upath p \<Longrightarrow> upath q \<Longrightarrow> node (mem s) r p = Some f \<Longrightarrow> node (mem s) r q = Some f \<Longrightarrow> p = q"
  shows "tree_ok b s r"
  using assms unfolding tree_ok_def by blast

lemma tree_kept: "tree_ok b s r \<Longrightarrow> upath p \<Longrightarrow> node (mem s) r p = Some f \<Longrightarrow> kept_frame b s f"
  unfolding tree_ok_def by blast

text \<open>A fresh frame is none of the frames that are kept.\<close>

lemma PhysicalAllocate_one:
  assumes "frames_ok s" "0 < spare s"
  obtains f p' where "PhysicalAllocate (pmm s) 1 = Ok (f, p')"
proof -
  let ?b = "physical (pmm s)"
  have inv: "bitmap_inv ?b" "mem_start ?b = 0" "\<not> LOCK_PMM (pmm s)" "0 \<in> used_blocks ?b"
    using assms(1) by (simp_all add: frames_ok_def)
  have "\<not> {0..<nblocks ?b} \<subseteq> used_blocks ?b"
    using assms(2) card_mono [of "used_blocks ?b" "{0..<nblocks ?b}"] by (auto simp: spare_def)
  then obtain k where k: "k < nblocks ?b" "k \<notin> used_blocks ?b"
    by (meson atLeastLessThan_iff subsetI)
  have "0 < (1 :: size_t)" by simp
  with inv(1) have "\<exists>f b'. BitmapAllocate ?b 1 = Ok (f, b') \<and> f \<noteq> 0"
  proof (cases rule: BitmapAllocate_cases)
    case (taken r b')
    have r: "unat r < nblocks ?b" "unat r \<notin> used_blocks ?b"
      using taken(2) by (auto simp: first_fit_def free_run_iff)
    then have "unat r \<noteq> 0" using inv(4) by metis
    moreover have "unat (ToPtr ?b r) = unat r * 4096"
      using block_addr_bytes [OF inv(1,2), of "unat r"] r(1) by (simp add: block_addr_def)
    ultimately have "ToPtr ?b r \<noteq> 0" by auto
    with taken(1) show ?thesis by blast
  next
    case exhausted
    then show ?thesis using k exhausted(2) [of k] by (auto simp: free_run_iff)
  qed
  then obtain f b' where "BitmapAllocate ?b 1 = Ok (f, b')" "f \<noteq> 0" by blast
  moreover have "(scast (1 :: 32 word) :: size_t) = 1" by simp
  ultimately have "PhysicalAllocate (pmm s) 1 = Ok (f, (pmm s)\<lparr>physical := b', LOCK_PMM := False\<rparr>)"
    using inv(3) by (simp add: PhysicalAllocate_Ok)
  then show thesis by (rule that)
qed

lemma PagingPhysAllocate_fresh:
  assumes "frames_ok s" "0 < spare s"
  obtains f p' where "PagingPhysAllocate s = Ok (f, s\<lparr>pmm := p', mem := (mem s)(f := (\<lambda>_. 0))\<rparr>)"
    and "frame_addr f" and "f \<noteq> 0" and "unat f div 4096 \<notin> used_blocks (physical (pmm s))"
    and "unat f div 4096 < nblocks (physical (pmm s))"
    and "used_blocks (physical p') = insert (unat f div 4096) (used_blocks (physical (pmm s)))"
    and "frames_ok (s\<lparr>pmm := p'\<rparr>)" and "nblocks (physical p') = nblocks (physical (pmm s))"
    and "spare (s\<lparr>pmm := p'\<rparr>) = spare s - 1"
proof -
  let ?b = "physical (pmm s)"
  have inv: "bitmap_inv ?b" "mem_start ?b = 0" "nblocks ?b \<le> 2 ^ 40" "0 \<in> used_blocks ?b"
    using assms(1) by (simp_all add: frames_ok_def)
  obtain f p' where a: "PhysicalAllocate (pmm s) 1 = Ok (f, p')" using PhysicalAllocate_one [OF assms] .
  obtain k where k: "unat f = k * 4096" "first_fit ?b (unat (1 :: 32 word)) k"
    "used_blocks (physical p') = used_blocks ?b \<union> {k..<k + unat (1 :: 32 word)}"
    "bitmap_inv (physical p')" "mem_start (physical p') = 0" "\<not> LOCK_PMM p'"
    "nblocks (physical p') = nblocks ?b"
    by (rule PhysicalAllocate_taken [OF inv(1,2) _ _ a]) simp_all
  have kf: "k < nblocks ?b" "k \<notin> used_blocks ?b" using k(2) by (auto simp: first_fit_def free_run_iff)
  have d: "unat f div 4096 = k" using k(1) by simp
  have u: "used_blocks (physical p') = insert (unat f div 4096) (used_blocks ?b)"
    using k(3) unfolding d by (simp add: atLeastLessThanSuc)
  show thesis
  proof (rule that [of f p'])
    show "PagingPhysAllocate s = Ok (f, s\<lparr>pmm := p', mem := (mem s)(f := (\<lambda>_. 0))\<rparr>)"
      using a by (simp add: PagingPhysAllocate_def)
    show "frame_addr f" using kf(1) inv(3) by (intro frame_addr_block [OF k(1)]) simp
    show "f \<noteq> 0" using kf(2) inv(4) d by (metis div_0 unat_0)
    show "frames_ok (s\<lparr>pmm := p'\<rparr>)" using k inv(3,4) by (simp add: frames_ok_def)
    show "spare (s\<lparr>pmm := p'\<rparr>) = spare s - 1"
      using kf(2) by (simp add: spare_def u d k(7))
  qed (use kf d u k(7) in simp_all)
qed

lemma PhysicalFree_one:
  assumes "frames_ok s" "frame_addr f" "unat f div 4096 \<in> used_blocks (physical (pmm s))"
    "unat f div 4096 \<noteq> 0"
  obtains p' where "PhysicalFree (pmm s) f 1 = Ok p'"
    and "used_blocks (physical p') = used_blocks (physical (pmm s)) - {unat f div 4096}"
    and "frames_ok (s\<lparr>pmm := p'\<rparr>)" and "nblocks (physical p') = nblocks (physical (pmm s))"
proof -
  let ?b = "physical (pmm s)" and ?k = "unat f div 4096"
  have inv: "bitmap_inv ?b" "mem_start ?b = 0" "nblocks ?b \<le> 2 ^ 40" "0 \<in> used_blocks ?b" "\<not> LOCK_PMM (pmm s)"
    using assms(1) by (simp_all add: frames_ok_def)
  have k: "?k < nblocks ?b" using assms(3) by (simp add: used_blocks_def)
  have "unat f = unat (block_addr ?b ?k)"
    using frame_addr_unat [OF assms(2)] block_addr_bytes [OF inv(1,2)] k by simp
  then have fb: "f = block_addr ?b ?k" by (simp add: word_unat_eq_iff)
  obtain b' where b': "BitmapFree ?b (block_addr ?b ?k) 1 = Ok b'" "bitmap_inv b'" "same_region ?b b'"
    "used_blocks b' = used_blocks ?b - {?k..<?k + unat (1 :: size_t)}"
    by (rule BitmapFree_spec [OF inv(1), of ?k 1]) (use k in simp_all)
  have "(scast (4096 :: 32 word) :: size_t) = BLOCK_SIZE" by (simp add: BLOCK_SIZE_def)
  then have "PhysicalFree (pmm s) f 1 = Ok ((pmm s)\<lparr>physical := b', LOCK_PMM := False\<rparr>)"
    using b'(1) inv(5) fb by (simp add: PhysicalFree_def BitmapFree_def spinlockRelease_def)
  then show thesis
    by (rule that) (use b' inv assms(4) in \<open>simp_all add: atLeastLessThanSuc frames_ok_def same_region_def nblocks_def\<close>)
qed

section \<open>Creating a table\<close>

text \<open>Memory after \<open>ensure_table\<close> has put the fresh frame \<open>g\<close> at entry \<open>i\<close> of \<open>f\<close>.\<close>

definition with_table :: "(u64 \<Rightarrow> nat \<Rightarrow> u64) \<Rightarrow> u64 \<Rightarrow> nat \<Rightarrow> u64 \<Rightarrow> u64 \<Rightarrow> nat \<Rightarrow> u64" where
  "with_table m f i g =
     (m(g := (\<lambda>_. 0)))(f := ((m(g := (\<lambda>_. 0))) f)(i := g OR PF_PRESENT OR PF_RW OR PF_USER))"

lemma new_table_node:
  assumes inj: "\<And>p q h. upath p \<Longrightarrow> upath q \<Longrightarrow> node m r p = Some h \<Longrightarrow> node m r q = Some h \<Longrightarrow> p = q"
    and fresh: "\<And>p. upath p \<Longrightarrow> node m r p \<noteq> Some g" and g: "frame_addr g"
    and p: "upath (p @ [i])" "node m r p = Some f" "\<not> present (m f i)"
    and q: "upath q"
  shows "node (with_table m f i g) r q =
    (if q = p @ [i] then Some g else node m r q)"
  using q
proof (induction q rule: rev_induct)
  case Nil
  then show ?case by simp
next
  case (snoc k q)
  have uq: "upath q" "upath p" using snoc.prems p(1) by (simp_all add: upath_snoc)
  have fg: "f \<noteq> g" using fresh [OF uq(2)] p(2) by auto
  have IH: "node (with_table m f i g) r q = (if q = p @ [i] then Some g else node m r q)"
    using snoc.IH [OF uq(1)] .
  show ?case
  proof (cases "q = p @ [i]")
    case True
    have "node m r (q @ [k]) = None" using True p(2,3) by (simp add: node_append)
    moreover have "node (with_table m f i g) r (q @ [k]) = None"
      using IH True fg by (simp only: node_snoc) (simp add: with_table_def)
    ultimately show ?thesis using True by simp
  next
    case False
    show ?thesis
    proof (cases "node m r q")
      case None
      have "q \<noteq> p" using None p(2) by auto
      then show ?thesis using None IH False by (simp add: node_snoc)
    next
      case (Some h)
      have hg: "h \<noteq> g" using fresh [OF uq(1)] Some by auto
      have e: "with_table m f i g h k = (if q = p \<and> k = i then g OR PF_PRESENT OR PF_RW OR PF_USER else m h k)"
        using inj [OF uq, of h] inj [OF uq, of f] Some p(2) hg fg by (auto simp: with_table_def)
      show ?thesis
      proof (cases "q = p \<and> k = i")
        case True
        then show ?thesis using IH Some e False g
          by (simp add: node_snoc PTE_GET_ADDR_or or.assoc [symmetric] del: or.assoc)
             (simp add: or.assoc PTE_GET_ADDR_or)
      next
        case ne: False
        then show ?thesis using IH Some e False by (auto simp: node_snoc)
      qed
    qed
  qed
qed

text \<open>The tables needed for one page, in the order \<open>VirtualMapL\<close> visits them.\<close>

lemma ensure_table_ok:
  assumes ok: "frames_ok s" "tree_ok b s r" "0 < spare s"
    and p: "upath (p @ [i])" "length p < 3" "node (mem s) r p = Some f"
  obtains g s' where "ensure_table b s (f + hhdmOffset b) i = Ok (g + hhdmOffset b, s')"
    and "frames_ok s'" and "tree_ok b s' r" and "node (mem s') r (p @ [i]) = Some g"
    and "spare s \<le> spare s' + 1"
    and "\<And>q. upath q \<Longrightarrow> q \<noteq> p @ [i] \<Longrightarrow> node (mem s') r q = node (mem s) r q"
    and "\<And>h. kept_frame b s h \<Longrightarrow> kept_frame b s' h"
    and "\<And>h. kept_frame b s h \<Longrightarrow> node (mem s') r (p @ [i]) = Some h \<Longrightarrow> node (mem s) r (p @ [i]) = Some h"
    and "WLOCK_PAGING s' = WLOCK_PAGING s" "globalPagedir s' = globalPagedir s" "cr3 s' = cr3 s"
proof (cases "present (mem s f i)")
  case True
  show ?thesis
    by (rule that [of "PTE_GET_ADDR (mem s f i)" s])
       (use True p ok in \<open>simp_all add: ensure_table_def entry_def node_snoc\<close>)
next
  case False
  obtain g p' where g: "PagingPhysAllocate s = Ok (g, s\<lparr>pmm := p', mem := (mem s)(g := (\<lambda>_. 0))\<rparr>)"
    "frame_addr g" "g \<noteq> 0" "unat g div 4096 \<notin> used_blocks (physical (pmm s))"
    "unat g div 4096 < nblocks (physical (pmm s))"
    "used_blocks (physical p') = insert (unat g div 4096) (used_blocks (physical (pmm s)))"
    "frames_ok (s\<lparr>pmm := p'\<rparr>)" "nblocks (physical p') = nblocks (physical (pmm s))"
    "spare (s\<lparr>pmm := p'\<rparr>) = spare s - 1"
    by (rule PagingPhysAllocate_fresh [OF ok(1,3)])
  define s' where "s' = s\<lparr>pmm := p', mem := with_table (mem s) f i g\<rparr>"
  have up: "upath p" using p(1) by (simp add: upath_snoc)
  have nk: "\<not> kept_frame b s g" using g(4,5) by (auto simp: kept_frame_def)
  have fresh: "node (mem s) r q \<noteq> Some g" if "upath q" for q
    using tree_kept [OF ok(2) that] nk by blast
  have fg: "f \<noteq> g" using fresh [OF up] p(3) by auto
  have node': "node (mem s') r q = (if q = p @ [i] then Some g else node (mem s) r q)" if "upath q" for q
  proof -
    have m': "mem s' = with_table (mem s) f i g" by (simp add: s'_def)
    show ?thesis unfolding m'
    proof (rule new_table_node)
      show "x = y" if "upath x" "upath y" "node (mem s) r x = Some h" "node (mem s) r y = Some h" for x y h
        using tree_inj [OF ok(2) that] .
      show "node (mem s) r x \<noteq> Some g" if "upath x" for x using fresh [OF that] .
    qed (use g(2) p(1,3) False that in simp_all)
  qed
  have kept: "kept_frame b s' h" if "kept_frame b s h" for h
    using that g(6,8) by (auto simp: kept_frame_def s'_def)
  have ens: "ensure_table b s (f + hhdmOffset b) i = Ok (g + hhdmOffset b, s')"
    using False g(1,2) fg
    by (simp add: ensure_table_def entry_def set_entry_def s'_def with_table_def PTE_GET_ADDR_or Let_def)
  have tree: "tree_ok b s' r"
  proof -
    have "kept_frame b s' h" if "upath q" "node (mem s') r q = Some h" for q h
    proof (cases "q = p @ [i]")
      case True
      then show ?thesis using node' [OF that(1)] that(2) g(2,3,6) by (simp add: s'_def kept_frame_def)
    next
      case False
      then have "node (mem s) r q = Some h" using node' [OF that(1)] that(2) by simp
      from kept [OF tree_kept [OF ok(2) that(1) this]] show ?thesis .
    qed
    moreover have "q = q'" if "upath q" "upath q'" "node (mem s') r q = Some h" "node (mem s') r q' = Some h" for q q' h
    proof (cases "q = p @ [i] \<or> q' = p @ [i]")
      case True
      then show ?thesis
        using that(3,4) fresh [OF that(1)] fresh [OF that(2)]
        unfolding node' [OF that(1)] node' [OF that(2)] by (metis option.inject)
    next
      case False
      then show ?thesis
        using that(3,4) tree_inj [OF ok(2) that(1,2)] unfolding node' [OF that(1)] node' [OF that(2)] by simp
    qed
    ultimately show ?thesis by (rule tree_okI)
  qed
  show ?thesis
  proof (rule that [OF ens _ tree])
    show "frames_ok s'" using g(7) unfolding frames_ok_def s'_def by simp
    show "spare s \<le> spare s' + 1" using g(9) unfolding spare_def s'_def by simp
    show "node (mem s') r (p @ [i]) = Some g" using node' [OF p(1)] by simp
    show "node (mem s') r q = node (mem s) r q" if "upath q" "q \<noteq> p @ [i]" for q
      using node' [OF that(1)] that(2) by simp
    show "kept_frame b s' h" if "kept_frame b s h" for h using that by (rule kept)
    show "node (mem s) r (p @ [i]) = Some h"
      if "kept_frame b s h" "node (mem s') r (p @ [i]) = Some h" for h
      using that nk node' [OF p(1)] by auto
  qed (simp_all add: s'_def)
qed

section \<open>Setting the last entry\<close>

definition with_entry :: "(u64 \<Rightarrow> nat \<Rightarrow> u64) \<Rightarrow> u64 \<Rightarrow> nat \<Rightarrow> u64 \<Rightarrow> u64 \<Rightarrow> nat \<Rightarrow> u64" where
  "with_entry m f i e = m(f := (m f)(i := e))"

lemma with_entry_at: "with_entry m f i e h k = (if h = f \<and> k = i then e else m h k)"
  by (simp add: with_entry_def)

lemma set_leaf_node:
  assumes inj: "\<And>p q h. upath p \<Longrightarrow> upath q \<Longrightarrow> node m r p = Some h \<Longrightarrow> node m r q = Some h \<Longrightarrow> p = q"
    and p: "upath (p @ [j])" "length p = 3" "node m r p = Some pt" and q: "upath q"
  shows "node (with_entry m pt j e) r q =
    (if q = p @ [j] then if present e then Some (PTE_GET_ADDR e) else None else node m r q)"
  using q
proof (induction q rule: rev_induct)
  case Nil
  then show ?case by simp
next
  case (snoc k q)
  have uq: "upath q" "upath p" "length q < 4" using snoc.prems p(1) by (simp_all add: upath_snoc)
  have ne: "q \<noteq> p @ [j]" using uq(3) p(2) by auto
  have IH: "node (with_entry m pt j e) r q = node m r q" using snoc.IH [OF uq(1)] ne by simp
  show ?case
  proof (cases "node m r q")
    case None
    then show ?thesis using IH p(3) by (auto simp: node_snoc)
  next
    case (Some h)
    have "h = pt \<longleftrightarrow> q = p" using inj [OF uq(1,2)] Some p(3) by auto
    moreover have "with_entry m pt j e h k = (if h = pt \<and> k = j then e else m h k)" by (rule with_entry_at)
    ultimately show ?thesis using IH Some by (auto simp: node_snoc)
  qed
qed

text \<open>The tail of \<open>VirtualMapL\<close>: release what was mapped, then write the entry.\<close>

definition release_old :: "bootinfo \<Rightarrow> u64 \<Rightarrow> paging \<Rightarrow> paging outcome" where
  "release_old b old s =
     (if present old \<and> \<not> in_fb b (PTE_GET_ADDR old)
      then obind (PhysicalFree (pmm s) (PTE_GET_ADDR old) 1) (\<lambda>p. Ok (s\<lparr>pmm := p\<rparr>))
      else Ok s)"

lemma release_old_ok:
  assumes ok: "frames_ok s" and old: "present old \<Longrightarrow> kept_frame b s (PTE_GET_ADDR old)"
  obtains p' where "release_old b old s = Ok (s\<lparr>pmm := p'\<rparr>)" and "frames_ok (s\<lparr>pmm := p'\<rparr>)"
    and "spare s \<le> spare (s\<lparr>pmm := p'\<rparr>)"
    and "\<forall>h. kept_frame b s h \<longrightarrow> (present old \<longrightarrow> h \<noteq> PTE_GET_ADDR old) \<longrightarrow> kept_frame b (s\<lparr>pmm := p'\<rparr>) h"
proof (cases "present old \<and> \<not> in_fb b (PTE_GET_ADDR old)")
  case False
  then have "release_old b old s = Ok (s\<lparr>pmm := pmm s\<rparr>)" unfolding release_old_def by (simp only: if_False) simp
  then show ?thesis by (rule that) (use ok in simp_all)
next
  case True
  let ?f = "PTE_GET_ADDR old"
  have f: "frame_addr ?f" "?f \<noteq> 0" "unat ?f div 4096 \<in> used_blocks (physical (pmm s))"
    using old True by (auto simp: kept_frame_def)
  have "unat ?f div 4096 \<noteq> 0" using frame_addr_unat [OF f(1)] f(2) by (metis mult_0 unat_eq_zero)
  from PhysicalFree_one [OF ok f(1,3) this] obtain p' where p':
    "PhysicalFree (pmm s) ?f 1 = Ok p'"
    "used_blocks (physical p') = used_blocks (physical (pmm s)) - {unat ?f div 4096}"
    "frames_ok (s\<lparr>pmm := p'\<rparr>)" "nblocks (physical p') = nblocks (physical (pmm s))" .
  show ?thesis
  proof (rule that [of p'])
    show "release_old b old s = Ok (s\<lparr>pmm := p'\<rparr>)" using True p'(1) by (simp add: release_old_def)
    show "frames_ok (s\<lparr>pmm := p'\<rparr>)" by (rule p'(3))
    show "spare s \<le> spare (s\<lparr>pmm := p'\<rparr>)"
      using p'(2,4) by (simp add: spare_def card_Diff_singleton_if diff_le_mono2)
    show "\<forall>h. kept_frame b s h \<longrightarrow> (present old \<longrightarrow> h \<noteq> ?f) \<longrightarrow> kept_frame b (s\<lparr>pmm := p'\<rparr>) h"
    proof (intro allI impI)
      fix h assume h: "kept_frame b s h" "present old \<longrightarrow> h \<noteq> ?f"
      have "h \<noteq> ?f" using h(2) True by blast
      then have "unat h div 4096 \<noteq> unat ?f div 4096"
        using frame_addr_unat [OF f(1)] frame_addr_unat [of h] h(1)
        by (metis kept_frame_def word_unat_eq_iff)
      then show "kept_frame b (s\<lparr>pmm := p'\<rparr>) h" using h(1) p'(2,4) by (simp add: kept_frame_def)
    qed
  qed
qed

definition unmapped_frame :: "bootinfo \<Rightarrow> paging \<Rightarrow> u64 \<Rightarrow> u64 \<Rightarrow> bool" where
  "unmapped_frame b s r f \<longleftrightarrow> kept_frame b s f \<and> (\<forall>p. upath p \<longrightarrow> node (mem s) r p \<noteq> Some f)"

lemma set_leaf_ok:
  assumes ok: "frames_ok s" "tree_ok b s r"
    and p: "upath (p @ [j])" "length p = 3" "node (mem s) r p = Some pt"
    and e: "present e \<Longrightarrow> unmapped_frame b s r (PTE_GET_ADDR e)"
  obtains p' s' where "release_old b (mem s pt j) s = Ok (s\<lparr>pmm := p'\<rparr>)"
    and "s' = s\<lparr>pmm := p', mem := with_entry (mem s) pt j e\<rparr>"
    and "frames_ok s'" and "tree_ok b s' r" and "spare s \<le> spare s'"
    and "\<And>q. upath q \<Longrightarrow> node (mem s') r q = (if q = p @ [j] then if present e then Some (PTE_GET_ADDR e) else None
           else node (mem s) r q)"
    and "\<And>h. unmapped_frame b s r h \<Longrightarrow> (present e \<longrightarrow> h \<noteq> PTE_GET_ADDR e) \<Longrightarrow> unmapped_frame b s' r h"
proof -
  let ?old = "mem s pt j"
  have nold: "node (mem s) r (p @ [j]) = (if present ?old then Some (PTE_GET_ADDR ?old) else None)"
    using p(3) by (simp add: node_snoc)
  have kold: "present ?old \<Longrightarrow> kept_frame b s (PTE_GET_ADDR ?old)"
    using tree_kept [OF ok(2) p(1)] nold by simp
  obtain p' where p': "release_old b ?old s = Ok (s\<lparr>pmm := p'\<rparr>)" "frames_ok (s\<lparr>pmm := p'\<rparr>)"
    "spare s \<le> spare (s\<lparr>pmm := p'\<rparr>)"
    "\<forall>h. kept_frame b s h \<longrightarrow> (present ?old \<longrightarrow> h \<noteq> PTE_GET_ADDR ?old) \<longrightarrow> kept_frame b (s\<lparr>pmm := p'\<rparr>) h"
    by (rule release_old_ok [OF ok(1) kold])
  define s' where "s' = s\<lparr>pmm := p', mem := with_entry (mem s) pt j e\<rparr>"
  have m': "mem s' = with_entry (mem s) pt j e" by (simp add: s'_def)
  have node': "node (mem s') r q = (if q = p @ [j] then if present e then Some (PTE_GET_ADDR e) else None
      else node (mem s) r q)" if "upath q" for q
    unfolding m'
  proof (rule set_leaf_node [OF _ p that])
    show "x = y" if "upath x" "upath y" "node (mem s) r x = Some h" "node (mem s) r y = Some h" for x y h
      using tree_inj [OF ok(2) that] .
  qed
  have kept': "kept_frame b s' h" if "kept_frame b s h" "node (mem s) r (p @ [j]) \<noteq> Some h" for h
  proof -
    have "present ?old \<longrightarrow> h \<noteq> PTE_GET_ADDR ?old" using that(2) unfolding nold by (cases "present ?old") simp_all
    with p'(4) that(1) have "kept_frame b (s\<lparr>pmm := p'\<rparr>) h" by simp
    then show ?thesis by (simp add: kept_frame_def s'_def)
  qed
  have um: "unmapped_frame b s' r h" if "unmapped_frame b s r h" "present e \<longrightarrow> h \<noteq> PTE_GET_ADDR e" for h
    unfolding unmapped_frame_def
  proof (intro conjI allI impI)
    have "kept_frame b s h" "node (mem s) r (p @ [j]) \<noteq> Some h"
      using that(1) p(1) by (simp_all add: unmapped_frame_def)
    then show "kept_frame b s' h" by (rule kept')
    fix q assume q: "upath q"
    show "node (mem s') r q \<noteq> Some h"
      using that q unfolding node' [OF q] unmapped_frame_def by (cases "q = p @ [j]"; cases "present e") simp_all
  qed
  have tree: "tree_ok b s' r"
  proof (rule tree_okI)
    fix q h assume q: "upath q" "node (mem s') r q = Some h"
    show "kept_frame b s' h"
    proof (cases "q = p @ [j]")
      case True
      then have pe: "present e" "h = PTE_GET_ADDR e"
        using q(2) unfolding node' [OF q(1)] by (simp_all split: if_splits)
      have "kept_frame b s h" "node (mem s) r (p @ [j]) \<noteq> Some h"
        using e [OF pe(1)] p(1) unfolding pe(2) by (simp_all add: unmapped_frame_def)
      then show ?thesis by (rule kept')
    next
      case False
      then have qs: "node (mem s) r q = Some h" using q node' [OF q(1)] by simp
      have "node (mem s) r (p @ [j]) \<noteq> Some h" using tree_inj [OF ok(2) q(1) p(1) qs] False by blast
      with tree_kept [OF ok(2) q(1) qs] show ?thesis by (rule kept')
    qed
  next
    fix q q' h assume q: "upath q" "upath q'" "node (mem s') r q = Some h" "node (mem s') r q' = Some h"
    have x: "x = p @ [j] \<or> (node (mem s) r x = Some h)" if "upath x" "node (mem s') r x = Some h" for x
      using node' [OF that(1)] that(2) by (auto split: if_splits)
    have y: "present e \<and> h = PTE_GET_ADDR e" if "node (mem s') r (p @ [j]) = Some h"
      using that unfolding node' [OF p(1)] by (simp split: if_splits)
    show "q = q'"
    proof (cases "q = p @ [j] \<or> q' = p @ [j]")
      case True
      then have "present e" "h = PTE_GET_ADDR e" using y q(3,4) by auto
      with e have "unmapped_frame b s r h" by simp
      then show ?thesis using x [OF q(1,3)] x [OF q(2,4)] q(1,2) by (simp add: unmapped_frame_def)
    next
      case False
      then show ?thesis using x [OF q(1,3)] x [OF q(2,4)] tree_inj [OF ok(2) q(1,2)] by simp
    qed
  qed
  show ?thesis
    by (rule that [OF p'(1) s'_def _ tree _ node' um])
       (use p'(2,3) in \<open>simp_all add: s'_def frames_ok_def spare_def\<close>)
qed

section \<open>Mapping one page\<close>

definition page_path :: "u64 \<Rightarrow> nat list" where
  "page_path v = [PML4E v, PDPTE v, PDE v, PTE v]"

definition paging_ok :: "bootinfo \<Rightarrow> u64 \<Rightarrow> paging \<Rightarrow> bool" where
  "paging_ok b pd s \<longleftrightarrow> frames_ok s \<and> tree_ok b s (pd - hhdmOffset b) \<and> rw_free (WLOCK_PAGING s) \<and>
     0x800000000000 \<le> hhdmOffset b \<and> pd \<noteq> 0"

lemma user_path: "user_addr v \<Longrightarrow> upath (page_path v)"
  using page_index_bound [of v] by (simp add: upath_def page_path_def user_addr_PML4E)

lemma user_path_prefix:
  assumes "user_addr v"
  shows "upath ([] @ [PML4E v])" "upath ([PML4E v] @ [PDPTE v])" "upath ([PML4E v, PDPTE v] @ [PDE v])"
    "upath ([PML4E v, PDPTE v, PDE v] @ [PTE v])"
  using user_path [OF assms] by (simp_all add: upath_def page_path_def)

lemma page_path_inj:
  assumes "user_addr a" "user_addr c" "page_path a = page_path c"
  shows "a AND NOT 0xFFF = c AND NOT 0xFFF"
  by (rule same_page) (use assms in \<open>simp_all add: page_path_def\<close>)

text \<open>The translation is the frame at the end of the path.\<close>

lemma VirtualToPhysicalL_node:
  assumes "user_addr w" "0x800000000000 \<le> hhdmOffset b" "pd \<noteq> 0"
  shows "VirtualToPhysicalL b s pd w =
    (case node (mem s) (pd - hhdmOffset b) (page_path (w AND NOT 0xFFF)) of
       None \<Rightarrow> 0 | Some f \<Rightarrow> f + (w AND 0xFFF))"
proof -
  have "w < hhdmOffset b" using assms(1,2) by (simp add: user_addr_def)
  then have "\<not> hhdmOffset b \<le> w" by simp
  moreover have "AMD64_MM_STRIPSX (w AND NOT 0xFFF) = w AND NOT 0xFFF"
    by (rule user_addr_strip [OF user_addr_page [OF assms(1)]])
  ultimately show ?thesis
    unfolding VirtualToPhysicalL_def using assms(3)
    by (simp add: Let_def entry_def page_path_def)
qed

lemma VirtualMapL_release:
  "VirtualMapL b s pagedir virt_addr phys_addr flags =
     (if virt_addr mod PAGE_SIZE \<noteq> 0 then Panic
      else
       (let v = AMD64_MM_STRIPSX virt_addr in
        obind (spinlockCntWriteAcquire (WLOCK_PAGING s)) (\<lambda>l.
        obind (ensure_table b (s\<lparr>WLOCK_PAGING := l\<rparr>) pagedir (PML4E v)) (\<lambda>(pdp, s1).
        obind (ensure_table b s1 pdp (PDPTE v)) (\<lambda>(pd, s2).
        obind (ensure_table b s2 pd (PDE v)) (\<lambda>(pt, s3).
        obind (release_old b (entry b s3 pt (PTE v)) s3) (\<lambda>s4.
        let s5 = set_entry b pt (PTE v)
                   (if phys_addr = 0 then 0 else P_PHYS_ADDR phys_addr OR PF_PRESENT OR flags) s4 in
        obind (spinlockCntWriteRelease (WLOCK_PAGING s5)) (\<lambda>l'.
          Ok (s5\<lparr>WLOCK_PAGING := l'\<rparr>)))))))))"
  by (simp only: VirtualMapL_def release_old_def Let_def)

lemma ensure_step:
  assumes ok: "frames_ok s" "tree_ok b s r" "0 < spare s"
    and p: "upath (p @ [i])" "length p < 3" "node (mem s) r p = Some f"
  shows "\<exists>g s'. ensure_table b s (f + hhdmOffset b) i = Ok (g + hhdmOffset b, s') \<and>
    frames_ok s' \<and> tree_ok b s' r \<and> node (mem s') r (p @ [i]) = Some g \<and> spare s \<le> spare s' + 1 \<and>
    (\<forall>q. upath q \<longrightarrow> length q = 4 \<longrightarrow> node (mem s') r q = node (mem s) r q) \<and>
    (\<forall>h. unmapped_frame b s r h \<longrightarrow> unmapped_frame b s' r h) \<and>
    WLOCK_PAGING s' = WLOCK_PAGING s \<and> globalPagedir s' = globalPagedir s"
proof (rule ensure_table_ok [OF ok p], goal_cases)
  case (1 g s')
  have "node (mem s') r q = node (mem s) r q" if "upath q" "length q = 4" for q
    using 1(6) [OF that(1)] that(2) p(2) by fastforce
  moreover have "unmapped_frame b s' r h" if h: "unmapped_frame b s r h" for h
    unfolding unmapped_frame_def
  proof (intro conjI allI impI)
    have kh: "kept_frame b s h" using h by (simp add: unmapped_frame_def)
    then show "kept_frame b s' h" by (rule 1(7))
    fix q assume q: "upath q"
    show "node (mem s') r q \<noteq> Some h"
    proof (cases "q = p @ [i]")
      case True
      then show ?thesis using 1(8) [OF kh] h q by (auto simp: unmapped_frame_def)
    next
      case False
      then show ?thesis using 1(6) [OF q False] h q by (simp add: unmapped_frame_def)
    qed
  qed
  ultimately show ?case using 1(1-5,9,10) by blast
qed

lemma VirtualMapL_ok:
  assumes ok: "paging_ok b pd s" "3 \<le> spare s"
    and v: "user_addr v" "v mod PAGE_SIZE = 0"
    and ph: "phys \<noteq> 0 \<longrightarrow> unmapped_frame b s (pd - hhdmOffset b) phys" "PTE_GET_ADDR flags = 0"
  shows "\<exists>s'. VirtualMapL b s pd v phys flags = Ok s' \<and> paging_ok b pd s' \<and> spare s \<le> spare s' + 3 \<and>
    globalPagedir s' = globalPagedir s \<and>
    (\<forall>q. upath q \<longrightarrow> length q = 4 \<longrightarrow> node (mem s') (pd - hhdmOffset b) q =
       (if q = page_path v then if phys = 0 then None else Some phys else node (mem s) (pd - hhdmOffset b) q)) \<and>
    (\<forall>h. unmapped_frame b s (pd - hhdmOffset b) h \<longrightarrow> h \<noteq> phys \<longrightarrow> unmapped_frame b s' (pd - hhdmOffset b) h)"
proof -
  define r where "r = pd - hhdmOffset b"
  have pd: "pd = r + hhdmOffset b" by (simp add: r_def)
  have inv: "frames_ok s" "tree_ok b s r" "rw_free (WLOCK_PAGING s)"
    using ok(1) by (simp_all add: paging_ok_def r_def)
  define s0 where "s0 = s\<lparr>WLOCK_PAGING := (WLOCK_PAGING s)\<lparr>cnt := -1, LOCK := False\<rparr>\<rparr>"
  have acq: "spinlockCntWriteAcquire (WLOCK_PAGING s) = Ok ((WLOCK_PAGING s)\<lparr>cnt := -1, LOCK := False\<rparr>)"
    using inv(3) by (simp add: spinlockCntWriteAcquire_def spinlockRelease_def)
  have 0: "frames_ok s0" "tree_ok b s0 r" "3 \<le> spare s0" "node (mem s0) r [] = Some r"
    using inv ok(2) by (simp_all add: s0_def frames_ok_def tree_ok_def kept_frame_def spare_def)
  note up = user_path_prefix [OF v(1)]
  obtain pdp s1 where 1: "ensure_table b s0 (r + hhdmOffset b) (PML4E v) = Ok (pdp + hhdmOffset b, s1)"
    "frames_ok s1" "tree_ok b s1 r" "node (mem s1) r [PML4E v] = Some pdp" "spare s0 \<le> spare s1 + 1"
    "\<forall>q. upath q \<longrightarrow> length q = 4 \<longrightarrow> node (mem s1) r q = node (mem s0) r q"
    "\<forall>h. unmapped_frame b s0 r h \<longrightarrow> unmapped_frame b s1 r h"
    "WLOCK_PAGING s1 = WLOCK_PAGING s0" "globalPagedir s1 = globalPagedir s0"
    using ensure_step [OF 0(1,2) _ up(1) _ 0(4)] 0(3) by auto
  obtain pdt s2 where 2: "ensure_table b s1 (pdp + hhdmOffset b) (PDPTE v) = Ok (pdt + hhdmOffset b, s2)"
    "frames_ok s2" "tree_ok b s2 r" "node (mem s2) r [PML4E v, PDPTE v] = Some pdt" "spare s1 \<le> spare s2 + 1"
    "\<forall>q. upath q \<longrightarrow> length q = 4 \<longrightarrow> node (mem s2) r q = node (mem s1) r q"
    "\<forall>h. unmapped_frame b s1 r h \<longrightarrow> unmapped_frame b s2 r h"
    "WLOCK_PAGING s2 = WLOCK_PAGING s1" "globalPagedir s2 = globalPagedir s1"
    using ensure_step [OF 1(2,3) _ up(2) _ 1(4)] 1(5) 0(3) by auto
  obtain pt s3 where 3: "ensure_table b s2 (pdt + hhdmOffset b) (PDE v) = Ok (pt + hhdmOffset b, s3)"
    "frames_ok s3" "tree_ok b s3 r" "node (mem s3) r [PML4E v, PDPTE v, PDE v] = Some pt" "spare s2 \<le> spare s3 + 1"
    "\<forall>q. upath q \<longrightarrow> length q = 4 \<longrightarrow> node (mem s3) r q = node (mem s2) r q"
    "\<forall>h. unmapped_frame b s2 r h \<longrightarrow> unmapped_frame b s3 r h"
    "WLOCK_PAGING s3 = WLOCK_PAGING s2" "globalPagedir s3 = globalPagedir s2"
    using ensure_step [OF 2(2,3) _ up(3) _ 2(4)] 2(5) 1(5) 0(3) by auto
  have um: "unmapped_frame b s3 r h" if "unmapped_frame b s r h" for h
    using that 1(7) 2(7) 3(7) by (simp add: unmapped_frame_def s0_def kept_frame_def)
  define e where "e = (if phys = 0 then 0 else P_PHYS_ADDR phys OR PF_PRESENT OR flags)"
  have pe: "present e \<longleftrightarrow> phys \<noteq> 0" by (simp add: e_def)
  have ae: "PTE_GET_ADDR e = phys" if "phys \<noteq> 0"
  proof -
    have "frame_addr phys" using ph(1) that by (simp add: unmapped_frame_def kept_frame_def)
    then show ?thesis using that ph(2) by (simp add: e_def PTE_GET_ADDR_or frame_addr_page)
  qed
  have ue: "unmapped_frame b s3 r (PTE_GET_ADDR e)" if "present e"
    using that pe ae ph(1) um by (simp add: r_def)
  show ?thesis
  proof (rule set_leaf_ok [OF 3(2,3) up(4) _ 3(4) ue], goal_cases)
    case L: (3 p' s')
    define s5 where "s5 = s'\<lparr>WLOCK_PAGING := (WLOCK_PAGING s')\<lparr>cnt := 0, LOCK := False\<rparr>\<rparr>"
    have w': "WLOCK_PAGING s' = (WLOCK_PAGING s)\<lparr>cnt := -1, LOCK := False\<rparr>" "globalPagedir s' = globalPagedir s"
      using 1(8,9) 2(8,9) 3(8,9) by (simp_all add: L(2) s0_def)
    have "set_entry b (pt + hhdmOffset b) (PTE v) e (s3\<lparr>pmm := p'\<rparr>) = s'"
      by (simp add: set_entry_def L(2) with_entry_def)
    moreover have "spinlockCntWriteRelease (WLOCK_PAGING s') = Ok ((WLOCK_PAGING s')\<lparr>cnt := 0, LOCK := False\<rparr>)"
      by (simp add: w' spinlockCntWriteRelease_def spinlockRelease_def)
    ultimately have ev: "VirtualMapL b s pd v phys flags = Ok s5"
      unfolding VirtualMapL_release pd
      by (simp add: v(2) user_addr_strip [OF v(1)] Let_def acq s0_def [symmetric] 1(1) 2(1) 3(1) entry_def L(1)
          e_def [symmetric] s5_def)
    have "frames_ok s5" "tree_ok b s5 r" "spare s5 = spare s'" "mem s5 = mem s'"
      using L(3,4) by (simp_all add: s5_def frames_ok_def tree_ok_def kept_frame_def spare_def)
    then have ok5: "paging_ok b pd s5" "spare s \<le> spare s5 + 3"
      using ok(1) 1(5) 2(5) 3(5) L(5) by (simp_all add: paging_ok_def r_def s5_def s0_def spare_def)
    have nd: "node (mem s5) r q = (if q = page_path v then if phys = 0 then None else Some phys else node (mem s) r q)"
      if "upath q" "length q = 4" for q
      using L(6) [OF that(1)] that 1(6) 2(6) 3(6) pe ae by (simp add: s5_def s0_def page_path_def)
    have un: "unmapped_frame b s5 r h" if "unmapped_frame b s r h" "h \<noteq> phys" for h
    proof -
      have "unmapped_frame b s' r h" using that(2) pe ae by (intro L(7) um that(1)) simp
      then show ?thesis by (simp add: unmapped_frame_def kept_frame_def s5_def)
    qed
    have "globalPagedir s5 = globalPagedir s" using w'(2) by (simp add: s5_def)
    with ev ok5 nd un show ?case unfolding r_def [symmetric] by blast
  qed simp_all
qed

section \<open>Address spaces\<close>

text \<open>
  What a client of the page tables relies on: \<open>ready n\<close> says that the tables are well formed and
  \<open>n\<close> frames are left for new ones, and mapping a page changes the translation at that page alone.
\<close>

locale address_space =
  fixes ready :: "nat \<Rightarrow> 's \<Rightarrow> bool"
    and lookup :: "'s \<Rightarrow> u64 \<Rightarrow> u64"
    and avail :: "'s \<Rightarrow> u64 \<Rightarrow> bool"
    and map_page :: "'s \<Rightarrow> u64 \<Rightarrow> u64 \<Rightarrow> u64 \<Rightarrow> 's outcome"
  assumes map_page_ok: "ready (n + 3) s \<Longrightarrow> user_addr v \<Longrightarrow> v mod PAGE_SIZE = 0 \<Longrightarrow> avail s p \<Longrightarrow>
      PTE_GET_ADDR flags = 0 \<Longrightarrow>
      \<exists>s'. map_page s v p flags = Ok s' \<and> ready n s' \<and>
        (\<forall>w. user_addr w \<longrightarrow> lookup s' w = (if w AND NOT 0xFFF = v then p + (w AND 0xFFF) else lookup s w)) \<and>
        (\<forall>q. avail s q \<longrightarrow> q \<noteq> p \<longrightarrow> avail s' q)"
begin

lemma map_all:
  assumes "ready (3 * length ps + n) s" "PTE_GET_ADDR flags = 0"
    and "\<forall>(v, p) \<in> set ps. user_addr v \<and> v mod PAGE_SIZE = 0 \<and> avail s p"
    and "distinct (map fst ps)" "distinct (map snd ps)"
  shows "\<exists>s'. ofold (\<lambda>(v, p) s. map_page s v p flags) ps s = Ok s' \<and> ready n s' \<and>
    (\<forall>w. user_addr w \<longrightarrow> lookup s' w =
       (case map_of ps (w AND NOT 0xFFF) of None \<Rightarrow> lookup s w | Some p \<Rightarrow> p + (w AND 0xFFF)))"
  using assms
proof (induction ps arbitrary: s)
  case Nil
  then show ?case by simp
next
  case (Cons vp ps)
  obtain v p where vp: "vp = (v, p)" by (cases vp)
  have "ready ((3 * length ps + n) + 3) s" using Cons.prems(1) by (simp add: add.commute add.left_commute)
  from map_page_ok [OF this, of v p flags] Cons.prems vp obtain s1 where
    s1: "map_page s v p flags = Ok s1" "ready (3 * length ps + n) s1"
    "\<forall>w. user_addr w \<longrightarrow> lookup s1 w = (if w AND NOT 0xFFF = v then p + (w AND 0xFFF) else lookup s w)"
    "\<forall>q. avail s q \<longrightarrow> q \<noteq> p \<longrightarrow> avail s1 q" by auto
  have "\<forall>(v', p') \<in> set ps. user_addr v' \<and> v' mod PAGE_SIZE = 0 \<and> avail s1 p'"
    using Cons.prems(3,5) s1(4) vp by (auto 4 4 simp: image_iff)
  from Cons.IH [OF s1(2) Cons.prems(2) this] Cons.prems(4,5) obtain s2 where
    s2: "ofold (\<lambda>(v, p) s. map_page s v p flags) ps s1 = Ok s2" "ready n s2"
    "\<forall>w. user_addr w \<longrightarrow> lookup s2 w =
       (case map_of ps (w AND NOT 0xFFF) of None \<Rightarrow> lookup s1 w | Some p \<Rightarrow> p + (w AND 0xFFF))" by auto
  have "map_of ps v = None" using Cons.prems(4) vp by (simp add: map_of_eq_None_iff)
  then have "lookup s2 w = (case map_of (vp # ps) (w AND NOT 0xFFF) of None \<Rightarrow> lookup s w | Some p \<Rightarrow> p + (w AND 0xFFF))"
    if "user_addr w" for w
    using s2(3) s1(3) that vp by (cases "w AND NOT 0xFFF = v") (auto split: option.splits)
  then show ?case using s1(1) s2(1,2) vp by auto
qed

end

definition space_ready :: "bootinfo \<Rightarrow> nat \<Rightarrow> paging \<Rightarrow> bool" where
  "space_ready b n s \<longleftrightarrow> paging_ok b (globalPagedir s) s \<and> n \<le> spare s"

definition space_avail :: "bootinfo \<Rightarrow> paging \<Rightarrow> u64 \<Rightarrow> bool" where
  "space_avail b s p \<longleftrightarrow> unmapped_frame b s (globalPagedir s - hhdmOffset b) p"

text \<open>The effect of \<open>VirtualMapL\<close> on the translation of its directory.\<close>

lemma VirtualMapL_translation:
  assumes ok: "paging_ok b pd s" "3 \<le> spare s"
    and v: "user_addr v" "v mod PAGE_SIZE = 0"
    and ph: "phys \<noteq> 0 \<longrightarrow> unmapped_frame b s (pd - hhdmOffset b) phys" "PTE_GET_ADDR flags = 0"
  shows "\<exists>s'. VirtualMapL b s pd v phys flags = Ok s' \<and> paging_ok b pd s' \<and> spare s \<le> spare s' + 3 \<and>
    globalPagedir s' = globalPagedir s \<and>
    (\<forall>w. user_addr w \<longrightarrow> VirtualToPhysicalL b s' pd w =
       (if w AND NOT 0xFFF = v then if phys = 0 then 0 else phys + (w AND 0xFFF)
        else VirtualToPhysicalL b s pd w)) \<and>
    (\<forall>h. unmapped_frame b s (pd - hhdmOffset b) h \<longrightarrow> h \<noteq> phys \<longrightarrow> unmapped_frame b s' (pd - hhdmOffset b) h)"
proof -
  obtain s' where s': "VirtualMapL b s pd v phys flags = Ok s'" "paging_ok b pd s'" "spare s \<le> spare s' + 3"
    "globalPagedir s' = globalPagedir s"
    "\<forall>q. upath q \<longrightarrow> length q = 4 \<longrightarrow> node (mem s') (pd - hhdmOffset b) q =
       (if q = page_path v then if phys = 0 then None else Some phys else node (mem s) (pd - hhdmOffset b) q)"
    "\<forall>h. unmapped_frame b s (pd - hhdmOffset b) h \<longrightarrow> h \<noteq> phys \<longrightarrow> unmapped_frame b s' (pd - hhdmOffset b) h"
    using VirtualMapL_ok [OF assms] by blast
  have "VirtualToPhysicalL b s' pd w = (if w AND NOT 0xFFF = v then if phys = 0 then 0 else phys + (w AND 0xFFF)
      else VirtualToPhysicalL b s pd w)" if w: "user_addr w" for w
  proof -
    define u where "u = w AND NOT 0xFFF"
    have u: "user_addr u" "upath (page_path u)" "length (page_path u) = 4"
      using user_addr_page [OF w] user_path by (simp_all add: u_def page_path_def)
    have "u AND NOT 0xFFF = u" unfolding u_def by (rule bit_word_eqI) (auto simp only: bit_page_base)
    then have "page_path u = page_path v \<longleftrightarrow> u = v"
      using page_path_inj [OF u(1) v(1)] page_aligned [OF v(2)] by auto
    then have nd: "node (mem s') (pd - hhdmOffset b) (page_path u) =
        (if u = v then if phys = 0 then None else Some phys else node (mem s) (pd - hhdmOffset b) (page_path u))"
      using s'(5) u(2,3) by simp
    have hp: "0x800000000000 \<le> hhdmOffset b" "pd \<noteq> 0" using ok(1) by (simp_all add: paging_ok_def)
    show ?thesis
      unfolding VirtualToPhysicalL_node [OF w hp] u_def [symmetric] nd by simp
  qed
  with s' show ?thesis by blast
qed

interpretation vspace: address_space "space_ready b" "VirtualToPhysical b" "space_avail b" "VirtualMap b" for b
proof (unfold_locales, goal_cases)
  case (1 n s v p flags)
  then have r: "paging_ok b (globalPagedir s) s" "n + 3 \<le> spare s"
    "unmapped_frame b s (globalPagedir s - hhdmOffset b) p" "p \<noteq> 0"
    by (simp_all add: space_ready_def space_avail_def unmapped_frame_def kept_frame_def)
  then have "3 \<le> spare s" by simp
  from VirtualMapL_translation [OF r(1) this 1(2,3), of p flags] r 1(5) obtain s' where
    "VirtualMapL b s (globalPagedir s) v p flags = Ok s'" "paging_ok b (globalPagedir s) s'"
    "spare s \<le> spare s' + 3" "globalPagedir s' = globalPagedir s"
    "\<forall>w. user_addr w \<longrightarrow> VirtualToPhysicalL b s' (globalPagedir s) w =
       (if w AND NOT 0xFFF = v then p + (w AND 0xFFF) else VirtualToPhysicalL b s (globalPagedir s) w)"
    "\<forall>h. unmapped_frame b s (globalPagedir s - hhdmOffset b) h \<longrightarrow> h \<noteq> p \<longrightarrow>
       unmapped_frame b s' (globalPagedir s - hhdmOffset b) h" by auto
  with r(2) show ?case
    by (auto simp: VirtualMap_def VirtualToPhysical_def space_ready_def space_avail_def)
qed

lemma map_pages_ofold:
  "map_pages b i n virt phys flags s = ofold (\<lambda>(v, p) s. VirtualMap b s v p flags)
     (map (\<lambda>k. let off = scast (of_nat k * 0x1000 :: 32 word) in (virt + off, phys + off)) [i..<i + n]) s"
proof (induction n arbitrary: i s)
  case (Suc n)
  have "[i..<i + Suc n] = i # [Suc i..<Suc i + n]" by (simp add: upt_rec)
  then show ?case unfolding map_pages.simps Suc.IH by (simp add: Let_def)
qed simp

lemma int_page_offset:
  assumes "k < 2 ^ 19" shows "scast (of_nat k * 0x1000 :: 32 word) = (of_nat (k * 4096) :: u64)"
proof -
  have e: "(of_nat k * 0x1000 :: 32 word) = of_nat (k * 4096)" by simp
  have l: "k * 4096 < 2 ^ 31" using assms by simp
  then have u: "unat (of_nat (k * 4096) :: 32 word) = k * 4096" by (subst unat_of_nat) simp
  with l have "unat (scast (of_nat (k * 4096) :: 32 word) :: u64) = k * 4096" by (subst unat_scast_int) simp_all
  moreover have "unat (of_nat (k * 4096) :: u64) = k * 4096" using l by (subst unat_of_nat) simp
  ultimately show ?thesis unfolding e by (simp only: word_unat_eq_iff)
qed

lemma unat_page_base: "unat (w AND NOT 0xFFF :: u64) = unat w div 4096 * 4096"
proof -
  have "w AND NOT 0xFFF = push_bit 12 (drop_bit 12 w)"
    by (rule bit_word_eqI) (auto simp only: bit_page_base bit_push_bit_iff bit_drop_bit_eq comp_def
        le_add_diff_inverse intro: bit_imp_possible_bit)
  also have "\<dots> = of_nat (unat w div 4096 * 4096)"
    by (rule word_unat_eq_iff [THEN iffD2]) (simp add: push_bit_eq_mult drop_bit_eq_div unat_word_ariths unat_div_word unat_of_nat)
  finally have "unat (w AND NOT 0xFFF) = unat (of_nat (unat w div 4096 * 4096) :: u64)" by simp
  also have "\<dots> = unat w div 4096 * 4096"
    using unat_less_two_power [of w] div_times_less_eq_dividend [of "unat w" 4096]
    by (subst unat_of_nat) (rule mod_less, simp)
  finally show ?thesis .
qed

lemma page_split: "(w AND NOT 0xFFF :: u64) + (w AND 0xFFF) = w"
proof -
  have "(w AND NOT 0xFFF) + (w AND 0xFFF) = (w AND NOT 0xFFF) OR (w AND 0xFFF)"
    by (rule disjunctive_add) (auto simp only: bit_page_base bit_page_mask)
  also have "\<dots> = w" by (rule bit_word_eqI) (auto simp only: bit_or_iff bit_page_base bit_page_mask)
  finally show ?thesis .
qed

text \<open>The offset of the \<open>k\<close>-th page of a region, and where a user address falls among the pages.\<close>

definition page_off :: "nat \<Rightarrow> u64" where
  "page_off k = of_nat (k * 4096)"

lemma unat_page_off: "k < 2 ^ 35 \<Longrightarrow> unat (page_off k) = k * 4096"
  unfolding page_off_def by (subst unat_of_nat) simp

lemma page_key:
  assumes "v mod PAGE_SIZE = 0" "unat v + n * 4096 \<le> 2 ^ 47" "k < n"
  shows "unat (v + page_off k) = unat v + k * 4096" "user_addr (v + page_off k)"
    "(v + page_off k) mod PAGE_SIZE = 0"
proof -
  have "k * 4096 < n * 4096" using assms(3) by simp
  then have lim: "unat v + k * 4096 < 2 ^ 47" using assms(2) by linarith
  then have "unat (page_off k) = k * 4096" by (intro unat_page_off) simp
  with lim show u: "unat (v + page_off k) = unat v + k * 4096" by (subst unat_add_no_wrap) simp_all
  show "user_addr (v + page_off k)" using lim by (simp add: user_addr_def word_less_nat_alt u)
  have p: "unat PAGE_SIZE = 4096" by (simp add: PAGE_SIZE_def)
  have "unat v mod 4096 = 0" using assms(1) by (metis p unat_0 unat_mod_word)
  then have "unat ((v + page_off k) mod PAGE_SIZE) = 0" by (simp add: unat_mod_word u p)
  then show "(v + page_off k) mod PAGE_SIZE = 0" by (simp only: unat_eq_zero)
qed

abbreviation page_list :: "u64 \<Rightarrow> u64 \<Rightarrow> nat \<Rightarrow> (u64 \<times> u64) list" where
  "page_list virt phys n \<equiv> map (\<lambda>k. (virt + page_off k, phys + page_off k)) [0..<n]"

lemma page_list_distinct:
  assumes "virt mod PAGE_SIZE = 0" "unat virt + n * 4096 \<le> 2 ^ 47"
  shows "distinct (map fst (page_list virt phys n))" "distinct (map snd (page_list virt phys n))"
proof -
  have inj: "inj_on page_off {0..<n}"
  proof (rule inj_onI)
    fix i j assume ij: "i \<in> {0..<n}" "j \<in> {0..<n}" "page_off i = page_off j"
    have l: "i < 2 ^ 35" "j < 2 ^ 35" using ij(1,2) assms(2) by simp_all
    have "i * 4096 = j * 4096"
      unfolding unat_page_off [OF l(1), symmetric] unat_page_off [OF l(2), symmetric] ij(3) ..
    then show "i = j" by simp
  qed
  then show "distinct (map fst (page_list virt phys n))" "distinct (map snd (page_list virt phys n))"
    by (simp_all add: distinct_map comp_def inj_on_def)
qed

lemma map_of_pages:
  assumes "virt mod PAGE_SIZE = 0" "unat virt + n * 4096 \<le> 2 ^ 47" "user_addr w"
  shows "map_of (page_list virt phys n) (w AND NOT 0xFFF) =
    (if unat virt \<le> unat w \<and> unat w < unat virt + n * 4096
     then Some (phys + ((w AND NOT 0xFFF) - virt)) else None)"
proof -
  let ?u = "w AND NOT 0xFFF"
  have v: "unat virt = unat virt div 4096 * 4096" using unat_page_base [of virt] page_aligned [OF assms(1)] by simp
  note key = page_key(1) [OF assms(1,2)]
  show ?thesis
  proof (cases "unat virt \<le> unat w \<and> unat w < unat virt + n * 4096")
    case True
    define k where "k = unat w div 4096 - unat virt div 4096"
    have le: "unat virt div 4096 \<le> unat w div 4096" using True by (intro div_le_mono) simp
    have "unat w div 4096 < unat virt div 4096 + n" using True v by (simp add: less_mult_imp_div_less algebra_simps)
    then have k: "k < n" "unat w div 4096 = unat virt div 4096 + k" using le by (auto simp: k_def)
    have "unat ?u = unat (virt + page_off k)"
      unfolding unat_page_base key [OF k(1)] k(2) using v by (simp add: algebra_simps)
    then have u: "?u = virt + page_off k" by (simp only: word_unat_eq_iff)
    have "map_of (page_list virt phys n) ?u = Some (phys + page_off k)"
      using k(1) unfolding u by (intro map_of_is_SomeI [OF page_list_distinct(1) [OF assms(1,2)]]) auto
    then show ?thesis using True u by simp
  next
    case False
    have "?u \<notin> (\<lambda>k. virt + page_off k) ` {0..<n}"
    proof
      assume "?u \<in> (\<lambda>k. virt + page_off k) ` {0..<n}"
      then obtain k where that: "k < n" and "?u = virt + page_off k" by (elim imageE) simp
      then have "unat w div 4096 * 4096 = unat virt + k * 4096"
        using unat_page_base [of w] key [OF that] by simp
      moreover have "unat w < unat w div 4096 * 4096 + 4096" "unat w div 4096 * 4096 \<le> unat w"
        using div_block_bounds [of "unat w"] by linarith+
      moreover have "k * 4096 + 4096 \<le> n * 4096" using that by simp
      ultimately show False using False by linarith
    qed
    then have "map_of (page_list virt phys n) ?u = None"
      unfolding map_of_eq_None_iff by (simp only: set_map set_upt image_image fst_conv not_False_eq_True)
    then show ?thesis using False by simp
  qed
qed

section \<open>Properties\<close>

text \<open>C23: mapping a page refines a function update. On well-formed page tables with three spare
  frames, \<^verbatim>\<open>VirtualMapL\<close> returns, keeps the tables well formed, and changes what
  \<^verbatim>\<open>VirtualToPhysicalL\<close> answers for the addresses of that page and for no other user address; a
  null physical address removes the mapping.\<close>

theorem VirtualMapL_correct:
  assumes "paging_ok b pd s" "3 \<le> spare s" "user_addr v" "v mod PAGE_SIZE = 0"
    and "phys \<noteq> 0 \<longrightarrow> unmapped_frame b s (pd - hhdmOffset b) phys" "PTE_GET_ADDR flags = 0"
  shows "\<exists>s'. VirtualMapL b s pd v phys flags = Ok s' \<and> paging_ok b pd s' \<and>
    (\<forall>w. user_addr w \<longrightarrow> VirtualToPhysicalL b s' pd w =
       (if w AND NOT 0xFFF = v then if phys = 0 then 0 else phys + (w AND 0xFFF)
        else VirtualToPhysicalL b s pd w))"
  using VirtualMapL_translation [OF assms] by blast

text \<open>An empty directory in frame 1 of a memory of 16 frames, of which 0, 1 and 8 to 15 are taken.\<close>

definition example_boot :: bootinfo where
  "example_boot = \<lparr>hhdmOffset = 0xffff800000000000, mmTotal = 0x10000, fb_phys = 0, fb_width = 0, fb_height = 0\<rparr>"

definition example_paging :: paging where
  "example_paging = \<lparr>mem = (\<lambda>_ _. 0),
     pmm = \<lparr>physical = \<lparr>Bitmap = [0x03, 0xFF], BitmapSizeInBlocks = 16, BitmapSizeInBytes = 2,
       allocatedSizeInBlocks = 10, lastDeepFragmented = 0, mem_start = 0, ready = True\<rparr>, LOCK_PMM = False\<rparr>,
     WLOCK_PAGING = \<lparr>LOCK = False, cnt = 0\<rparr>, globalPagedir = 0xffff800000001000, cr3 = 0x1000\<rparr>"

lemma example_used: "used_blocks (physical (pmm example_paging)) = {0, 1} \<union> {8..<16}"
proof -
  have "k \<in> used_blocks (physical (pmm example_paging)) \<longleftrightarrow> k \<in> {0, 1} \<union> {8..<16}" for k
  proof (cases "k < 16")
    case True
    then have "k \<in> set [0..<16]" by simp
    moreover have "\<forall>k \<in> set [0..<16]. blk_used (physical (pmm example_paging)) k \<longleftrightarrow> k \<in> {0, 1} \<union> {8..<16}"
      by code_simp
    ultimately show ?thesis using True by (simp add: used_blocks_def nblocks_def example_paging_def)
  next
    case False
    then show ?thesis by (simp add: used_blocks_def nblocks_def example_paging_def)
  qed
  then show ?thesis by blast
qed

lemma example_frames: "frames_ok example_paging" "spare example_paging = 6"
  using example_used
  by (simp_all add: frames_ok_def spare_def bitmap_inv_def bitmap_wf_def hint_ok_def nblocks_def example_paging_def)

lemma example_node: "node (mem example_paging) r p = (if p = [] then Some r else None)"
  by (cases p) (simp_all add: example_paging_def PF_PRESENT_def)

lemma example_root: "globalPagedir example_paging - hhdmOffset example_boot = 0x1000"
  by (simp add: example_paging_def example_boot_def)

lemma example_paging_ok: "paging_ok example_boot 0xffff800000001000 example_paging"
proof -
  have "kept_frame example_boot example_paging 0x1000"
    by (simp add: kept_frame_def example_used PTE_GET_ADDR_def PTE_ADDR_MASK_def)
  then have "tree_ok example_boot example_paging 0x1000"
    by (intro tree_okI) (auto simp: example_node split: if_splits)
  then show ?thesis
    using example_frames(1) by (simp add: paging_ok_def example_boot_def example_paging_def)
qed

lemma example_unmapped: "unmapped_frame example_boot example_paging 0x1000 0x8000"
  by (simp add: unmapped_frame_def kept_frame_def example_used example_node PTE_GET_ADDR_def PTE_ADDR_MASK_def)

theorem VirtualMapL_correct_witness:
  "\<exists>s'. VirtualMapL example_boot example_paging 0xffff800000001000 0x400000 0x8000 6 = Ok s' \<and>
    paging_ok example_boot 0xffff800000001000 s' \<and>
    (\<forall>w. user_addr w \<longrightarrow> VirtualToPhysicalL example_boot s' 0xffff800000001000 w =
       (if w AND NOT 0xFFF = 0x400000 then if (0x8000 :: u64) = 0 then 0 else 0x8000 + (w AND 0xFFF)
        else VirtualToPhysicalL example_boot example_paging 0xffff800000001000 w))"
  by (rule VirtualMapL_correct [OF example_paging_ok])
     (use example_unmapped in \<open>simp_all add: example_frames user_addr_def PAGE_SIZE_def PTE_GET_ADDR_def
        PTE_ADDR_MASK_def example_boot_def\<close>)

text \<open>C24: \<^verbatim>\<open>VirtualMapRegionByLength\<close> maps every byte of its region. Below the \<open>2 ^ 19\<close> pages at
  which its \<^verbatim>\<open>int\<close> product overflows, with three spare frames for every page and distinct
  unmapped frames to map, each user address in the region is translated to the same offset from
  the physical base and every other user address as before.\<close>

theorem VirtualMapRegionByLength_correct:
  assumes "paging_ok b (globalPagedir s) s" "3 * n \<le> spare s" "n < 2 ^ 19"
    and "n = unat (ucast (DivRoundUp len PAGE_SIZE) :: u32)"
    and "virt mod PAGE_SIZE = 0" "unat virt + n * 4096 \<le> 2 ^ 47" "PTE_GET_ADDR flags = 0"
    and "\<forall>k < n. unmapped_frame b s (globalPagedir s - hhdmOffset b) (phys + page_off k)"
  shows "\<exists>s'. VirtualMapRegionByLength b s virt phys len flags = Ok s' \<and>
    (\<forall>w. user_addr w \<longrightarrow> VirtualToPhysical b s' w =
       (if unat virt \<le> unat w \<and> unat w < unat virt + n * 4096 then phys + (w - virt)
        else VirtualToPhysical b s w))"
proof -
  have "map (\<lambda>k. let off = scast (of_nat k * 0x1000 :: 32 word) in (virt + off, phys + off)) [0..<0 + n] =
      page_list virt phys n"
    using assms(3) int_page_offset by (intro map_cong) (simp_all add: Let_def page_off_def)
  then have eq: "VirtualMapRegionByLength b s virt phys len flags =
      ofold (\<lambda>(v, p) s. VirtualMap b s v p flags) (page_list virt phys n) s"
    unfolding VirtualMapRegionByLength_def map_pages_ofold assms(4) [symmetric] by (simp only:)
  have "space_ready b (3 * length (page_list virt phys n) + 0) s" using assms(1,2) by (simp add: space_ready_def)
  moreover have "\<forall>(v, p) \<in> set (page_list virt phys n). user_addr v \<and> v mod PAGE_SIZE = 0 \<and> space_avail b s p"
    using page_key(2,3) [OF assms(5,6)] assms(8) by (auto simp: space_avail_def)
  ultimately obtain s' where s': "VirtualMapRegionByLength b s virt phys len flags = Ok s'"
    "\<forall>w. user_addr w \<longrightarrow> VirtualToPhysical b s' w =
       (case map_of (page_list virt phys n) (w AND NOT 0xFFF) of None \<Rightarrow> VirtualToPhysical b s w
        | Some p \<Rightarrow> p + (w AND 0xFFF))"
    using vspace.map_all [OF _ assms(7) _ page_list_distinct [OF assms(5,6)]] unfolding eq by blast
  have "phys + ((w AND NOT 0xFFF) - virt) + (w AND 0xFFF) = phys + (w - virt)" for w
    using page_split [of w] by (simp add: algebra_simps)
  then show ?thesis
    using s' map_of_pages [OF assms(5,6)] by (intro exI [of _ s']) auto
qed

theorem VirtualMapRegionByLength_correct_witness:
  "\<exists>s'. VirtualMapRegionByLength example_boot example_paging 0x400000 0x8000 5000 6 = Ok s' \<and>
    (\<forall>w. user_addr w \<longrightarrow> VirtualToPhysical example_boot s' w =
       (if unat (0x400000 :: u64) \<le> unat w \<and> unat w < unat (0x400000 :: u64) + 2 * 4096
        then 0x8000 + (w - 0x400000) else VirtualToPhysical example_boot example_paging w))"
proof -
  have um: "\<forall>k < 2. unmapped_frame example_boot example_paging (globalPagedir example_paging - hhdmOffset example_boot)
      (0x8000 + page_off k)"
  proof (intro allI impI)
    fix k :: nat assume "k < 2"
    then consider "k = 0" | "k = 1" by linarith
    then show "unmapped_frame example_boot example_paging (globalPagedir example_paging - hhdmOffset example_boot)
        (0x8000 + page_off k)"
      unfolding example_root
      by cases (simp_all add: unmapped_frame_def kept_frame_def example_used example_node PTE_GET_ADDR_def
          PTE_ADDR_MASK_def page_off_def)
  qed
  have pd: "paging_ok example_boot (globalPagedir example_paging) example_paging"
    using example_paging_ok by (simp add: example_paging_def)
  have n: "2 = unat (ucast (DivRoundUp 5000 PAGE_SIZE) :: u32)" by code_simp
  show ?thesis
    by (rule VirtualMapRegionByLength_correct [OF pd _ _ n _ _ _ um])
       (simp_all add: example_frames PAGE_SIZE_def PTE_GET_ADDR_def PTE_ADDR_MASK_def)
qed

end
