(* ===== verification/Task.thy ===== *)
theory Task
  imports CString Paging
begin

unbundle bit_operations_syntax

text \<open>
  Tasks: the record \<^verbatim>\<open>struct Task\<close> of \<^verbatim>\<open>include/task.h\<close> with the parts that tasks can share
  (\<^verbatim>\<open>multitasking/task_info.c\<close>), the list of tasks, creation, forking, termination and waiting
  (\<^verbatim>\<open>multitasking/task.c\<close>, \<^verbatim>\<open>syscalls/linux/syscalls_proc.c\<close>). The chain of \<^verbatim>\<open>next\<close> pointers
  from \<^verbatim>\<open>firstTask\<close> is an association list from task pointers to tasks, in the order of the chain.
  Objects that several tasks share are named by their addresses.
\<close>

section \<open>Registers\<close>

record AsmPassedInterrupt =
  ds :: u64
  r15 :: u64
  r14 :: u64
  r13 :: u64
  r12 :: u64
  r11 :: u64
  r10 :: u64
  r9 :: u64
  r8 :: u64
  rbp :: u64
  rdi :: u64
  rsi :: u64
  rdx :: u64
  rcx :: u64
  rbx :: u64
  rax :: u64
  interrupt :: u64
  error :: u64
  rip :: u64
  cs :: u64
  rflags :: u64
  usermode_rsp :: u64
  usermode_ss :: u64

definition zero_regs :: AsmPassedInterrupt where
  "zero_regs = \<lparr>ds = 0, r15 = 0, r14 = 0, r13 = 0, r12 = 0, r11 = 0, r10 = 0, r9 = 0, r8 = 0, rbp = 0,
     rdi = 0, rsi = 0, rdx = 0, rcx = 0, rbx = 0, rax = 0, interrupt = 0, error = 0, rip = 0, cs = 0,
     rflags = 0, usermode_rsp = 0, usermode_ss = 0\<rparr>"

definition GDT_KERNEL_CODE :: u64 where "GDT_KERNEL_CODE = 40"
definition GDT_KERNEL_DATA :: u64 where "GDT_KERNEL_DATA = 48"
definition GDT_USER_CODE :: u64 where "GDT_USER_CODE = 80"
definition GDT_USER_DATA :: u64 where "GDT_USER_DATA = 72"
definition DPL_USER :: u64 where "DPL_USER = 3"

section \<open>Task states and flags\<close>

datatype TASK_STATE = TASK_STATE_DEAD | TASK_STATE_READY | TASK_STATE_IDLE | TASK_STATE_WAITING_INPUT
  | TASK_STATE_CREATED | TASK_STATE_WAITING_CHILD | TASK_STATE_WAITING_CHILD_SPECIFIC
  | TASK_STATE_WAITING_VFORK | TASK_STATE_BLOCKED | TASK_STATE_SIGKILLED | TASK_STATE_FUTEX
  | TASK_STATE_DUMMY

definition EXTRAS_DISABLE_FUTEX :: u64 where "EXTRAS_DISABLE_FUTEX = 1"
definition EXTRAS_INVOLUTARY_WAKEUP :: u64 where "EXTRAS_INVOLUTARY_WAKEUP = 2"

definition CLONE_VM :: u64 where "CLONE_VM = 0x100"
definition CLONE_FS :: u64 where "CLONE_FS = 0x200"
definition CLONE_FILES :: u64 where "CLONE_FILES = 0x400"
definition CLONE_SIGHAND :: u64 where "CLONE_SIGHAND = 0x800"
definition CLONE_THREAD :: u64 where "CLONE_THREAD = 0x10000"

definition SIGKILL :: u32 where "SIGKILL = 9"
definition SIGALRM :: u32 where "SIGALRM = 14"
definition SIGCHLD :: u32 where "SIGCHLD = 17"
definition SIGSTOP :: u32 where "SIGSTOP = 19"
definition NSIG :: nat where "NSIG = 64"

section \<open>The shared parts of a task\<close>

record TaskInfoFs =
  LOCK_FS :: Spinlock
  fs_utilizedBy :: int
  cwd :: "u8 list"
  umask :: u32

definition taskInfoFsAllocate :: TaskInfoFs where
  "taskInfoFsAllocate = \<lparr>LOCK_FS = False, fs_utilizedBy = 1, cwd = [47, 0], umask = 0x12\<rparr>"

text \<open>A discarded object is \<open>None\<close> once it has been freed.\<close>

definition taskInfoFsDiscard :: "TaskInfoFs \<Rightarrow> TaskInfoFs option outcome" where
  "taskInfoFsDiscard target =
     obind (spinlockAcquire (LOCK_FS target)) (\<lambda>l.
       let t = target\<lparr>LOCK_FS := l, fs_utilizedBy := fs_utilizedBy target - 1\<rparr> in
       if fs_utilizedBy t = 0 then Ok None else Ok (Some (t\<lparr>LOCK_FS := spinlockRelease l\<rparr>)))"

definition taskInfoFsClone :: "TaskInfoFs \<Rightarrow> (TaskInfoFs \<times> TaskInfoFs) outcome" where
  "taskInfoFsClone old =
     obind (spinlockAcquire (LOCK_FS old)) (\<lambda>l.
     obind (strlength (cwd old)) (\<lambda>n.
       Ok (taskInfoFsAllocate\<lparr>umask := umask old, cwd := take (n + 1) (cwd old)\<rparr>,
           old\<lparr>LOCK_FS := spinlockRelease l\<rparr>)))"

record TaskInfoPagedir =
  LOCK_PD :: Spinlock
  pd_utilizedBy :: int
  heap_start :: u64
  heap_end :: u64
  mmap_start :: u64
  mmap_end :: u64
  pagedir :: u64

definition USER_MMAP_START :: u64 where "USER_MMAP_START = 0x700000000000"
definition USER_HEAP_START :: u64 where "USER_HEAP_START = 0x600000000000"
definition USER_STACK_BOTTOM :: u64 where "USER_STACK_BOTTOM = 0x800000000000"
definition USER_STACK_PAGES :: "32 word" where "USER_STACK_PAGES = 2048"

definition taskInfoPdAllocate :: "bootinfo \<Rightarrow> u64 \<Rightarrow> bool \<Rightarrow> paging \<Rightarrow> (TaskInfoPagedir \<times> paging) outcome" where
  "taskInfoPdAllocate b model wantPagedir s =
     obind (if wantPagedir then PageDirectoryAllocate b True model s else Ok (0, s)) (\<lambda>(pd, s').
       Ok (\<lparr>LOCK_PD = False, pd_utilizedBy = 1, heap_start = USER_HEAP_START, heap_end = USER_HEAP_START,
            mmap_start = USER_MMAP_START, mmap_end = USER_MMAP_START, pagedir = pd\<rparr>, s'))"

definition taskInfoPdClone :: "bootinfo \<Rightarrow> u64 \<Rightarrow> TaskInfoPagedir \<Rightarrow> paging \<Rightarrow>
    (TaskInfoPagedir \<times> TaskInfoPagedir \<times> paging) outcome" where
  "taskInfoPdClone b model old s =
     obind (taskInfoPdAllocate b model True s) (\<lambda>(new, s1).
     obind (spinlockAcquire (LOCK_PD old)) (\<lambda>l.
     obind (PageDirectoryUserDuplicate b (pagedir old) (pagedir new) s1) (\<lambda>s2.
       Ok (new\<lparr>heap_start := heap_start old, heap_end := heap_end old,
              mmap_start := mmap_start old, mmap_end := mmap_end old\<rparr>,
           old\<lparr>LOCK_PD := spinlockRelease l\<rparr>, s2))))"

definition taskInfoPdDiscard :: "bootinfo \<Rightarrow> TaskInfoPagedir \<Rightarrow> paging \<Rightarrow> (TaskInfoPagedir \<times> paging) outcome" where
  "taskInfoPdDiscard b target s =
     obind (spinlockAcquire (LOCK_PD target)) (\<lambda>l.
       let t = target\<lparr>LOCK_PD := l, pd_utilizedBy := pd_utilizedBy target - 1\<rparr> in
       if pd_utilizedBy t = 0 then obind (PageDirectoryFree b (pagedir t) s) (\<lambda>s'. Ok (t, s'))
       else Ok (t\<lparr>LOCK_PD := spinlockRelease l\<rparr>, s))"

record sigaction =
  sa_handler :: u64
  sa_flags :: u64
  sa_restorer :: u64
  sa_mask :: u64

record IntTimerInternal =
  at :: u64
  reset :: u64

record TaskInfoSignal =
  LOCK_SIGNAL :: Spinlock
  sig_utilizedBy :: int
  itimerReal :: IntTimerInternal
  signals :: "sigaction list"

definition taskInfoSignalAllocate :: TaskInfoSignal where
  "taskInfoSignalAllocate =
     \<lparr>LOCK_SIGNAL = False, sig_utilizedBy = 1, itimerReal = \<lparr>at = 0, reset = 0\<rparr>,
      signals = replicate (NSIG + 1) \<lparr>sa_handler = 0, sa_flags = 0, sa_restorer = 0, sa_mask = 0\<rparr>\<rparr>"

definition taskInfoSignalClone :: "TaskInfoSignal \<Rightarrow> (TaskInfoSignal \<times> TaskInfoSignal) outcome" where
  "taskInfoSignalClone old =
     obind (spinlockAcquire (LOCK_SIGNAL old)) (\<lambda>l.
       Ok (taskInfoSignalAllocate\<lparr>signals := signals old\<rparr>, old\<lparr>LOCK_SIGNAL := spinlockRelease l\<rparr>))"

definition taskInfoSignalDiscard :: "TaskInfoSignal \<Rightarrow> TaskInfoSignal option outcome" where
  "taskInfoSignalDiscard target =
     obind (spinlockAcquire (LOCK_SIGNAL target)) (\<lambda>l.
       let t = target\<lparr>LOCK_SIGNAL := l, sig_utilizedBy := sig_utilizedBy target - 1\<rparr> in
       if sig_utilizedBy t = 0 then Ok None else Ok (Some (t\<lparr>LOCK_SIGNAL := spinlockRelease l\<rparr>)))"

section \<open>The task record\<close>

type_synonym tptr = nat

record KilledInfo =
  ki_pid :: u64
  ki_ret :: u16

record Task =
  tid :: u64
  pgid :: "32 word"
  tgid :: "32 word"
  sid :: "32 word"
  kernel_task :: bool
  state :: TASK_STATE
  waitingForPid :: u64
  registers :: AsmPassedInterrupt
  whileTssRsp :: u64
  whileSyscallRsp :: u64
  pagedirOverride :: u64
  systemCallInProgress :: bool
  syscallRegs :: "AsmPassedInterrupt option"
  syscallRsp :: u64
  dsSysIntr :: "u64 list"
  fsbase :: u64
  gsbase :: u64
  forcefulWakeupTimeUnsafe :: u64
  tmpRecV :: u32
  ctrlPty :: "32 word"
  spinlockQueueEntry :: nat
  cmdline :: "u8 list"
  execname :: "u8 list option"
  sigBlockList :: u64
  sigPendingList :: u64
  infoFs :: nat
  infoPd :: nat
  infoFiles :: nat
  infoSignals :: nat
  fpuenv :: "u64 list"
  mxcsr :: u32
  noInformParent :: bool
  LOCK_CHILD_TERM :: Spinlock
  dsChildTerminated :: "KilledInfo list"
  childrenTerminatedAmnt :: int
  tidptr :: u64
  extras :: u64
  parent :: tptr

text \<open>\<^verbatim>\<open>memset(target, 0, sizeof(Task))\<close>. The 512 bytes of FPU state are 64 words.\<close>

definition zero_task :: Task where
  "zero_task = \<lparr>tid = 0, pgid = 0, tgid = 0, sid = 0, kernel_task = False, state = TASK_STATE_DEAD,
     waitingForPid = 0, registers = zero_regs, whileTssRsp = 0, whileSyscallRsp = 0, pagedirOverride = 0,
     systemCallInProgress = False, syscallRegs = None, syscallRsp = 0, dsSysIntr = [], fsbase = 0, gsbase = 0,
     forcefulWakeupTimeUnsafe = 0, tmpRecV = 0, ctrlPty = 0, spinlockQueueEntry = 0, cmdline = [],
     execname = None, sigBlockList = 0, sigPendingList = 0, infoFs = 0, infoPd = 0, infoFiles = 0,
     infoSignals = 0, fpuenv = replicate 64 0, mxcsr = 0, noInformParent = False, LOCK_CHILD_TERM = False,
     dsChildTerminated = [], childrenTerminatedAmnt = 0, tidptr = 0, extras = 0, parent = 0\<rparr>"

record task_world =
  tasks :: "(tptr \<times> Task) list"
  currentTask :: tptr
  dummyTask :: tptr
  TASK_LL_MODIFY :: SpinlockCnt
  taskIdCurr :: u64

definition task_at :: "task_world \<Rightarrow> tptr \<Rightarrow> Task outcome" where
  "task_at w p = (case map_of (tasks w) p of Some t \<Rightarrow> Ok t | None \<Rightarrow> Fault)"

definition upd_task :: "tptr \<Rightarrow> (Task \<Rightarrow> Task) \<Rightarrow> task_world \<Rightarrow> task_world" where
  "upd_task p f w = w\<lparr>tasks := map (\<lambda>(q, t). if q = p then (q, f t) else (q, t)) (tasks w)\<rparr>"

abbreviation firstTask :: "task_world \<Rightarrow> tptr" where
  "firstTask w \<equiv> (case tasks w of [] \<Rightarrow> 0 | (p, t) # ts \<Rightarrow> p)"

text \<open>A section under the task list lock that does not otherwise touch the lock.\<close>

definition with_read :: "task_world \<Rightarrow> (task_world \<Rightarrow> 'a \<times> task_world) \<Rightarrow> ('a \<times> task_world) outcome" where
  "with_read w f =
     obind (spinlockCntReadAcquire (TASK_LL_MODIFY w)) (\<lambda>l.
       case f (w\<lparr>TASK_LL_MODIFY := l\<rparr>) of (x, w1) \<Rightarrow>
       obind (spinlockCntReadRelease (TASK_LL_MODIFY w1)) (\<lambda>l'.
         Ok (x, w1\<lparr>TASK_LL_MODIFY := l'\<rparr>)))"

definition with_write :: "task_world \<Rightarrow> (task_world \<Rightarrow> ('a \<times> task_world) outcome) \<Rightarrow> ('a \<times> task_world) outcome" where
  "with_write w f =
     obind (spinlockCntWriteAcquire (TASK_LL_MODIFY w)) (\<lambda>l.
     obind (f (w\<lparr>TASK_LL_MODIFY := l\<rparr>)) (\<lambda>(x, w1).
     obind (spinlockCntWriteRelease (TASK_LL_MODIFY w1)) (\<lambda>l'.
       Ok (x, w1\<lparr>TASK_LL_MODIFY := l'\<rparr>))))"

section \<open>The task list\<close>

text \<open>\<open>target\<close> is the pointer \<^verbatim>\<open>malloc\<close> returns.\<close>

definition taskListAllocate :: "tptr \<Rightarrow> task_world \<Rightarrow> (tptr \<times> task_world) outcome" where
  "taskListAllocate target w =
     with_write w (\<lambda>w1. cassert (tasks w1 \<noteq> []) (Ok (target, w1\<lparr>tasks := tasks w1 @ [(target, zero_task)]\<rparr>)))"

text \<open>The search for the predecessor starts at the first task, so that one is never removed.\<close>

fun unlink :: "tptr \<Rightarrow> (tptr \<times> Task) list \<Rightarrow> (tptr \<times> Task) list option" where
  "unlink target (a # b # ts) =
     (if fst b = target then Some (a # ts) else map_option (\<lambda>r. a # r) (unlink target (b # ts)))"
| "unlink target _ = None"

definition taskListDestroy :: "tptr \<Rightarrow> task_world \<Rightarrow> task_world outcome" where
  "taskListDestroy target w =
     obind (with_write w (\<lambda>w1. case unlink target (tasks w1) of
         None \<Rightarrow> Panic
       | Some ts \<Rightarrow> Ok ((), w1\<lparr>tasks := ts\<rparr>))) (\<lambda>(_, w2). Ok w2)"

definition find_task :: "(Task \<Rightarrow> bool) \<Rightarrow> task_world \<Rightarrow> tptr" where
  "find_task P w = (case filter (\<lambda>(p, t). P t) (tasks w) of [] \<Rightarrow> 0 | (p, t) # _ \<Rightarrow> p)"

text \<open>\<open>0\<close> is the null pointer. The 32-bit argument is compared with the 64-bit id.\<close>

definition taskGet :: "u32 \<Rightarrow> task_world \<Rightarrow> (tptr \<times> task_world) outcome" where
  "taskGet i w = with_read w (\<lambda>w1. (find_task (\<lambda>t. tid t = ucast i) w1, w1))"

definition taskGenerateId :: "task_world \<Rightarrow> u64 \<times> task_world" where
  "taskGenerateId w = (taskIdCurr w, w\<lparr>taskIdCurr := taskIdCurr w + 1\<rparr>)"

definition taskCreateFinish :: "tptr \<Rightarrow> task_world \<Rightarrow> task_world" where
  "taskCreateFinish p = upd_task p (\<lambda>t. t\<lparr>state := TASK_STATE_READY\<rparr>)"

definition taskFreeChildren :: "tptr \<Rightarrow> task_world \<Rightarrow> task_world outcome" where
  "taskFreeChildren p w =
     obind (task_at w p) (\<lambda>task.
       if noInformParent task then Ok w
       else obind (with_read w (\<lambda>w1. ((), w1\<lparr>tasks := map (\<lambda>(q, t).
              if parent t = p \<and> state t \<noteq> TASK_STATE_DEAD then (q, t\<lparr>parent := dummyTask w1\<rparr>)
              else (q, t)) (tasks w1)\<rparr>))) (\<lambda>(_, w2). Ok w2))"

text \<open>Index 0 of the queue entry field means that no lock is to be released.\<close>

definition taskSpinlockExit :: "tptr \<Rightarrow> nat \<Rightarrow> task_world \<Rightarrow> task_world outcome" where
  "taskSpinlockExit p lock w =
     obind (task_at w p) (\<lambda>t. cassert (spinlockQueueEntry t = 0)
       (Ok (upd_task p (\<lambda>t. t\<lparr>spinlockQueueEntry := lock\<rparr>) w)))"

end
