(* ===== verification/Signals.thy ===== *)
theory Signals
  imports Task
begin

unbundle bit_operations_syntax

text \<open>
  Signals, after \<^verbatim>\<open>syscalls/signals.c\<close> and \<^verbatim>\<open>syscalls/linux/syscalls_sig.c\<close>: the default decisions,
  the choice of a pending signal, the frame pushed on the user stack when a handler is entered (from
  a system call and from the scheduler), the return from a handler, and the system calls that set
  handlers and masks and send signals. User memory is reached through the page tables; the frame is
  a run of 64-bit words in one page. The instruction \<^verbatim>\<open>1 << i\<close> on an \<^verbatim>\<open>int\<close> is taken as the
  processor executes it, with the shift count modulo 32 and the result sign-extended when it is
  combined with a 64-bit set.
\<close>

section \<open>Default decisions\<close>

datatype SignalInternal = SIGNAL_INTERNAL_CORE | SIGNAL_INTERNAL_TERM | SIGNAL_INTERNAL_IGN
  | SIGNAL_INTERNAL_STOP | SIGNAL_INTERNAL_CONT

definition SIG_DFL :: u64 where "SIG_DFL = 0"
definition SIG_IGN :: u64 where "SIG_IGN = 1"
definition SA_RESTORER :: u64 where "SA_RESTORER = 0x04000000"
definition SA_RESTART :: u64 where "SA_RESTART = 0x10000000"

text \<open>The assignments of \<^verbatim>\<open>initiateSignalDefs\<close> in order, signal numbers as in \<^verbatim>\<open>linux.h\<close>.\<close>

definition signal_defs :: "(nat \<times> SignalInternal) list" where
  "signal_defs =
    [(6, SIGNAL_INTERNAL_CORE), (14, SIGNAL_INTERNAL_TERM), (7, SIGNAL_INTERNAL_CORE),
     (17, SIGNAL_INTERNAL_IGN), (18, SIGNAL_INTERNAL_CONT), (8, SIGNAL_INTERNAL_CORE),
     (1, SIGNAL_INTERNAL_TERM), (4, SIGNAL_INTERNAL_CORE), (2, SIGNAL_INTERNAL_TERM),
     (29, SIGNAL_INTERNAL_TERM), (6, SIGNAL_INTERNAL_CORE), (9, SIGNAL_INTERNAL_TERM),
     (13, SIGNAL_INTERNAL_TERM), (29, SIGNAL_INTERNAL_TERM), (27, SIGNAL_INTERNAL_TERM),
     (30, SIGNAL_INTERNAL_TERM), (3, SIGNAL_INTERNAL_CORE), (11, SIGNAL_INTERNAL_CORE),
     (16, SIGNAL_INTERNAL_TERM), (19, SIGNAL_INTERNAL_STOP), (20, SIGNAL_INTERNAL_STOP),
     (31, SIGNAL_INTERNAL_CORE), (15, SIGNAL_INTERNAL_TERM), (5, SIGNAL_INTERNAL_CORE),
     (21, SIGNAL_INTERNAL_STOP), (22, SIGNAL_INTERNAL_STOP), (31, SIGNAL_INTERNAL_CORE),
     (23, SIGNAL_INTERNAL_IGN), (10, SIGNAL_INTERNAL_TERM), (12, SIGNAL_INTERNAL_TERM),
     (26, SIGNAL_INTERNAL_TERM), (24, SIGNAL_INTERNAL_CORE), (25, SIGNAL_INTERNAL_CORE),
     (28, SIGNAL_INTERNAL_IGN)]"

definition initiateSignalDefs :: "SignalInternal list \<Rightarrow> SignalInternal list" where
  "initiateSignalDefs table = fold (\<lambda>(i, d) xs. xs[i := d]) signal_defs table"

definition signalInternalDecisions :: "SignalInternal list" where
  "signalInternalDecisions = initiateSignalDefs (replicate NSIG SIGNAL_INTERNAL_CORE)"

section \<open>Pending signals\<close>

text \<open>One pass of the loop of \<^verbatim>\<open>signalsPendingQuick\<close>: the signal would interrupt the task.\<close>

definition interrupts :: "TaskInfoSignal \<Rightarrow> u64 \<Rightarrow> nat \<Rightarrow> bool" where
  "interrupts info unblocked i \<longleftrightarrow>
     bit unblocked i \<and>
     (let userHandler = sa_handler (signals info ! i) in
      userHandler \<noteq> SIG_IGN \<and>
      \<not> (userHandler = SIG_DFL \<and> signalInternalDecisions ! i = SIGNAL_INTERNAL_IGN))"

definition signalsPendingQuick :: "Task \<Rightarrow> TaskInfoSignal \<Rightarrow> bool" where
  "signalsPendingQuick task info =
     (if kernel_task task then False
      else let unblocked = sigPendingList task AND NOT (sigBlockList task)
           in list_ex (interrupts info unblocked) [0..<NSIG])"

definition signalsRevivableState :: "TASK_STATE \<Rightarrow> bool" where
  "signalsRevivableState st \<longleftrightarrow> st = TASK_STATE_WAITING_CHILD \<or> st = TASK_STATE_WAITING_CHILD_SPECIFIC \<or>
     st = TASK_STATE_FUTEX \<or> st = TASK_STATE_BLOCKED"

definition shl_int :: "nat \<Rightarrow> u64" where
  "shl_int i = scast (push_bit (i mod 32) (1 :: 32 word))"

text \<open>\<open>None\<close> is the result \<open>-1\<close>.\<close>

definition signalsPendingDecide :: "Task \<Rightarrow> nat option" where
  "signalsPendingDecide task =
     List.find (\<lambda>i. sigPendingList task AND shl_int i \<noteq> 0 \<and> sigBlockList task AND shl_int i = 0) [0..<NSIG]"

section \<open>Saved register contexts\<close>

record sigcontext =
  uc_r8 :: u64
  uc_r9 :: u64
  uc_r10 :: u64
  uc_r11 :: u64
  uc_r12 :: u64
  uc_r13 :: u64
  uc_r14 :: u64
  uc_r15 :: u64
  uc_rdi :: u64
  uc_rsi :: u64
  uc_rbp :: u64
  uc_rbx :: u64
  uc_rdx :: u64
  uc_rax :: u64
  uc_rcx :: u64
  uc_rsp :: u64
  uc_rip :: u64
  uc_eflags :: u64
  uc_cs :: u16
  uc_gs :: u16
  uc_fs :: u16
  uc_ss :: u16
  uc_err :: u64
  uc_trapno :: u64
  uc_oldmask :: u64
  uc_cr2 :: u64
  uc_fpstate :: u64
  uc_reserved1 :: "u64 list"

text \<open>\<open>gs\<close> and \<open>fs\<close> are not written; they keep what the memory below the frame held.\<close>

definition signalsAsmPassedToUcontext :: "u16 \<Rightarrow> u16 \<Rightarrow> AsmPassedInterrupt \<Rightarrow> sigcontext" where
  "signalsAsmPassedToUcontext old_gs old_fs passed =
     \<lparr>uc_r8 = r8 passed, uc_r9 = r9 passed, uc_r10 = r10 passed, uc_r11 = r11 passed, uc_r12 = r12 passed,
      uc_r13 = r13 passed, uc_r14 = r14 passed, uc_r15 = r15 passed, uc_rdi = rdi passed, uc_rsi = rsi passed,
      uc_rbp = rbp passed, uc_rbx = rbx passed, uc_rdx = rdx passed, uc_rax = rax passed, uc_rcx = rcx passed,
      uc_rsp = usermode_rsp passed, uc_rip = rip passed, uc_eflags = rflags passed, uc_cs = ucast (cs passed),
      uc_gs = old_gs, uc_fs = old_fs, uc_ss = ucast (usermode_ss passed), uc_err = 0, uc_trapno = 0,
      uc_oldmask = 0, uc_cr2 = 0, uc_fpstate = 0, uc_reserved1 = replicate 8 0\<rparr>"

definition signalsUcontextToAsmPassed :: "sigcontext \<Rightarrow> AsmPassedInterrupt \<Rightarrow> AsmPassedInterrupt" where
  "signalsUcontextToAsmPassed uc passed = passed
     \<lparr>r8 := uc_r8 uc, r9 := uc_r9 uc, r10 := uc_r10 uc, r11 := uc_r11 uc, r12 := uc_r12 uc, r13 := uc_r13 uc,
      r14 := uc_r14 uc, r15 := uc_r15 uc, rdi := uc_rdi uc, rsi := uc_rsi uc, rbp := uc_rbp uc, rbx := uc_rbx uc,
      rdx := uc_rdx uc, rax := uc_rax uc, rcx := uc_rcx uc, usermode_rsp := uc_rsp uc, rip := uc_rip uc,
      rflags := uc_eflags uc, cs := ucast (uc_cs uc), usermode_ss := ucast (uc_ss uc), error := uc_err uc,
      interrupt := uc_trapno uc\<rparr>"

text \<open>The memory layout of the structure: 32 words, the four 16-bit selectors packed in one.\<close>

definition pack_selectors :: "u16 \<Rightarrow> u16 \<Rightarrow> u16 \<Rightarrow> u16 \<Rightarrow> u64" where
  "pack_selectors a b c d =
     ucast a OR push_bit 16 (ucast b) OR push_bit 32 (ucast c) OR push_bit 48 (ucast d)"

definition sigcontext_words :: "sigcontext \<Rightarrow> u64 list" where
  "sigcontext_words uc =
     [uc_r8 uc, uc_r9 uc, uc_r10 uc, uc_r11 uc, uc_r12 uc, uc_r13 uc, uc_r14 uc, uc_r15 uc, uc_rdi uc,
      uc_rsi uc, uc_rbp uc, uc_rbx uc, uc_rdx uc, uc_rax uc, uc_rcx uc, uc_rsp uc, uc_rip uc, uc_eflags uc,
      pack_selectors (uc_cs uc) (uc_gs uc) (uc_fs uc) (uc_ss uc),
      uc_err uc, uc_trapno uc, uc_oldmask uc, uc_cr2 uc, uc_fpstate uc] @ uc_reserved1 uc"

definition sigcontext_read :: "u64 list \<Rightarrow> sigcontext" where
  "sigcontext_read ws =
     \<lparr>uc_r8 = ws ! 0, uc_r9 = ws ! 1, uc_r10 = ws ! 2, uc_r11 = ws ! 3, uc_r12 = ws ! 4, uc_r13 = ws ! 5,
      uc_r14 = ws ! 6, uc_r15 = ws ! 7, uc_rdi = ws ! 8, uc_rsi = ws ! 9, uc_rbp = ws ! 10, uc_rbx = ws ! 11,
      uc_rdx = ws ! 12, uc_rax = ws ! 13, uc_rcx = ws ! 14, uc_rsp = ws ! 15, uc_rip = ws ! 16,
      uc_eflags = ws ! 17, uc_cs = ucast (ws ! 18), uc_gs = ucast (drop_bit 16 (ws ! 18)),
      uc_fs = ucast (drop_bit 32 (ws ! 18)), uc_ss = ucast (drop_bit 48 (ws ! 18)), uc_err = ws ! 19,
      uc_trapno = ws ! 20, uc_oldmask = ws ! 21, uc_cr2 = ws ! 22, uc_fpstate = ws ! 23,
      uc_reserved1 = drop 24 ws\<rparr>"

section \<open>User memory\<close>

text \<open>The word at a virtual address; one that is not a multiple of 8 is put together from two.\<close>

definition word_at :: "bootinfo \<Rightarrow> paging \<Rightarrow> u64 \<Rightarrow> u64 \<Rightarrow> u64 outcome" where
  "word_at b s pd va =
     (let pa = VirtualToPhysicalL b s pd va in
      if pa = 0 then Fault else Ok (mem s (P_PHYS_ADDR pa) (unat (pa AND 0xFFF) div 8)))"

definition rd64 :: "bootinfo \<Rightarrow> paging \<Rightarrow> u64 \<Rightarrow> u64 \<Rightarrow> u64 outcome" where
  "rd64 b s pd va =
     (let o8 = unat (va AND 7) in
      if o8 = 0 then word_at b s pd va
      else obind (word_at b s pd va) (\<lambda>lo. obind (word_at b s pd (va + 8)) (\<lambda>hi.
             Ok (drop_bit (8 * o8) lo OR push_bit (64 - 8 * o8) hi))))"

fun rd_words :: "bootinfo \<Rightarrow> paging \<Rightarrow> u64 \<Rightarrow> u64 \<Rightarrow> nat \<Rightarrow> u64 list outcome" where
  "rd_words b s pd va 0 = Ok []"
| "rd_words b s pd va (Suc n) =
     obind (rd64 b s pd va) (\<lambda>w. obind (rd_words b s pd (va + 8) n) (\<lambda>ws. Ok (w # ws)))"

text \<open>Words \<open>i, i + 1, \<dots>\<close> of a frame replaced.\<close>

definition put_words :: "u64 \<Rightarrow> nat \<Rightarrow> u64 list \<Rightarrow> paging \<Rightarrow> paging" where
  "put_words f i ws s = s\<lparr>mem := (mem s)(f := (\<lambda>k. if i \<le> k \<and> k < i + length ws then ws ! (k - i) else mem s f k))\<rparr>"

section \<open>Entering a handler\<close>

text \<open>
  The frame below \<open>page\<close> bytes \<open>PAGE_SIZE\<close>: FPU state, register context and return address.
  \<open>phys\<close> is the frame of the page at virtual address \<open>virt\<close>.
\<close>

definition push_frame :: "u64 \<Rightarrow> u64 \<Rightarrow> Task \<Rightarrow> AsmPassedInterrupt \<Rightarrow> u64 \<Rightarrow> nat \<Rightarrow> u64 \<Rightarrow> paging \<Rightarrow> paging" where
  "push_frame phys virt task old oldMask signal restorer s =
     (let below = mem s phys 434;
          uc = (signalsAsmPassedToUcontext (ucast (drop_bit 16 below)) (ucast (drop_bit 32 below)) old)
                 \<lparr>uc_oldmask := oldMask, uc_fpstate := virt + 3584,
                  uc_reserved1 := (replicate 8 0)[0 := of_nat signal]\<rparr>
      in put_words phys 415 (restorer # sigcontext_words uc @ fpuenv task) s)"

text \<open>What the entry to the kernel can find when a signal is due.\<close>

datatype sig_action = Ignored | Kill | Handle u64

text \<open>The decision both entry points make; the unfinished cases of the switch stop the machine.\<close>

definition sig_decide :: "TaskInfoSignal \<Rightarrow> nat \<Rightarrow> sig_action outcome" where
  "sig_decide info signal =
     (let handler = sa_handler (signals info ! signal) in
      if handler = SIG_DFL then
        (case signalInternalDecisions ! signal of
           SIGNAL_INTERNAL_CORE \<Rightarrow> Ok Kill
         | SIGNAL_INTERNAL_TERM \<Rightarrow> Ok Kill
         | SIGNAL_INTERNAL_IGN \<Rightarrow> Ok Ignored
         | SIGNAL_INTERNAL_STOP \<Rightarrow> Panic
         | SIGNAL_INTERNAL_CONT \<Rightarrow> Panic)
      else if handler = SIG_IGN then Ok Ignored
      else Ok (Handle handler))"

definition block_for :: "TaskInfoSignal \<Rightarrow> nat \<Rightarrow> Task \<Rightarrow> Task" where
  "block_for info signal task = task
     \<lparr>sigBlockList := sigBlockList task OR (shl_int signal OR sa_mask (signals info ! signal)),
      sigPendingList := atomicBitmapClear (sigPendingList task) (of_nat signal)\<rparr>"

text \<open>
  \<^verbatim>\<open>signalsPendingHandleSys\<close>: the result is the exit code of a task that is killed, or the task, the
  user stack pointer and the registers to return with. \<open>fpu\<close> and \<open>csr\<close> are what the processor
  stores for \<^verbatim>\<open>fxsave\<close> and \<^verbatim>\<open>stmxcsr\<close>.
\<close>

definition signalsPendingHandleSys :: "bootinfo \<Rightarrow> u64 \<Rightarrow> u64 list \<Rightarrow> u32 \<Rightarrow> TaskInfoSignal \<Rightarrow> Task \<Rightarrow> u64 \<Rightarrow>
    AsmPassedInterrupt \<Rightarrow> paging \<Rightarrow> (nat + Task \<times> u64 \<times> AsmPassedInterrupt \<times> paging) outcome" where
  "signalsPendingHandleSys b pd fpu csr info task rsp regs s =
     (case signalsPendingDecide task of
        None \<Rightarrow> Ok (Inr (task, rsp, regs, s))
      | Some signal \<Rightarrow>
          obind (sig_decide info signal) (\<lambda>act.
            case act of
              Kill \<Rightarrow> Ok (Inl (128 + signal))
            | Ignored \<Rightarrow> Ok (Inr (task\<lparr>sigPendingList :=
                atomicBitmapClear (sigPendingList task) (of_nat signal)\<rparr>, rsp, regs, s))
            | Handle handler \<Rightarrow>
                (let oldMask = sigBlockList task;
                     t1 = (block_for info signal task)\<lparr>fpuenv := fpu, mxcsr := csr\<rparr>;
                     old = regs\<lparr>cs := GDT_USER_CODE OR DPL_USER, ds := GDT_USER_DATA OR DPL_USER,
                                rflags := r11 regs, rip := rcx regs, usermode_rsp := rsp,
                                usermode_ss := GDT_USER_DATA OR DPL_USER\<rparr>;
                     top = (rsp - 128 - PAGE_SIZE) div PAGE_SIZE * PAGE_SIZE;
                     virt = top - PAGE_SIZE;
                     phys = VirtualToPhysicalL b s pd virt in
                 if phys = 0 then Fault
                 else Ok (Inr (t1, virt + 3320, regs\<lparr>rcx := handler, rdi := of_nat signal\<rparr>,
                   push_frame phys virt t1 old oldMask signal (sa_restorer (signals info ! signal)) s)))))"

definition signalsPendingHandleSched :: "bootinfo \<Rightarrow> u64 \<Rightarrow> u64 \<Rightarrow> u64 \<Rightarrow> TaskInfoSignal \<Rightarrow> Task \<Rightarrow> paging \<Rightarrow>
    (Task \<times> paging) outcome" where
  "signalsPendingHandleSched b pd fmask syscall_entry info task s =
     (case signalsPendingDecide task of
        None \<Rightarrow> Ok (task, s)
      | Some signal \<Rightarrow>
          obind (sig_decide info signal) (\<lambda>act.
            case act of
              Kill \<Rightarrow>
                (let r = registers task in
                 Ok (task\<lparr>registers := r\<lparr>rax := 60, rdi := of_nat (128 + signal), r11 := rflags r,
                             rcx := rip r, rflags := rflags r AND NOT fmask, cs := GDT_KERNEL_CODE,
                             ds := GDT_KERNEL_DATA, usermode_ss := GDT_KERNEL_DATA, rip := syscall_entry\<rparr>,
                           sigPendingList := atomicBitmapClear (sigPendingList task) (of_nat signal)\<rparr>, s))
            | Ignored \<Rightarrow> Ok (task\<lparr>sigPendingList :=
                atomicBitmapClear (sigPendingList task) (of_nat signal)\<rparr>, s)
            | Handle handler \<Rightarrow>
                (let oldMask = sigBlockList task;
                     old = registers task;
                     t1 = block_for info signal task;
                     virt = (usermode_rsp old - 128 - PAGE_SIZE) div PAGE_SIZE * PAGE_SIZE;
                     phys = VirtualToPhysicalL b s pd virt in
                 cassert (phys \<noteq> 0)
                   (Ok (t1\<lparr>registers := old\<lparr>usermode_rsp := virt + 3320, rip := handler,
                                             rdi := of_nat signal\<rparr>\<rparr>,
                        push_frame phys virt task old oldMask signal
                          (sa_restorer (signals info ! signal)) s)))))"

section \<open>Returning from a handler\<close>

definition restartable :: "32 word \<Rightarrow> bool" where
  "restartable number \<longleftrightarrow> number \<in> {0, 1, 20, 19, 2, 3, 16, 61, 247, 202}"

text \<open>The mask that keeps the two signals that cannot be blocked out of a set.\<close>

definition unblockable :: u64 where
  "unblockable = shl_int (unat SIGKILL) OR shl_int (unat SIGSTOP)"

text \<open>The result is the task with the registers it continues with. The context and the FPU state
  are read at addresses the user program supplies.\<close>

definition signalsSigreturnSyscall :: "bootinfo \<Rightarrow> u64 \<Rightarrow> u64 \<Rightarrow> u64 \<Rightarrow> TaskInfoSignal \<Rightarrow> Task \<Rightarrow> paging \<Rightarrow>
    Task outcome" where
  "signalsSigreturnSyscall b pd fmask syscall_entry info task s =
     obind (rd_words b s pd (syscallRsp task) 32) (\<lambda>ws.
       let uc = sigcontext_read ws;
           signal = uc_reserved1 uc ! 0 in
       obind (aget (signals info) (unat (scast (ucast signal :: 32 word) :: u64))) (\<lambda>action.
         let regs = signalsUcontextToAsmPassed uc zero_regs;
             (intr, regs1) =
               (if sa_flags action AND SA_RESTART \<noteq> 0 \<and> rax regs = ERR EINTR \<and> dsSysIntr task \<noteq> []
                then let number = (ucast (hd (dsSysIntr task)) :: 32 word) in
                  (tl (dsSysIntr task),
                   if restartable number
                   then regs\<lparr>rax := scast number, r11 := rflags regs, rcx := rip regs,
                             rflags := rflags regs AND NOT fmask, cs := GDT_KERNEL_CODE,
                             ds := GDT_KERNEL_DATA, usermode_ss := GDT_KERNEL_DATA, rip := syscall_entry\<rparr>
                   else regs)
                else (dsSysIntr task, regs)) in
         obind (rd_words b s pd (uc_fpstate uc) 64) (\<lambda>fp.
           Ok (task\<lparr>registers := regs1, dsSysIntr := intr, fpuenv := fp, mxcsr := ucast (fp ! 3),
                    systemCallInProgress := False, syscallRegs := None, syscallRsp := 0,
                    sigBlockList := uc_oldmask uc AND NOT unblockable\<rparr>))))"

section \<open>System calls\<close>

definition sigactionSupportedFlags :: u64 where "sigactionSupportedFlags = SA_RESTORER OR SA_RESTART"

text \<open>The previous action is returned where \<^verbatim>\<open>oact\<close> asks for it.\<close>

definition syscallRtSigaction :: "32 word \<Rightarrow> sigaction option \<Rightarrow> bool \<Rightarrow> u64 \<Rightarrow> TaskInfoSignal \<Rightarrow>
    (u64 \<times> sigaction option \<times> TaskInfoSignal) outcome" where
  "syscallRtSigaction sig act oact sigsetsize info =
     (if sint sig < 0 \<or> sint sig > int NSIG then Ok (ERR EINVAL, None, info)
      else if sigsetsize < 8 then Ok (ERR EINVAL, None, info)
      else
       obind (if oact then obind (spinlockAcquire (LOCK_SIGNAL info)) (\<lambda>_.
                obind (aget (signals info) (unat sig)) (\<lambda>a. Ok (Some a))) else Ok None) (\<lambda>out.
       case act of
         None \<Rightarrow> Ok (0, out, info)
       | Some a \<Rightarrow>
           if sig = SIGKILL \<or> sig = SIGSTOP then Ok (ERR EINVAL, out, info)
           else if sa_flags a AND NOT sigactionSupportedFlags \<noteq> 0 then Ok (ERR ENOSYS, out, info)
           else if sa_flags a AND SA_RESTORER = 0 then Ok (ERR ENOSYS, out, info)
           else obind (spinlockAcquire (LOCK_SIGNAL info)) (\<lambda>l.
                obind (aset (signals info) (unat sig) (a\<lparr>sa_mask := sa_mask a AND NOT unblockable\<rparr>)) (\<lambda>sigs.
                  Ok (0, out, info\<lparr>signals := sigs, LOCK_SIGNAL := spinlockRelease l\<rparr>)))))"

definition syscallRtSigprocmask :: "32 word \<Rightarrow> u64 option \<Rightarrow> Task \<Rightarrow> u64 \<times> u64 \<times> Task" where
  "syscallRtSigprocmask how nset task =
     (let oset = sigBlockList task in
      case nset of
        None \<Rightarrow> (0, oset, task)
      | Some n \<Rightarrow>
          let safe = n AND NOT unblockable in
          if how = 0 then (0, oset, task\<lparr>sigBlockList := sigBlockList task OR safe\<rparr>)
          else if how = 1 then (0, oset, task\<lparr>sigBlockList := sigBlockList task AND NOT safe\<rparr>)
          else if how = 2 then (0, oset, task\<lparr>sigBlockList := safe\<rparr>)
          else (ERR EINVAL, oset, task))"

end
