(* ===== verification/Schedule.thy ===== *)
theory Schedule
  imports Signals
begin

unbundle bit_operations_syntax

text \<open>
  The clock-driven scheduler of \<^verbatim>\<open>multitasking/schedule.c\<close>: the round-robin search for a task that
  can run, the tasks it wakes on the way, and the switch itself with its order of updates.
\<close>

section \<open>State\<close>

record sched_world =
  tw :: task_world
  tasksInitiated :: bool
  timerTicks :: u64
  sigs :: "nat \<Rightarrow> TaskInfoSignal"
  pds :: "nat \<Rightarrow> TaskInfoPagedir"
  pg :: paging
  released :: "nat list"
  tss_rsp0 :: u64
  syscall_stack :: u64
  msr_fsbase :: u64
  msr_gsbase :: u64
  cpu_fpu :: "u64 list"
  cpu_mxcsr :: u32

section \<open>The search\<close>

text \<open>What the loop does at one task: it can run as it is, it is woken by a signal or by the clock, or
  it is passed over (\<open>None\<close>).\<close>

definition sched_wake :: "u64 \<Rightarrow> TaskInfoSignal \<Rightarrow> Task \<Rightarrow> Task option outcome" where
  "sched_wake ticks info t =
     (if state t = TASK_STATE_READY then Ok (Some t)
      else if signalsRevivableState (state t) \<and> signalsPendingQuick t info then
        cassert (cs (registers t) AND GDT_KERNEL_CODE \<noteq> 0)
          (Ok (Some (t\<lparr>extras := extras t OR EXTRAS_INVOLUTARY_WAKEUP, forcefulWakeupTimeUnsafe := 0,
                       state := TASK_STATE_READY\<rparr>)))
      else if forcefulWakeupTimeUnsafe t \<noteq> 0 \<and> forcefulWakeupTimeUnsafe t \<le> ticks then
        Ok (Some (t\<lparr>state := TASK_STATE_READY, extras := extras t OR EXTRAS_INVOLUTARY_WAKEUP,
                    forcefulWakeupTimeUnsafe := 0\<rparr>))
      else Ok None)"

text \<open>The loop from position \<open>i\<close> of the chain; \<open>fullRun\<close> counts the times its end was reached.\<close>

function sched_loop :: "u64 \<Rightarrow> (nat \<Rightarrow> TaskInfoSignal) \<Rightarrow> (tptr \<times> Task) list \<Rightarrow> nat \<Rightarrow> nat \<Rightarrow>
    (nat \<times> Task) option outcome" where
  "sched_loop ticks sg ts fullRun i =
     (if i < length ts then
        obind (sched_wake ticks (sg (infoSignals (snd (ts ! i)))) (snd (ts ! i))) (\<lambda>r.
          case r of
            Some t \<Rightarrow> Ok (Some (i, t))
          | None \<Rightarrow>
              if Suc i < length ts then sched_loop ticks sg ts fullRun (Suc i)
              else if fullRun + 1 > 2 then Ok None
              else sched_loop ticks sg ts (fullRun + 1) 0)
      else Ok None)"
  by pat_completeness auto
termination
  by (relation "measures [\<lambda>(ticks, sg, ts, fullRun, i). 3 - fullRun, \<lambda>(ticks, sg, ts, fullRun, i). length ts - i]")
     auto

declare sched_loop.simps [simp del]

fun position :: "tptr \<Rightarrow> (tptr \<times> Task) list \<Rightarrow> nat" where
  "position p [] = 0"
| "position p ((q, t) # ts) = (if p = q then 0 else Suc (position p ts))"

definition start_position :: "task_world \<Rightarrow> nat" where
  "start_position w =
     (let i = Suc (position (currentTask w) (tasks w)) in if i < length (tasks w) then i else 0)"

section \<open>Interval timers\<close>

definition fire_itimer :: "u64 \<Rightarrow> TaskInfoSignal \<Rightarrow> Task \<Rightarrow> TaskInfoSignal \<times> Task" where
  "fire_itimer ticks info t =
     (let rtAt = at (itimerReal info); rtReset = reset (itimerReal info) in
      if rtAt \<noteq> 0 \<and> rtAt \<le> ticks
      then (info\<lparr>itimerReal := (itimerReal info)\<lparr>at := (if rtReset = 0 then 0 else ticks + rtReset)\<rparr>\<rparr>,
            t\<lparr>sigPendingList := atomicBitmapSet (sigPendingList t) SIGALRM\<rparr>)
      else (info, t))"

section \<open>The switch\<close>

text \<open>
  \<^verbatim>\<open>schedule\<close> with the interrupted registers \<open>cpu\<close>; the result is the pointer of the task that runs
  next and the registers it resumes with. The first argument bounds the recursion that follows a
  task killed while its signals are handled.
\<close>

fun schedule :: "nat \<Rightarrow> bootinfo \<Rightarrow> u64 \<Rightarrow> u64 \<Rightarrow> AsmPassedInterrupt \<Rightarrow> sched_world \<Rightarrow>
    ((tptr \<times> AsmPassedInterrupt) option \<times> sched_world) outcome" where
  "schedule 0 b fmask syscall_entry cpu w = Spin"
| "schedule (Suc n) b fmask syscall_entry cpu w =
     (if \<not> tasksInitiated w then Ok (None, w)
      else
       obind (sched_loop (timerTicks w) (sigs w) (tasks (tw w)) 0 (start_position (tw w))) (\<lambda>found.
       let old = currentTask (tw w);
           next = (case found of None \<Rightarrow> dummyTask (tw w) | Some (i, t) \<Rightarrow> fst (tasks (tw w) ! i));
           w1 = (case found of None \<Rightarrow> w
                 | Some (i, t) \<Rightarrow> w\<lparr>tw := (tw w)\<lparr>tasks := (tasks (tw w))[i := (next, t)]\<rparr>\<rparr>);
           w2 = w1\<lparr>tw := (tw w1)\<lparr>currentTask := next\<rparr>\<rparr> in
       obind (task_at (tw w2) old) (\<lambda>ot.
       let w3 = (if state ot \<noteq> TASK_STATE_READY \<and> spinlockQueueEntry ot \<noteq> 0
                 then w2\<lparr>released := released w2 @ [spinlockQueueEntry ot],
                         tw := upd_task old (\<lambda>t. t\<lparr>spinlockQueueEntry := 0\<rparr>) (tw w2)\<rparr>
                 else w2) in
       obind (task_at (tw w3) next) (\<lambda>nt.
       let (info1, nt1) = (if kernel_task nt then (sigs w3 (infoSignals nt), nt)
                           else fire_itimer (timerTicks w3) (sigs w3 (infoSignals nt)) nt);
           w4 = w3\<lparr>sigs := (sigs w3)(infoSignals nt := info1), tw := upd_task next (\<lambda>_. nt1) (tw w3)\<rparr> in
       obind (if \<not> kernel_task nt1 \<and> cs (registers nt1) AND GDT_KERNEL_CODE = 0
              then signalsPendingHandleSched b (pagedir (pds w4 (infoPd nt1))) fmask syscall_entry info1 nt1 (pg w4)
              else Ok (nt1, pg w4)) (\<lambda>(nt2, pg').
       let w5 = w4\<lparr>tw := upd_task next (\<lambda>_. nt2) (tw w4), pg := pg'\<rparr> in
       if state nt2 = TASK_STATE_SIGKILLED
       then schedule n b fmask syscall_entry cpu (w5\<lparr>tw := (tw w5)\<lparr>currentTask := old\<rparr>\<rparr>)
       else
        (let w6 = w5\<lparr>tss_rsp0 := whileTssRsp nt2, syscall_stack := whileSyscallRsp nt2,
                     msr_fsbase := fsbase nt2, msr_gsbase := gsbase nt2,
                     tw := upd_task old (\<lambda>t. t\<lparr>registers := cpu\<rparr>) (tw w5)\<rparr>;
             w7 = (if kernel_task ot then w6
                   else w6\<lparr>tw := upd_task old (\<lambda>t. t\<lparr>fpuenv := cpu_fpu w6, mxcsr := cpu_mxcsr w6\<rparr>) (tw w6)\<rparr>) in
         obind (task_at (tw w7) next) (\<lambda>nt3.
         let w8 = (if kernel_task nt3 then w7 else w7\<lparr>cpu_fpu := fpuenv nt3, cpu_mxcsr := mxcsr nt3\<rparr>);
             pd = (if pagedirOverride nt3 \<noteq> 0 then pagedirOverride nt3 else pagedir (pds w8 (infoPd nt3))) in
         obind (ChangePageDirectoryFake b (pg w8) pd) (\<lambda>pg2.
           Ok (Some (next, registers nt3), w8\<lparr>pg := pg2\<rparr>)))))))))"

end
