(* ===== verification/EventFd.thy ===== *)
theory EventFd
  imports Signals
begin

unbundle bit_operations_syntax

text \<open>
  Event counters, after \<^verbatim>\<open>syscalls/eventfd.c\<close>. A descriptor holds a 64-bit counter; a read takes
  its value and resets it, a write adds to it, and both wait while they cannot proceed. What other
  tasks do at each \<^verbatim>\<open>handControl()\<close> is an explicit list of state changes.
\<close>

definition EFD_CLOEXEC :: "32 word" where "EFD_CLOEXEC = 0x80000"
definition EFD_NONBLOCK :: "32 word" where "EFD_NONBLOCK = 0x800"
definition EVENTFD_MAX :: u64 where "EVENTFD_MAX = 0xffffffffffffffff"

record EventFd =
  counter :: u64
  utilizedBy :: int
  LOCK_EVENTFD :: Spinlock

text \<open>The object, whether it has been freed, the poll rings it sent, and the calling task.\<close>

record eventfd_sys =
  ev :: EventFd
  ev_freed :: bool
  ev_rung :: "u32 list"
  me :: Task
  my_signals :: TaskInfoSignal

type_synonym ev_env = "eventfd_sys \<Rightarrow> eventfd_sys"

definition lock_ev :: "eventfd_sys \<Rightarrow> eventfd_sys outcome" where
  "lock_ev s =
     (if ev_freed s then Fault
      else obind (spinlockAcquire (LOCK_EVENTFD (ev s))) (\<lambda>l. Ok (s\<lparr>ev := (ev s)\<lparr>LOCK_EVENTFD := l\<rparr>\<rparr>)))"

abbreviation unlock_ev :: "eventfd_sys \<Rightarrow> eventfd_sys" where
  "unlock_ev s \<equiv> s\<lparr>ev := (ev s)\<lparr>LOCK_EVENTFD := False\<rparr>\<rparr>"

abbreviation ring_ev :: "u32 \<Rightarrow> eventfd_sys \<Rightarrow> eventfd_sys" where
  "ring_ev e s \<equiv> s\<lparr>ev_rung := ev_rung s @ [e]\<rparr>"

text \<open>\<open>eventFdNumber\<close> is what \<^verbatim>\<open>fsUserOpen\<close> returned for \<^verbatim>\<open>/dev/null\<close>; the result has the
  descriptor, its \<^verbatim>\<open>closeOnExec\<close>, the flags set on it and the new object (the allocation succeeds).\<close>

definition eventFdOpen :: "u64 \<Rightarrow> 32 word \<Rightarrow> 32 word \<Rightarrow> Task \<Rightarrow> TaskInfoSignal \<Rightarrow>
    (u64 + u64 \<times> bool \<times> u32 \<times> eventfd_sys) outcome" where
  "eventFdOpen initValue flags eventFdNumber task info =
     (if flags \<noteq> 0 \<and> flags AND NOT (EFD_CLOEXEC OR EFD_NONBLOCK) \<noteq> 0 then Ok (Inl (ERR ENOSYS))
      else cassert (sint eventFdNumber \<ge> 0)
        (Ok (Inr (scast eventFdNumber, flags AND EFD_CLOEXEC \<noteq> 0,
                  if flags AND EFD_NONBLOCK \<noteq> 0 then O_NONBLOCK else 0,
                  \<lparr>ev = \<lparr>counter = initValue, utilizedBy = 1, LOCK_EVENTFD = False\<rparr>, ev_freed = False,
                   ev_rung = [], me = task, my_signals = info\<rparr>))))"

definition eventFdDuplicate :: "eventfd_sys \<Rightarrow> eventfd_sys outcome" where
  "eventFdDuplicate s =
     obind (lock_ev s) (\<lambda>s1. Ok (unlock_ev (s1\<lparr>ev := (ev s1)\<lparr>utilizedBy := utilizedBy (ev s1) + 1\<rparr>\<rparr>)))"

definition eventFdClose :: "eventfd_sys \<Rightarrow> eventfd_sys outcome" where
  "eventFdClose s =
     obind (lock_ev s) (\<lambda>s1.
       let s2 = s1\<lparr>ev := (ev s1)\<lparr>utilizedBy := utilizedBy (ev s1) - 1\<rparr>\<rparr> in
       Ok (if utilizedBy (ev s2) = 0 then s2\<lparr>ev_freed := True\<rparr> else unlock_ev s2))"

text \<open>
  The waiting loop of both directions, left with the lock held when \<open>rdy\<close> holds of the counter.
\<close>

datatype ev_gate = EvEnter eventfd_sys | EvRefuse u64 eventfd_sys | EvBlock eventfd_sys

fun ev_wait :: "(u64 \<Rightarrow> bool) \<Rightarrow> u32 \<Rightarrow> ev_env list \<Rightarrow> eventfd_sys \<Rightarrow> ev_gate outcome" where
  "ev_wait rdy flags envs s =
     obind (lock_ev s) (\<lambda>s1.
       if rdy (counter (ev s1)) then Ok (EvEnter s1)
       else if signalsPendingQuick (me s1) (my_signals s1) then Ok (EvRefuse (ERR EINTR) (unlock_ev s1))
       else if flags AND O_NONBLOCK \<noteq> 0 then Ok (EvRefuse (ERR EAGAIN) (unlock_ev s1))
       else (case envs of
               [] \<Rightarrow> Ok (EvBlock (unlock_ev s1))
             | e # es \<Rightarrow> ev_wait rdy flags es (e (unlock_ev s1))))"

declare ev_wait.simps [simp del]

text \<open>The value stored in the caller's buffer is \<open>None\<close> when nothing is stored.\<close>

definition eventFdRead :: "u32 \<Rightarrow> ev_env list \<Rightarrow> eventfd_sys \<Rightarrow> u64 \<Rightarrow>
    (blocking \<times> u64 option \<times> eventfd_sys) outcome" where
  "eventFdRead flags envs s limit =
     (if limit < 8 then Ok (Ret (ERR EINVAL), None, s)
      else obind (ev_wait (\<lambda>c. c \<noteq> 0) flags envs s) (\<lambda>g.
        case g of
          EvRefuse e s1 \<Rightarrow> Ok (Ret e, None, s1)
        | EvBlock s1 \<Rightarrow> Ok (Wait 0, None, s1)
        | EvEnter s1 \<Rightarrow> Ok (Ret 8, Some (counter (ev s1)),
            ring_ev EPOLLOUT (unlock_ev (s1\<lparr>ev := (ev s1)\<lparr>counter := 0\<rparr>\<rparr>)))))"

text \<open>\<open>toAdd\<close> is the value \<^verbatim>\<open>atomicRead64\<close> takes from the buffer, read before its size is tested.\<close>

definition eventFdWrite :: "u32 \<Rightarrow> ev_env list \<Rightarrow> eventfd_sys \<Rightarrow> u64 \<Rightarrow> u64 \<Rightarrow>
    (blocking \<times> eventfd_sys) outcome" where
  "eventFdWrite flags envs s toAdd limit =
     (if limit < 8 \<or> toAdd = EVENTFD_MAX then Ok (Ret (ERR EINVAL), s)
      else obind (ev_wait (\<lambda>c. \<not> toAdd > EVENTFD_MAX - c) flags envs s) (\<lambda>g.
        case g of
          EvRefuse e s1 \<Rightarrow> Ok (Ret e, s1)
        | EvBlock s1 \<Rightarrow> Ok (Wait 0, s1)
        | EvEnter s1 \<Rightarrow> Ok (Ret 8,
            ring_ev EPOLLIN (unlock_ev (s1\<lparr>ev := (ev s1)\<lparr>counter := counter (ev s1) + toAdd\<rparr>\<rparr>)))))"

definition eventFdInternalPoll :: "eventfd_sys \<Rightarrow> u32 \<Rightarrow> (u32 \<times> eventfd_sys) outcome" where
  "eventFdInternalPoll s events =
     obind (lock_ev s) (\<lambda>s1.
       Ok ((if events AND EPOLLIN \<noteq> 0 \<and> counter (ev s1) > 0 then EPOLLIN else 0) OR
           (if events AND EPOLLOUT \<noteq> 0 \<and> counter (ev s1) < EVENTFD_MAX then EPOLLOUT else 0),
           unlock_ev s1))"

section \<open>Totals\<close>

definition ev_ok :: "eventfd_sys \<Rightarrow> bool" where
  "ev_ok s \<longleftrightarrow> \<not> ev_freed s \<and> \<not> LOCK_EVENTFD (ev s)"

text \<open>The state after the first \<open>k\<close> moves of the other tasks.\<close>

fun ev_after :: "nat \<Rightarrow> ev_env list \<Rightarrow> eventfd_sys \<Rightarrow> eventfd_sys" where
  "ev_after (Suc k) (e # es) s = ev_after k es (e s)"
| "ev_after _ _ s = s"

lemma lock_ev_ok: "ev_ok s \<Longrightarrow> lock_ev s = Ok (s\<lparr>ev := (ev s)\<lparr>LOCK_EVENTFD := True\<rparr>\<rparr>)"
  by (simp add: ev_ok_def lock_ev_def)

lemma unlock_same: "ev_ok s \<Longrightarrow> s\<lparr>ev := (ev s)\<lparr>LOCK_EVENTFD := False\<rparr>\<rparr> = s"
  by (cases s) (simp add: ev_ok_def)

text \<open>The loop stops after some of the environment's moves, with the test true at that moment, or it
  gives up or is still waiting there.\<close>

lemma ev_wait_ends:
  assumes "ev_ok s" "\<forall>e \<in> set envs. \<forall>s. ev_ok s \<longrightarrow> ev_ok (e s)"
  shows "\<exists>k \<le> length envs. let t = ev_after k envs s in ev_ok t \<and>
    (rdy (counter (ev t)) \<and> ev_wait rdy flags envs s = Ok (EvEnter (t\<lparr>ev := (ev t)\<lparr>LOCK_EVENTFD := True\<rparr>\<rparr>)) \<or>
     \<not> rdy (counter (ev t)) \<and> (ev_wait rdy flags envs s = Ok (EvRefuse (ERR EINTR) t) \<or>
        ev_wait rdy flags envs s = Ok (EvRefuse (ERR EAGAIN) t) \<or> ev_wait rdy flags envs s = Ok (EvBlock t)))"
  using assms
proof (induction envs arbitrary: s)
  case Nil
  then show ?case by (subst ev_wait.simps, subst ev_wait.simps, subst ev_wait.simps, subst ev_wait.simps)
      (auto simp: lock_ev_ok unlock_same Let_def)
next
  case (Cons e es)
  show ?case
  proof (cases "rdy (counter (ev s)) \<or> signalsPendingQuick (me s) (my_signals s) \<or> flags AND O_NONBLOCK \<noteq> 0")
    case True
    then show ?thesis using Cons.prems
      by (intro exI [of _ 0]) (auto simp: lock_ev_ok unlock_same Let_def ev_wait.simps [of rdy flags "e # es" s])
  next
    case False
    then have eq: "ev_wait rdy flags (e # es) s = ev_wait rdy flags es (e s)"
      using Cons.prems(1) by (subst ev_wait.simps) (simp add: lock_ev_ok unlock_same)
    from Cons.IH [of "e s"] Cons.prems obtain k where "k \<le> length es" and
      "let t = ev_after k es (e s) in ev_ok t \<and>
        (rdy (counter (ev t)) \<and> ev_wait rdy flags es (e s) = Ok (EvEnter (t\<lparr>ev := (ev t)\<lparr>LOCK_EVENTFD := True\<rparr>\<rparr>)) \<or>
         \<not> rdy (counter (ev t)) \<and> (ev_wait rdy flags es (e s) = Ok (EvRefuse (ERR EINTR) t) \<or>
            ev_wait rdy flags es (e s) = Ok (EvRefuse (ERR EAGAIN) t) \<or> ev_wait rdy flags es (e s) = Ok (EvBlock t)))"
      by auto
    then show ?thesis unfolding eq by (intro exI [of _ "Suc k"]) simp
  qed
qed

section \<open>Properties\<close>

text \<open>C25: the counter never wraps. Whatever the other tasks do while \<^verbatim>\<open>eventFdWrite\<close> waits, it
  returns 8 only at a moment when the sum fits in 64 bits, and then the counter is the exact sum;
  otherwise it leaves the object as the other tasks left it.\<close>

theorem eventFdWrite_no_wrap:
  assumes "ev_ok s" "\<forall>e \<in> set envs. \<forall>s. ev_ok s \<longrightarrow> ev_ok (e s)" "8 \<le> limit" "toAdd \<noteq> EVENTFD_MAX"
  shows "\<exists>k \<le> length envs. \<exists>r s'. eventFdWrite flags envs s toAdd limit = Ok (r, s') \<and> ev_ok s' \<and>
    (if r = Ret 8
     then unat (counter (ev s')) = unat (counter (ev (ev_after k envs s))) + unat toAdd
     else r \<in> {Ret (ERR EINTR), Ret (ERR EAGAIN), Wait 0} \<and> s' = ev_after k envs s)"
proof -
  obtain k where k: "k \<le> length envs" and t: "let t = ev_after k envs s in ev_ok t \<and>
    (\<not> toAdd > EVENTFD_MAX - counter (ev t) \<and> ev_wait (\<lambda>c. \<not> toAdd > EVENTFD_MAX - c) flags envs s =
        Ok (EvEnter (t\<lparr>ev := (ev t)\<lparr>LOCK_EVENTFD := True\<rparr>\<rparr>)) \<or>
     \<not> \<not> toAdd > EVENTFD_MAX - counter (ev t) \<and>
       (ev_wait (\<lambda>c. \<not> toAdd > EVENTFD_MAX - c) flags envs s = Ok (EvRefuse (ERR EINTR) t) \<or>
        ev_wait (\<lambda>c. \<not> toAdd > EVENTFD_MAX - c) flags envs s = Ok (EvRefuse (ERR EAGAIN) t) \<or>
        ev_wait (\<lambda>c. \<not> toAdd > EVENTFD_MAX - c) flags envs s = Ok (EvBlock t)))"
    using ev_wait_ends [OF assms(1,2), of "\<lambda>c. \<not> toAdd > EVENTFD_MAX - c" flags] by blast
  define t where "t = ev_after k envs s"
  have not8: "(8 :: u64) \<noteq> ERR EINTR" "(8 :: u64) \<noteq> ERR EAGAIN" by (simp_all add: ERR_def errno_defs)
  have lim: "\<not> limit < 8" using assms(3) by simp
  have okt: "ev_ok t" using t by (simp add: t_def Let_def)
  have sum: "unat (counter (ev t) + toAdd) = unat (counter (ev t)) + unat toAdd"
    if "\<not> toAdd > EVENTFD_MAX - counter (ev t)"
  proof -
    have max: "EVENTFD_MAX = - 1" by (simp add: EVENTFD_MAX_def)
    have m: "counter (ev t) \<le> EVENTFD_MAX" unfolding max by (rule word_n1_ge)
    have "unat toAdd \<le> unat (EVENTFD_MAX - counter (ev t))" using that by (simp add: word_le_nat_alt not_less)
    then have "unat toAdd \<le> unat EVENTFD_MAX - unat (counter (ev t))" unfolding unat_sub [OF m] .
    then have "unat (counter (ev t)) + unat toAdd < 2 ^ 64"
      using m by (simp add: EVENTFD_MAX_def word_le_nat_alt)
    then show ?thesis by (intro unat_add_no_wrap) simp
  qed
  from t [folded t_def] have "\<exists>r s'. eventFdWrite flags envs s toAdd limit = Ok (r, s') \<and> ev_ok s' \<and>
    (if r = Ret 8 then unat (counter (ev s')) = unat (counter (ev t)) + unat toAdd
     else r \<in> {Ret (ERR EINTR), Ret (ERR EAGAIN), Wait 0} \<and> s' = t)"
    unfolding Let_def using lim assms(4) not8 okt sum
    by (elim conjE disjE) (simp_all add: eventFdWrite_def ev_ok_def)
  then show ?thesis using k unfolding t_def by blast
qed

definition example_ev :: eventfd_sys where
  "example_ev = \<lparr>ev = \<lparr>counter = 0xfffffffffffffffe, utilizedBy = 1, LOCK_EVENTFD = False\<rparr>, ev_freed = False,
     ev_rung = [], me = zero_task, my_signals = taskInfoSignalAllocate\<rparr>"

definition reset_ev :: ev_env where
  "reset_ev s = s\<lparr>ev := (ev s)\<lparr>counter := 0\<rparr>\<rparr>"

theorem eventFdWrite_no_wrap_witness:
  "\<exists>k \<le> length [reset_ev]. \<exists>r s'. eventFdWrite 0 [reset_ev] example_ev 5 8 = Ok (r, s') \<and> ev_ok s' \<and>
    (if r = Ret 8
     then unat (counter (ev s')) = unat (counter (ev (ev_after k [reset_ev] example_ev))) + unat (5 :: u64)
     else r \<in> {Ret (ERR EINTR), Ret (ERR EAGAIN), Wait 0} \<and> s' = ev_after k [reset_ev] example_ev)"
  by (rule eventFdWrite_no_wrap) (simp_all add: example_ev_def ev_ok_def reset_ev_def EVENTFD_MAX_def)

end
