(* ===== verification/Futex.thy ===== *)
theory Futex
  imports Schedule AvlTree Pipe
begin

unbundle bit_operations_syntax

text \<open>
  Futexes, after \<^verbatim>\<open>syscalls/futex.c\<close>. A futex is found by the physical address of its word in an
  AVL tree of pointers; it holds the queue of the tasks asleep on it. The queue entries are objects
  of their own (their address is what the sleeping task holds), since a requeue moves an entry to
  another futex while its owner sleeps. What other tasks do while a task sleeps is an explicit list
  of state changes.
\<close>

section \<open>State\<close>

definition FUTEX_WAIT :: u32 where "FUTEX_WAIT = 0"
definition FUTEX_WAKE :: u32 where "FUTEX_WAKE = 1"
definition FUTEX_REQUEUE :: u32 where "FUTEX_REQUEUE = 3"
definition FUTEX_PRIVATE_FLAG :: u32 where "FUTEX_PRIVATE_FLAG = 128"
definition FUTEX_CLOCK_REALTIME :: u32 where "FUTEX_CLOCK_REALTIME = 256"

lemmas futex_op_defs = FUTEX_WAIT_def FUTEX_WAKE_def FUTEX_REQUEUE_def FUTEX_PRIVATE_FLAG_def
  FUTEX_CLOCK_REALTIME_def

record FutexAsleep =
  above :: u64
  awoken :: bool
  fa_task :: tptr

record Futex =
  LOCK_PROP :: Spinlock
  firstAsleep :: "nat list"

text \<open>
  The kernel state: the scheduler's, the tree, the futexes and the queue entries by address; the
  shared directories of tasks, and the task handed to the helper thread that reaps dead tasks.
\<close>

record kernel = sched_world +
  firstFutex :: AVLheader
  LOCK_AVL_FUTEX :: Spinlock
  futexes :: "u64 \<Rightarrow> Futex"
  sleepers :: "nat \<Rightarrow> FutexAsleep"
  fss :: "nat \<Rightarrow> TaskInfoFs option"
  reaperTask :: tptr
  LOCK_REAPER :: Spinlock

type_synonym kernel_env = "kernel \<Rightarrow> kernel"

abbreviation upd_futex :: "u64 \<Rightarrow> (Futex \<Rightarrow> Futex) \<Rightarrow> kernel \<Rightarrow> kernel" where
  "upd_futex f g k \<equiv> k\<lparr>futexes := (futexes k)(f := g (futexes k f))\<rparr>"

definition lock_futex :: "u64 \<Rightarrow> kernel \<Rightarrow> kernel outcome" where
  "lock_futex f k =
     obind (spinlockAcquire (LOCK_PROP (futexes k f))) (\<lambda>l. Ok (upd_futex f (\<lambda>x. x\<lparr>LOCK_PROP := l\<rparr>) k))"

abbreviation unlock_futex :: "u64 \<Rightarrow> kernel \<Rightarrow> kernel" where
  "unlock_futex f \<equiv> upd_futex f (\<lambda>x. x\<lparr>LOCK_PROP := False\<rparr>)"

text \<open>\<open>fresh\<close> is the address \<^verbatim>\<open>calloc\<close> returns when the futex has to be created.\<close>

definition futexFind :: "u64 \<Rightarrow> u64 \<Rightarrow> kernel \<Rightarrow> (u64 \<times> kernel) outcome" where
  "futexFind phys fresh k =
     obind (spinlockAcquire (LOCK_AVL_FUTEX k)) (\<lambda>l.
     let futex = AVLLookup (firstFutex k) phys;
         k1 = k\<lparr>LOCK_AVL_FUTEX := l\<rparr> in
     obind (if futex \<noteq> 0 then Ok (futex, k1)
            else obind (AVLAllocate (firstFutex k1) phys fresh) (\<lambda>t.
              Ok (fresh, k1\<lparr>firstFutex := t,
                            futexes := (futexes k1)(fresh := \<lparr>LOCK_PROP = False, firstAsleep = []\<rparr>)\<rparr>)))
       (\<lambda>(f, k2). obind (lock_futex f k2) (\<lambda>k3. Ok (f, k3\<lparr>LOCK_AVL_FUTEX := spinlockRelease l\<rparr>))))"

section \<open>Waking and moving\<close>

definition wake_task :: "tptr \<Rightarrow> task_world \<Rightarrow> task_world" where
  "wake_task p = upd_task p (\<lambda>t. t\<lparr>forcefulWakeupTimeUnsafe := 0, state := TASK_STATE_READY\<rparr>)"

definition wake_entry :: "nat \<Rightarrow> kernel \<Rightarrow> kernel outcome" where
  "wake_entry a k =
     obind (task_at (tw k) (fa_task (sleepers k a))) (\<lambda>_.
       Ok (k\<lparr>tw := wake_task (fa_task (sleepers k a)) (tw k),
             sleepers := (sleepers k)(a := (sleepers k a)\<lparr>awoken := True\<rparr>)\<rparr>))"

text \<open>The counters are \<^verbatim>\<open>int\<close>, compared with an unsigned limit.\<close>

fun wake_loop :: "u32 \<Rightarrow> u32 \<Rightarrow> nat list \<Rightarrow> kernel \<Rightarrow> (u32 \<times> kernel) outcome" where
  "wake_loop awokenCnt value [] k = Ok (awokenCnt, k)"
| "wake_loop awokenCnt value (a # as) k =
     (if \<not> awoken (sleepers k a) \<and> awokenCnt < value
      then obind (wake_entry a k) (\<lambda>k1. wake_loop (awokenCnt + 1) value as k1)
      else wake_loop awokenCnt value as k)"

text \<open>The browse over the first queue; moved entries leave it and go to the end of the second.\<close>

fun requeue_loop :: "u64 \<Rightarrow> u64 \<Rightarrow> u32 \<Rightarrow> u32 \<Rightarrow> u32 \<Rightarrow> u32 \<Rightarrow> nat list \<Rightarrow> kernel \<Rightarrow>
    (u32 \<times> u32 \<times> kernel) outcome" where
  "requeue_loop f f2 awokenCnt movedCnt value limit [] k = Ok (awokenCnt, movedCnt, k)"
| "requeue_loop f f2 awokenCnt movedCnt value limit (a # as) k =
     (if \<not> awoken (sleepers k a) \<and> awokenCnt < value
      then obind (wake_entry a k) (\<lambda>k1. requeue_loop f f2 (awokenCnt + 1) movedCnt value limit as k1)
      else if \<not> awoken (sleepers k a) \<and> movedCnt < limit
      then cassert (a \<in> set (firstAsleep (futexes k f)))
        (let k1 = upd_futex f (\<lambda>x. x\<lparr>firstAsleep := remove1 a (firstAsleep x)\<rparr>) k;
             k2 = k1\<lparr>sleepers := (sleepers k1)(a := (sleepers k1 a)\<lparr>above := f2\<rparr>)\<rparr>;
             k3 = upd_futex f2 (\<lambda>x. x\<lparr>firstAsleep := firstAsleep x @ [a]\<rparr>) k2 in
         requeue_loop f f2 awokenCnt (movedCnt + 1) value limit as k3)
      else requeue_loop f f2 awokenCnt movedCnt value limit as k)"

section \<open>Sleeping\<close>

text \<open>The lock a task asked to be released once it no longer runs (\<^verbatim>\<open>schedule.c\<close>).\<close>

definition release_queued :: "tptr \<Rightarrow> kernel \<Rightarrow> kernel" where
  "release_queued p k =
     (case map_of (tasks (tw k)) p of
        None \<Rightarrow> k
      | Some t \<Rightarrow>
          if state t \<noteq> TASK_STATE_READY \<and> spinlockQueueEntry t \<noteq> 0
          then (unlock_futex (of_nat (spinlockQueueEntry t)) k)
                 \<lparr>tw := upd_task p (\<lambda>t. t\<lparr>spinlockQueueEntry := 0\<rparr>) (tw k)\<rparr>
          else k)"

text \<open>The loop of \<^verbatim>\<open>handControl()\<close> calls; the first component tells whether the task is ready again.\<close>

fun futex_sleep :: "tptr \<Rightarrow> kernel_env list \<Rightarrow> kernel \<Rightarrow> (bool \<times> kernel) outcome" where
  "futex_sleep p envs k =
     obind (task_at (tw k) p) (\<lambda>t.
       if state t = TASK_STATE_READY then Ok (True, k)
       else (case envs of
               [] \<Rightarrow> Ok (False, release_queued p k)
             | e # es \<Rightarrow> futex_sleep p es (e (release_queued p k))))"

declare futex_sleep.simps [simp del]

text \<open>The 32-bit word at a physical address that is a multiple of 4.\<close>

definition rd32 :: "paging \<Rightarrow> u64 \<Rightarrow> u32" where
  "rd32 s pa =
     (let w = mem s (P_PHYS_ADDR pa) (unat (pa AND 0xFFF) div 8) in
      if pa AND 4 = 0 then ucast w else ucast (drop_bit 32 w))"

text \<open>\<^verbatim>\<open>DivRoundUp(utime->tv_nsec, 1000000) + utime->tv_sec * 1000\<close>, with division towards zero.\<close>

definition timeout_ms :: "u64 \<times> u64 \<Rightarrow> u64" where
  "timeout_ms ts =
     (let n = sint (snd ts) + 999999 in
      word_of_int (if n < 0 then - ((- n) div 1000000) else n div 1000000) + fst ts * 1000)"

text \<open>\<open>asleep\<close> is the address of the queue entry, \<open>ts\<close> what \<^verbatim>\<open>utime\<close> points to.\<close>

definition futex_wait :: "u64 \<Rightarrow> nat \<Rightarrow> kernel_env list \<Rightarrow> u64 \<Rightarrow> u32 \<Rightarrow> (u64 \<times> u64) option \<Rightarrow>
    kernel \<Rightarrow> (blocking \<times> kernel) outcome" where
  "futex_wait fresh asleep envs phys value ts k =
     (if rd32 (pg k) phys \<noteq> value then Ok (Ret (ERR EAGAIN), k)
      else
       let p = currentTask (tw k) in
       obind (futexFind phys fresh k) (\<lambda>(f, k1).
       let k2 = (upd_futex f (\<lambda>x. x\<lparr>firstAsleep := firstAsleep x @ [asleep]\<rparr>) k1)
                  \<lparr>sleepers := (sleepers k1)(asleep := \<lparr>above = f, awoken = False, fa_task = p\<rparr>)\<rparr> in
       obind (taskSpinlockExit p (unat f) (tw k2)) (\<lambda>w1.
       let w2 = (case ts of None \<Rightarrow> w1
                 | Some t \<Rightarrow> upd_task p (\<lambda>x. x\<lparr>forcefulWakeupTimeUnsafe := timerTicks k2 + timeout_ms t\<rparr>) w1);
           w3 = upd_task p (\<lambda>x. x\<lparr>state := TASK_STATE_FUTEX\<rparr>) w2 in
       obind (futex_sleep p envs (k2\<lparr>tw := w3\<rparr>)) (\<lambda>(up, k3).
       if \<not> up then Ok (Wait 0, k3)
       else
        obind (task_at (tw k3) p) (\<lambda>me.
        cassert (forcefulWakeupTimeUnsafe me = 0)
         (let newfutex = above (sleepers k3 asleep) in
          obind (lock_futex newfutex k3) (\<lambda>k4.
          let ret = (if awoken (sleepers k4 asleep) then 0
                     else if signalsPendingQuick me (sigs k4 (infoSignals me)) then ERR EINTR
                     else ERR ETIMEDOUT) in
          cassert (asleep \<in> set (firstAsleep (futexes k4 newfutex)))
            (Ok (Ret ret, unlock_futex newfutex
               (upd_futex newfutex (\<lambda>x. x\<lparr>firstAsleep := remove1 asleep (firstAsleep x)\<rparr>) k4))))))))))"

definition futex_wake :: "u64 \<Rightarrow> u64 \<Rightarrow> u32 \<Rightarrow> kernel \<Rightarrow> (u64 \<times> kernel) outcome" where
  "futex_wake fresh phys value k =
     obind (futexFind phys fresh k) (\<lambda>(f, k1).
     obind (wake_loop 0 value (firstAsleep (futexes k1 f)) k1) (\<lambda>(n, k2).
       Ok (scast n, unlock_futex f k2)))"

definition futex_requeue :: "u64 \<Rightarrow> u64 \<Rightarrow> u64 \<Rightarrow> u64 \<Rightarrow> u32 \<Rightarrow> u32 \<Rightarrow> kernel \<Rightarrow> (u64 \<times> kernel) outcome" where
  "futex_requeue fresh fresh2 phys phys2 value limit k =
     obind (futexFind phys fresh k) (\<lambda>(f, k1).
     obind (futexFind phys2 fresh2 k1) (\<lambda>(f2, k2).
     obind (requeue_loop f f2 0 0 value limit (firstAsleep (futexes k2 f)) k2) (\<lambda>(n, m, k3).
       Ok (scast (n + m), unlock_futex f (unlock_futex f2 k3)))))"

text \<open>\<open>utime\<close> is a pointer for a wait and a count for a requeue; \<open>addr\<close> is resolved in the current
  page directory.\<close>

definition futexSyscall :: "bootinfo \<Rightarrow> u64 \<Rightarrow> u64 \<Rightarrow> nat \<Rightarrow> kernel_env list \<Rightarrow> u64 \<Rightarrow> u32 \<Rightarrow> u32 \<Rightarrow> u64 \<Rightarrow>
    (u64 \<times> u64) \<Rightarrow> u64 \<Rightarrow> kernel \<Rightarrow> (blocking \<times> kernel) outcome" where
  "futexSyscall b fresh fresh2 asleep envs addr op0 value utime ts addr2 k =
     (if op0 AND FUTEX_CLOCK_REALTIME \<noteq> 0 then Panic
      else
       let op = op0 AND NOT FUTEX_PRIVATE_FLAG;
           known = (op = FUTEX_WAIT \<or> op = FUTEX_WAKE \<or> op = FUTEX_REQUEUE);
           phys = VirtualToPhysical b (pg k) addr;
           phys2 = VirtualToPhysical b (pg k) addr2 in
       if known \<and> (addr = 0 \<or> addr mod 4 \<noteq> 0) then Ok (Ret (ERR EINVAL), k)
       else if known \<and> phys = 0 then Panic
       else if op = FUTEX_REQUEUE \<and> (addr2 = 0 \<or> addr2 mod 4 \<noteq> 0) then Ok (Ret (ERR EINVAL), k)
       else if op = FUTEX_REQUEUE \<and> phys2 = 0 then Panic
       else if op = FUTEX_WAIT then
         futex_wait fresh asleep envs phys value (if utime = 0 then None else Some ts) k
       else if op = FUTEX_WAKE then
         obind (futex_wake fresh phys value k) (\<lambda>(r, k1). Ok (Ret r, k1))
       else if op = FUTEX_REQUEUE then
         obind (futex_requeue fresh fresh2 phys phys2 value (ucast utime) k) (\<lambda>(r, k1). Ok (Ret r, k1))
       else Panic)"

definition syscallFutex :: "bootinfo \<Rightarrow> u64 \<Rightarrow> u64 \<Rightarrow> nat \<Rightarrow> kernel_env list \<Rightarrow> u64 \<Rightarrow> u32 \<Rightarrow> u32 \<Rightarrow> u64 \<Rightarrow>
    (u64 \<times> u64) \<Rightarrow> u64 \<Rightarrow> kernel \<Rightarrow> (blocking \<times> kernel) outcome" where
  "syscallFutex b fresh fresh2 asleep envs addr op0 value utime ts addr2 k =
     obind (task_at (tw k) (currentTask (tw k))) (\<lambda>t.
       if extras t AND EXTRAS_DISABLE_FUTEX \<noteq> 0 then Ok (Ret 0, k)
       else futexSyscall b fresh fresh2 asleep envs addr op0 value utime ts addr2 k)"

end
