(* ===== verification/Proc.thy ===== *)
theory Proc
  imports Futex
begin

unbundle bit_operations_syntax

text \<open>
  Processes: sending signals (\<^verbatim>\<open>syscalls/linux/syscalls_sig.c\<close>), termination and its notice to the
  parent (\<^verbatim>\<open>multitasking/task.c\<close>), the helper that reaps dead tasks (\<^verbatim>\<open>entry/kernel_helper.c\<close>),
  waiting for children and group exit (\<^verbatim>\<open>syscalls/linux/syscalls_proc.c\<close>). Closing the files of a
  task belongs to the file layer and is an argument.
\<close>

definition ESRCH :: u64 where "ESRCH = 3"
definition ECHILD :: u64 where "ECHILD = 10"
definition WNOHANG :: u32 where "WNOHANG = 1"

section \<open>Sending signals\<close>

definition send :: "u32 \<Rightarrow> Task \<Rightarrow> Task" where
  "send sig t = t\<lparr>sigPendingList := atomicBitmapSet (sigPendingList t) sig\<rparr>"

definition send_where :: "(Task \<Rightarrow> bool) \<Rightarrow> u32 \<Rightarrow> task_world \<Rightarrow> task_world outcome" where
  "send_where P sig w =
     obind (with_read w (\<lambda>w1. ((), w1\<lparr>tasks := map (\<lambda>(p, t). if P t then (p, send sig t) else (p, t)) (tasks w1)\<rparr>)))
       (\<lambda>(_, w2). Ok w2)"

text \<open>A signal for the first task that satisfies \<open>P\<close>.\<close>

definition send_first :: "(Task \<Rightarrow> bool) \<Rightarrow> u32 \<Rightarrow> task_world \<Rightarrow> (u64 \<times> task_world) outcome" where
  "send_first P sig w =
     obind (with_read w (\<lambda>w1. (find_task P w1, w1))) (\<lambda>(p, w2).
       if p = 0 then Ok (ERR ESRCH, w2)
       else obind (task_at w2 p) (\<lambda>t.
         if state t = TASK_STATE_DEAD then Ok (ERR ESRCH, w2)
         else Ok (0, upd_task p (send sig) w2)))"

definition syscallKill :: "32 word \<Rightarrow> 32 word \<Rightarrow> task_world \<Rightarrow> (u64 \<times> task_world) outcome" where
  "syscallKill pid sig w =
     (if sig = 0x15 then Ok (0, w)
      else if sint sig < 1 \<or> sint sig > int NSIG then Ok (ERR EINVAL, w)
      else if sint pid > 0 then send_first (\<lambda>t. tgid t = pid) sig w
      else if pid = 0 then
        obind (task_at w (currentTask w)) (\<lambda>me.
        obind (send_where (\<lambda>t. pgid t = pgid me) sig w) (\<lambda>w1. Ok (0, w1)))
      else if pid = - 1 then
        obind (send_where (\<lambda>_. True) sig w) (\<lambda>w1.
          if tasks w = [] then Ok (ERR ESRCH, w1) else Ok (0, w1))
      else obind (send_where (\<lambda>t. pgid t = - pid) sig w) (\<lambda>w1. Ok (0, w1)))"

definition syscallTkill :: "32 word \<Rightarrow> 32 word \<Rightarrow> task_world \<Rightarrow> (u64 \<times> task_world) outcome" where
  "syscallTkill pid sig w = send_first (\<lambda>t. tid t = scast pid) sig w"

section \<open>Termination\<close>

text \<open>The notice a parent gets: an entry in its list, a wake-up when it waits for this child, SIGCHLD.\<close>

definition notice :: "u64 \<Rightarrow> u16 \<Rightarrow> Task \<Rightarrow> Task" where
  "notice i ret pt =
     send SIGCHLD (pt\<lparr>dsChildTerminated := dsChildTerminated pt @ [\<lparr>ki_pid = i, ki_ret = ret\<rparr>],
        childrenTerminatedAmnt := childrenTerminatedAmnt pt + 1,
        state := (if state pt = TASK_STATE_WAITING_CHILD \<or>
                     (state pt = TASK_STATE_WAITING_CHILD_SPECIFIC \<and> waitingForPid pt = i)
                  then TASK_STATE_READY else state pt)\<rparr>)"

definition notify_parent :: "Task \<Rightarrow> u16 \<Rightarrow> task_world \<Rightarrow> task_world outcome" where
  "notify_parent task ret w =
     (if parent task = 0 then Ok w
      else
       obind (if noInformParent task then Ok w
              else obind (task_at w (parent task)) (\<lambda>pt.
                   obind (spinlockAcquire (LOCK_CHILD_TERM pt)) (\<lambda>_.
                     Ok (upd_task (parent task) (notice (tid task) ret) w)))) (\<lambda>w1.
       obind (task_at w1 (parent task)) (\<lambda>pt.
         if state pt = TASK_STATE_WAITING_VFORK
         then Ok (upd_task (parent task) (\<lambda>t. t\<lparr>state := TASK_STATE_READY\<rparr>) w1) else Ok w1)))"

text \<open>\<^verbatim>\<open>atomicWrite32\<close> at a virtual address of the current page directory.\<close>

definition wr32 :: "bootinfo \<Rightarrow> u64 \<Rightarrow> u32 \<Rightarrow> paging \<Rightarrow> paging outcome" where
  "wr32 b va x s =
     (let pa = VirtualToPhysical b s va;
          f = P_PHYS_ADDR pa;
          i = unat (pa AND 0xFFF) div 8;
          w = mem s f i in
      if pa = 0 then Fault
      else Ok (put_words f i [if pa AND 4 = 0 then (w AND NOT 0xFFFFFFFF) OR ucast x
                              else (w AND 0xFFFFFFFF) OR push_bit 32 (ucast x)] s))"

text \<open>\<open>True\<close> once the reaper has taken the task.\<close>

fun taskCallReaper :: "tptr \<Rightarrow> kernel_env list \<Rightarrow> kernel \<Rightarrow> (bool \<times> kernel) outcome" where
  "taskCallReaper target envs k =
     obind (spinlockAcquire (LOCK_REAPER k)) (\<lambda>_.
       if reaperTask k = 0 then Ok (True, k\<lparr>reaperTask := target, LOCK_REAPER := False\<rparr>)
       else (case envs of
               [] \<Rightarrow> Ok (False, k\<lparr>LOCK_REAPER := False\<rparr>)
             | e # es \<Rightarrow> taskCallReaper target es (e (k\<lparr>LOCK_REAPER := False\<rparr>))))"

declare taskCallReaper.simps [simp del]

text \<open>
  \<open>close_files\<close> is the effect of \<^verbatim>\<open>taskInfoFilesDiscard\<close>, \<open>fresh\<close> the address of a futex created for
  the exit word. A task that kills itself does not return.
\<close>

definition taskKill :: "bootinfo \<Rightarrow> u64 \<Rightarrow> (tptr \<Rightarrow> kernel_env) \<Rightarrow> kernel_env list \<Rightarrow> u32 \<Rightarrow> u16 \<Rightarrow> kernel \<Rightarrow>
    (blocking \<times> kernel) outcome" where
  "taskKill b fresh close_files envs i ret k =
     obind (taskGet i (tw k)) (\<lambda>(p, w0).
       if p = 0 then Ok (Ret 0, k\<lparr>tw := w0\<rparr>)
       else
        obind (task_at w0 p) (\<lambda>task.
        obind (notify_parent task ret w0) (\<lambda>w1.
        let k1 = k\<lparr>tw := w1\<rparr> in
        obind (if tidptr task = 0 then Ok k1
               else obind (wr32 b (tidptr task) 0 (pg k1)) (\<lambda>pg'.
                    obind (futexSyscall b fresh 0 0 [] (tidptr task) FUTEX_WAKE 1 0 (0, 0) 0 (k1\<lparr>pg := pg'\<rparr>))
                      (\<lambda>(_, k'). Ok k'))) (\<lambda>k2.
        let k3 = close_files p k2 in
        obind (taskInfoPdDiscard b (pds k3 (infoPd task)) (pg k3)) (\<lambda>(pd, pg').
        obind (taskCallReaper p envs (k3\<lparr>pds := (pds k3)(infoPd task := pd), pg := pg'\<rparr>)) (\<lambda>(taken, k4).
          if \<not> taken then Ok (Wait 0, k4)
          else let k5 = k4\<lparr>tw := upd_task p (\<lambda>t. t\<lparr>state := TASK_STATE_DEAD\<rparr>) (tw k4)\<rparr> in
               Ok (if currentTask (tw k5) = p then Wait 0 else Ret 0, k5)))))))"

definition syscallExitTask :: "bootinfo \<Rightarrow> u64 \<Rightarrow> (tptr \<Rightarrow> kernel_env) \<Rightarrow> kernel_env list \<Rightarrow> 32 word \<Rightarrow> kernel \<Rightarrow>
    (blocking \<times> kernel) outcome" where
  "syscallExitTask b fresh close_files envs return_code k =
     obind (task_at (tw k) (currentTask (tw k))) (\<lambda>me.
       taskKill b fresh close_files envs (ucast (tid me)) (ucast return_code) k)"

text \<open>What group exit does to each task of the list.\<close>

definition exit_group_one :: "Task \<Rightarrow> Task \<Rightarrow> Task" where
  "exit_group_one me t =
     (if tgid t = tgid me \<and> tid t \<noteq> tid me
      then send SIGKILL (if scast (tgid t) \<noteq> tid t then t\<lparr>noInformParent := True, parent := 0\<rparr> else t)
      else t)"

definition syscallExitGroup :: "bootinfo \<Rightarrow> u64 \<Rightarrow> (tptr \<Rightarrow> kernel_env) \<Rightarrow> kernel_env list \<Rightarrow> 32 word \<Rightarrow> kernel \<Rightarrow>
    (blocking \<times> kernel) outcome" where
  "syscallExitGroup b fresh close_files envs return_code k =
     obind (task_at (tw k) (currentTask (tw k))) (\<lambda>me.
     cassert (scast (tgid me) = tid me)
      (obind (with_read (tw k) (\<lambda>w. ((), w\<lparr>tasks := map (\<lambda>(p, t). (p, exit_group_one me t)) (tasks w)\<rparr>))) (\<lambda>(_, w1).
         syscallExitTask b fresh close_files envs return_code (k\<lparr>tw := w1\<rparr>))))"

section \<open>Reaping\<close>

definition helperReaper :: "bootinfo \<Rightarrow> u64 \<Rightarrow> (tptr \<Rightarrow> kernel_env) \<Rightarrow> kernel \<Rightarrow> kernel outcome" where
  "helperReaper b fresh close_files k =
     obind (spinlockAcquire (LOCK_REAPER k)) (\<lambda>l.
     let k0 = k\<lparr>LOCK_REAPER := l\<rparr>; p = reaperTask k0 in
     if p = 0 then Ok (k0\<lparr>LOCK_REAPER := False\<rparr>)
     else
      obind (task_at (tw k0) p) (\<lambda>t.
      obind (if state t = TASK_STATE_SIGKILLED
             then obind (taskKill b fresh close_files [] (ucast (tid t)) (128 + ucast (tmpRecV t)) k0) (\<lambda>(_, k'). Ok k')
             else Ok k0) (\<lambda>k1.
      obind (task_at (tw k1) p) (\<lambda>t1.
      if state t1 \<noteq> TASK_STATE_DEAD then Ok (k1\<lparr>LOCK_REAPER := False\<rparr>)
      else
       obind (taskFreeChildren p (tw k1)) (\<lambda>w1.
       let stackSize = scast USER_STACK_PAGES * BLOCK_SIZE in
       obind (VirtualFree b (pg k1) (whileTssRsp t1 - stackSize) USER_STACK_PAGES) (\<lambda>(_, pg1).
       obind (VirtualFree b pg1 (whileSyscallRsp t1 - stackSize) USER_STACK_PAGES) (\<lambda>(_, pg2).
       obind (case fss k1 (infoFs t1) of None \<Rightarrow> Fault | Some fs \<Rightarrow> taskInfoFsDiscard fs) (\<lambda>fs'.
       obind (taskListDestroy p w1) (\<lambda>w2.
         Ok (k1\<lparr>tw := w2, pg := pg2, fss := (fss k1)(infoFs t1 := fs'), reaperTask := 0,
                LOCK_REAPER := False\<rparr>))))))))))"

section \<open>Waiting for children\<close>

text \<open>The status word: an exit code, or the signal for codes from 128 up.\<close>

definition wait_status :: "u16 \<Rightarrow> u32" where
  "wait_status ret =
     (if ret < 128 then push_bit 8 (ucast ret AND 0xff) else (ucast ret - 128) AND 0xff)"

fun find_killed :: "32 word \<Rightarrow> KilledInfo list \<Rightarrow> nat option" where
  "find_killed pid [] = None"
| "find_killed pid (x # xs) = (if scast pid = ki_pid x then Some 0 else map_option Suc (find_killed pid xs))"

text \<open>The last part of \<^verbatim>\<open>syscallWait4\<close>, with \<open>target\<close> the position of the entry found.\<close>

definition wait_take :: "tptr \<Rightarrow> nat option \<Rightarrow> task_world \<Rightarrow> (u64 \<times> u32 \<times> task_world) outcome" where
  "wait_take p target w =
     obind (task_at w p) (\<lambda>me.
     obind (spinlockAcquire (LOCK_CHILD_TERM me)) (\<lambda>_.
       case target of
         None \<Rightarrow> Panic
       | Some i \<Rightarrow>
           obind (aget (dsChildTerminated me) i) (\<lambda>x.
             Ok (scast (ucast (ki_pid x) :: 32 word), wait_status (ki_ret x),
                 upd_task p (\<lambda>t. t\<lparr>dsChildTerminated := take i (dsChildTerminated t) @ drop (Suc i) (dsChildTerminated t),
                                   childrenTerminatedAmnt := childrenTerminatedAmnt t - 1\<rparr>) w))))"

text \<open>One \<^verbatim>\<open>handControl()\<close> in the waiting state, and the test for signals after it.\<close>

definition wait_once :: "tptr \<Rightarrow> (Task \<Rightarrow> Task) \<Rightarrow> kernel_env option \<Rightarrow> kernel \<Rightarrow> (blocking option \<times> kernel) outcome" where
  "wait_once p enter env k =
     (let k1 = k\<lparr>tw := upd_task p enter (tw k)\<rparr> in
      case env of
        None \<Rightarrow> Ok (Some (Wait 0), k1)
      | Some e \<Rightarrow>
          let k2 = e k1 in
          obind (task_at (tw k2) p) (\<lambda>me.
            if signalsPendingQuick me (sigs k2 (infoSignals me)) then Ok (Some (Ret (ERR EINTR)), k2)
            else Ok (None, k2)))"

text \<open>The result has the status word when an entry was taken; \<open>env\<close> is what happens until the task
  runs again, \<open>None\<close> if it never does.\<close>

definition syscallWait4 :: "kernel_env option \<Rightarrow> 32 word \<Rightarrow> u32 \<Rightarrow> kernel \<Rightarrow>
    (blocking \<times> u32 option \<times> kernel) outcome" where
  "syscallWait4 env pid options k =
     (let p = currentTask (tw k) in
      obind (task_at (tw k) p) (\<lambda>me.
      obind (if childrenTerminatedAmnt me \<noteq> 0 then Ok (True, tw k)
             else with_read (tw k) (\<lambda>w.
               (list_ex (\<lambda>(q, t). state t = TASK_STATE_READY \<and> parent t = p) (tasks w), w))) (\<lambda>(some, w0).
      let k0 = k\<lparr>tw := w0\<rparr> in
      if \<not> some then Ok (Ret (ERR ECHILD), None, k0)
      else
       let finish = (\<lambda>target k'. obind (wait_take p target (tw k')) (\<lambda>(r, st, w). Ok (Ret r, Some st, k'\<lparr>tw := w\<rparr>))) in
       if pid \<noteq> - 1 then
         obind (spinlockAcquire (LOCK_CHILD_TERM me)) (\<lambda>_.
         case find_killed pid (dsChildTerminated me) of
           Some i \<Rightarrow> finish (Some i) k0
         | None \<Rightarrow>
             if options AND WNOHANG \<noteq> 0 then Ok (Ret 0, None, k0)
             else obind (wait_once p (\<lambda>t. t\<lparr>waitingForPid := scast pid, state := TASK_STATE_WAITING_CHILD_SPECIFIC\<rparr>) env k0)
               (\<lambda>(r, k1). case r of
                  Some x \<Rightarrow> Ok (x, None, k1)
                | None \<Rightarrow>
                    obind (task_at (tw k1) p) (\<lambda>me1.
                    obind (spinlockAcquire (LOCK_CHILD_TERM me1)) (\<lambda>_.
                      finish (find_killed pid (dsChildTerminated me1))
                        (k1\<lparr>tw := upd_task p (\<lambda>t. t\<lparr>waitingForPid := 0\<rparr>) (tw k1)\<rparr>)))))
       else
         obind (if childrenTerminatedAmnt me \<noteq> 0 then Ok (None, k0)
                else if options AND WNOHANG \<noteq> 0 then Ok (Some (Ret 0), k0)
                else wait_once p (\<lambda>t. t\<lparr>state := TASK_STATE_WAITING_CHILD\<rparr>) env k0) (\<lambda>(r, k1).
         case r of
           Some x \<Rightarrow> Ok (x, None, k1)
         | None \<Rightarrow>
             obind (task_at (tw k1) p) (\<lambda>me1.
               finish (if dsChildTerminated me1 = [] then None else Some 0) k1)))))"

end
