(* ===== verification/Syscall.thy ===== *)
theory Syscall
  imports Proc
begin

unbundle bit_operations_syntax

text \<open>
  The system call table and the dispatcher of \<^verbatim>\<open>syscalls/syscalls.c\<close>. The handlers are functions of
  the six argument registers; the table holds their addresses.
\<close>

definition MAX_SYSCALLS :: nat where "MAX_SYSCALLS = 450"

record syscall_table =
  syscalls :: "u64 list"
  syscallCnt :: u32

definition empty_table :: syscall_table where
  "empty_table = \<lparr>syscalls = replicate MAX_SYSCALLS 0, syscallCnt = 0\<rparr>"

definition registerSyscall :: "u32 \<Rightarrow> u64 \<Rightarrow> syscall_table \<Rightarrow> syscall_table outcome" where
  "registerSyscall i handler st =
     (if unat i > MAX_SYSCALLS then Panic
      else obind (aget (syscalls st) (unat i)) (\<lambda>old.
        if old \<noteq> 0 then Panic
        else obind (aset (syscalls st) (unat i) handler) (\<lambda>xs.
          Ok (st\<lparr>syscalls := xs, syscallCnt := syscallCnt st + 1\<rparr>))))"

text \<open>The calls that report success without a handler.\<close>

definition tolerated :: "u64 \<Rightarrow> bool" where
  "tolerated i \<longleftrightarrow> i \<in> {54, 222, 223, 224, 225, 226, 324, 28}"

type_synonym handler = "u64 \<times> u64 \<times> u64 \<times> u64 \<times> u64 \<times> u64 \<Rightarrow> kernel \<Rightarrow> (u64 \<times> kernel) outcome"

text \<open>The part before \<^verbatim>\<open>cleanup\<close>: the registers with the result, and the kernel state.\<close>

definition dispatch :: "(u64 \<Rightarrow> handler) \<Rightarrow> syscall_table \<Rightarrow> tptr \<Rightarrow> AsmPassedInterrupt \<Rightarrow> kernel \<Rightarrow>
    (AsmPassedInterrupt \<times> kernel) outcome" where
  "dispatch code st p regs k =
     (if rax regs > of_nat MAX_SYSCALLS then Ok (regs\<lparr>rax := - 1\<rparr>, k)
      else obind (aget (syscalls st) (unat (rax regs))) (\<lambda>h.
        if h = 0 then Ok (regs\<lparr>rax := (if tolerated (rax regs) then 0 else ERR ENOSYS)\<rparr>, k)
        else obind (code h (rdi regs, rsi regs, rdx regs, r10 regs, r8 regs, r9 regs) k) (\<lambda>(ret, k1).
          Ok (regs\<lparr>rax := ret\<rparr>,
              if RET_IS_ERR ret \<and> ret = ERR EINTR
              then k1\<lparr>tw := upd_task p (\<lambda>t. t\<lparr>dsSysIntr := rax regs # dsSysIntr t\<rparr>) (tw k1)\<rparr> else k1))))"

text \<open>
  \<^verbatim>\<open>syscallHandler\<close>: \<open>rsp\<close> is the user stack pointer saved above the registers. The result is the exit
  code of a task that is killed, or the stack pointer and the registers to return with. \<open>fpu\<close> and
  \<open>csr\<close> are the processor's floating point state when a handler has to be entered.
\<close>

definition syscallHandler :: "bootinfo \<Rightarrow> (u64 \<Rightarrow> handler) \<Rightarrow> syscall_table \<Rightarrow> u64 list \<Rightarrow> u32 \<Rightarrow> u64 \<Rightarrow>
    AsmPassedInterrupt \<Rightarrow> kernel \<Rightarrow> (nat + u64 \<times> AsmPassedInterrupt \<times> kernel) outcome" where
  "syscallHandler b code st fpu csr rsp regs k =
     (let p = currentTask (tw k);
          k0 = k\<lparr>tw := upd_task p (\<lambda>t. t\<lparr>systemCallInProgress := True, syscallRegs := Some regs,
                                         syscallRsp := rsp\<rparr>) (tw k)\<rparr> in
      obind (dispatch code st p regs k0) (\<lambda>(regs1, k1).
      obind (task_at (tw k1) p) (\<lambda>t1.
      cassert (pagedirOverride t1 = 0)
       (let t2 = t1\<lparr>syscallRsp := 0, syscallRegs := None, systemCallInProgress := False\<rparr> in
        obind (signalsPendingHandleSys b (pagedir (pds k1 (infoPd t2))) fpu csr (sigs k1 (infoSignals t2)) t2 rsp
                 regs1 (pg k1)) (\<lambda>r.
          case r of
            Inl c \<Rightarrow> Ok (Inl c)
          | Inr (t3, rsp', regs2, pg') \<Rightarrow>
              Ok (Inr (rsp', regs2, k1\<lparr>tw := upd_task p (\<lambda>_. t3) (tw k1), pg := pg'\<rparr>)))))))"

end
