(* ===== verification/Spec2Isabelle.thy ===== *)
theory Spec2Isabelle
  imports Prelude Bitmap Spinlock Pmm Circular AvlTree LinkedList CString Pipe Paging Task Signals Schedule EventFd Futex Proc Syscall
begin

text \<open>
  A verification library for the cavOS kernel under \<^verbatim>\<open>src/src/kernel\<close>.
\<close>

end
